(* ===== verification/Prelude.thy ===== *)
theory Prelude
  imports Main "HOL-Library.Word"
begin

section \<open>Machine words, bytes and strings\<close>

text \<open>
  What every component of the crate shares: Rust's unsigned integers as words of their width,
  byte buffers (\<open>&[u8]\<close>, \<open>Vec<u8>\<close>, \<open>Bytes\<close>) as lists of 8-bit words, \<open>str\<close>/\<open>String\<close> as the
  list of its UTF-8 bytes (one \<open>char\<close> per byte), and the little-endian conversions
  \<open>to_le_bytes\<close>/\<open>from_le_bytes\<close>. The lemmas on them are collected in \<open>le_simps\<close> (lengths and
  round trips of the conversions) and \<open>byte_simps\<close> (strings as bytes).
\<close>

type_synonym u8 = "8 word"
type_synonym u16 = "16 word"
type_synonym u32 = "32 word"
type_synonym u64 = "64 word"
type_synonym i64 = "64 word" \<comment> \<open>the two's complement bits; \<open>sint\<close> reads the value\<close>
type_synonym bytes = "u8 list"
type_synonym str = string

named_theorems le_simps \<open>lengths and round trips of the little-endian conversions\<close>
named_theorems byte_simps \<open>strings as byte lists\<close>

subsection \<open>Little-endian conversions\<close>

primrec le_of_nat :: "nat \<Rightarrow> nat \<Rightarrow> bytes" where
  "le_of_nat 0 n = []"
| "le_of_nat (Suc k) n = word_of_nat n # le_of_nat k (n div 256)"

primrec nat_of_le :: "bytes \<Rightarrow> nat" where
  "nat_of_le [] = 0"
| "nat_of_le (b # bs) = unat b + 256 * nat_of_le bs"

definition u32_to_le :: "u32 \<Rightarrow> bytes" where
  "u32_to_le w = le_of_nat 4 (unat w)"

definition u32_from_le :: "bytes \<Rightarrow> u32" where
  "u32_from_le bs = word_of_nat (nat_of_le bs)"

definition u64_to_le :: "u64 \<Rightarrow> bytes" where
  "u64_to_le w = le_of_nat 8 (unat w)"

definition u64_from_le :: "bytes \<Rightarrow> u64" where
  "u64_from_le bs = word_of_nat (nat_of_le bs)"

lemma length_le_of_nat [simp]: "length (le_of_nat k n) = k"
  by (induction k arbitrary: n) simp_all

lemma unat_u8_of_nat [simp]: "unat (word_of_nat n :: u8) = n mod 256"
  by (simp add: unat_of_nat)

lemma nat_of_le_of_nat [simp]: "nat_of_le (le_of_nat k n) = n mod 256 ^ k"
proof (induction k arbitrary: n)
  case 0
  then show ?case by simp
next
  case (Suc k)
  have "n mod 256 ^ Suc k = n mod 256 + 256 * (n div 256 mod 256 ^ k)"
    by (simp add: mod_mult2_eq)
  with Suc show ?case by simp
qed

lemma nat_of_le_bound: "nat_of_le bs < 256 ^ length bs"
proof (induction bs)
  case Nil
  then show ?case by simp
next
  case (Cons b bs)
  have "unat b < 256" using unsigned_less [of b] by simp
  with Cons show ?case by simp
qed

lemma le_of_nat_of_le: "le_of_nat (length bs) (nat_of_le bs) = bs"
proof (induction bs)
  case Nil
  then show ?case by simp
next
  case (Cons b bs)
  have b: "unat b < 256" using unsigned_less [of b] by simp
  have "(unat b + 256 * nat_of_le bs) div 256 = nat_of_le bs"
    using b by simp
  moreover have "(word_of_nat (unat b + 256 * nat_of_le bs) :: u8) = b"
    using b by (simp only: word_unat_eq_iff unat_u8_of_nat) simp
  ultimately show ?case using Cons by simp
qed

lemma nat_of_le_append: "nat_of_le (xs @ ys) = nat_of_le xs + 256 ^ length xs * nat_of_le ys"
  by (induction xs) (simp_all add: algebra_simps)

lemma nat_of_le_zeros [simp]: "nat_of_le (replicate n 0) = 0"
  by (induction n) simp_all

lemma length_u32_to_le [simp, le_simps]: "length (u32_to_le w) = 4"
  by (simp add: u32_to_le_def)

lemma length_u64_to_le [simp, le_simps]: "length (u64_to_le w) = 8"
  by (simp add: u64_to_le_def)

lemma u32_to_le_cells:
  "u32_to_le w = [word_of_nat (unat w), word_of_nat (unat w div 256), word_of_nat (unat w div 256 div 256),
     word_of_nat (unat w div 256 div 256 div 256)]"
proof -
  have four: "(4 :: nat) = Suc (Suc (Suc (Suc 0)))" by simp
  show ?thesis unfolding u32_to_le_def four le_of_nat.simps ..
qed

lemma u32_to_le_not_Nil [simp]: "u32_to_le w \<noteq> []"
  using length_u32_to_le [of w] by fastforce

lemma unat_u32_bound: "unat (w :: u32) < 4294967296"
  using unsigned_less [of w] by simp

lemma unat_u64_bound: "unat (w :: u64) < 18446744073709551616"
  using unsigned_less [of w] by simp

lemma u32_roundtrip [simp, le_simps]: "u32_from_le (u32_to_le w) = w"
  by (simp add: u32_from_le_def u32_to_le_def unat_u32_bound)

lemma u64_roundtrip [simp, le_simps]: "u64_from_le (u64_to_le w) = w"
  by (simp add: u64_from_le_def u64_to_le_def unat_u64_bound)

lemma u32_to_le_from_le: "length bs = 4 \<Longrightarrow> u32_to_le (u32_from_le bs) = bs"
  using nat_of_le_bound [of bs] le_of_nat_of_le [of bs]
  by (simp add: u32_from_le_def u32_to_le_def unat_of_nat)

lemma u64_to_le_from_le: "length bs = 8 \<Longrightarrow> u64_to_le (u64_from_le bs) = bs"
  using nat_of_le_bound [of bs] le_of_nat_of_le [of bs]
  by (simp add: u64_from_le_def u64_to_le_def unat_of_nat)

lemma u32_to_le_inject [simp]: "u32_to_le v = u32_to_le w \<longleftrightarrow> v = w"
  by (metis u32_roundtrip)

lemma u64_to_le_inject [simp]: "u64_to_le v = u64_to_le w \<longleftrightarrow> v = w"
  by (metis u64_roundtrip)

lemma unat_u32_of_nat: "n < 4294967296 \<Longrightarrow> unat (word_of_nat n :: u32) = n"
  by (simp add: unat_of_nat)

subsection \<open>Strings as UTF-8 bytes\<close>

definition byte_of :: "char \<Rightarrow> u8" where
  "byte_of c = of_char c"

definition char_of_byte :: "u8 \<Rightarrow> char" where
  "char_of_byte b = char_of (unat b)"

abbreviation as_bytes :: "str \<Rightarrow> bytes" where
  "as_bytes s \<equiv> map byte_of s"

abbreviation bytes_str :: "bytes \<Rightarrow> str" where
  "bytes_str bs \<equiv> map char_of_byte bs"

lemma unat_byte_of: "unat (byte_of c) = of_char c"
proof -
  have "byte_of c = word_of_nat (of_char c)"
    by (simp add: byte_of_def of_nat_of_char)
  then show ?thesis
    by (simp add: unat_of_nat)
qed

lemma char_of_byte_of [simp, byte_simps]: "char_of_byte (byte_of c) = c"
  by (simp add: char_of_byte_def unat_byte_of)

lemma byte_of_char_of_byte [simp, byte_simps]: "byte_of (char_of_byte b) = b"
proof -
  have "unat b < 256" using unsigned_less [of b] by simp
  then have "unat (byte_of (char_of_byte b)) = unat b"
    by (simp add: unat_byte_of char_of_byte_def)
  then show ?thesis by (simp add: word_unat_eq_iff)
qed

lemma byte_of_inject [simp, byte_simps]: "byte_of c = byte_of d \<longleftrightarrow> c = d"
  by (metis char_of_byte_of)

lemma bytes_str_as_bytes [simp, byte_simps]: "bytes_str (as_bytes s) = s"
  by (induction s) simp_all

lemma as_bytes_bytes_str [simp, byte_simps]: "as_bytes (bytes_str bs) = bs"
  by (induction bs) simp_all

lemma as_bytes_inject [simp]: "as_bytes s = as_bytes t \<longleftrightarrow> s = t"
  by (metis bytes_str_as_bytes)

subsection \<open>Lists\<close>

lemma take_drop_append_exact:
  "length xs = n \<Longrightarrow> take n (xs @ ys) = xs" "length xs = n \<Longrightarrow> drop n (xs @ ys) = ys"
  by simp_all

end
