(* ===== verification/Rust_Text.thy ===== *)
theory Rust_Text
  imports Prelude
begin

section \<open>The string functions of Rust's standard library\<close>

text \<open>
  The \<open>str\<close> methods the crate calls, on the UTF-8 bytes of a string. All separators the crate
  searches for are ASCII or whole UTF-8 sequences, so searching bytes finds exactly what Rust's
  search over characters finds. \<open>utf8_lossy\<close> is \<open>String::from_utf8_lossy\<close>: every maximal
  ill-formed piece becomes the replacement character U+FFFD. Whitespace is Unicode's
  \<open>White_Space\<close>, as in \<open>str::trim\<close> and \<open>str::split_whitespace\<close>. Lemmas about searching and
  splitting are collected in \<open>text_simps\<close>.
\<close>

named_theorems text_simps \<open>searching and splitting strings\<close>

subsection \<open>Prefixes, suffixes and searching\<close>

fun strip_prefix :: "'a list \<Rightarrow> 'a list \<Rightarrow> 'a list option" where
  "strip_prefix [] s = Some s"
| "strip_prefix (p # ps) [] = None"
| "strip_prefix (p # ps) (c # cs) = (if p = c then strip_prefix ps cs else None)"

definition strip_suffix :: "'a list \<Rightarrow> 'a list \<Rightarrow> 'a list option" where
  "strip_suffix p s = map_option rev (strip_prefix (rev p) (rev s))"

definition starts_with :: "'a list \<Rightarrow> 'a list \<Rightarrow> bool" where
  "starts_with p s = (strip_prefix p s \<noteq> None)"

fun find_sub :: "'a list \<Rightarrow> 'a list \<Rightarrow> nat option" where
  "find_sub p [] = (if p = [] then Some 0 else None)"
| "find_sub p (c # cs) =
     (if starts_with p (c # cs) then Some 0 else map_option Suc (find_sub p cs))"

definition split_once :: "'a list \<Rightarrow> 'a list \<Rightarrow> ('a list \<times> 'a list) option" where
  "split_once p s = map_option (\<lambda>i. (take i s, drop (i + length p) s)) (find_sub p s)"

definition rsplit_once :: "'a list \<Rightarrow> 'a list \<Rightarrow> ('a list \<times> 'a list) option" where
  "rsplit_once p s = map_option (\<lambda>(a, b). (rev b, rev a)) (split_once (rev p) (rev s))"

lemma strip_prefix_append [simp, text_simps]: "strip_prefix p (p @ s) = Some s"
  by (induction p) simp_all

lemma strip_prefix_Some: "strip_prefix p s = Some r \<longleftrightarrow> s = p @ r"
  by (induction p s rule: strip_prefix.induct) auto

lemma strip_suffix_append [simp, text_simps]: "strip_suffix p (s @ p) = Some s"
  by (simp add: strip_suffix_def)

lemma strip_suffix_Some: "strip_suffix p s = Some r \<longleftrightarrow> s = r @ p"
  by (auto simp: strip_suffix_def strip_prefix_Some rev_swap)

lemma starts_with_iff: "starts_with p s \<longleftrightarrow> (\<exists>r. s = p @ r)"
  by (auto simp: starts_with_def strip_prefix_Some)

lemma find_sub_single [text_simps]:
  "find_sub [c] s = (if c \<in> set s then Some (length (takeWhile (\<lambda>d. d \<noteq> c) s)) else None)"
  by (induction s) (auto simp: starts_with_def)

lemma find_sub_bound: "find_sub p s = Some i \<Longrightarrow> i + length p \<le> length s"
proof (induction p s arbitrary: i rule: find_sub.induct)
  case (1 p)
  then show ?case by (simp split: if_splits)
next
  case (2 p c cs)
  show ?case
  proof (cases "starts_with p (c # cs)")
    case True
    then obtain r where "c # cs = p @ r" by (auto simp: starts_with_iff)
    then have "length p \<le> length (c # cs)" by simp
    with True 2 show ?thesis by simp
  next
    case False
    with 2 show ?thesis by auto
  qed
qed

lemma find_sub_Some: "find_sub p s = Some i \<Longrightarrow> s = take i s @ p @ drop (i + length p) s"
proof (induction p s arbitrary: i rule: find_sub.induct)
  case (1 p)
  then show ?case by (simp split: if_splits)
next
  case (2 p c cs)
  show ?case
  proof (cases "starts_with p (c # cs)")
    case True
    then obtain r where "c # cs = p @ r" by (auto simp: starts_with_iff)
    moreover from True 2 have "i = 0" by simp
    ultimately show ?thesis by simp
  next
    case False
    with 2 show ?thesis by auto
  qed
qed

lemma split_once_Some: "split_once p s = Some (a, b) \<Longrightarrow> s = a @ p @ b"
  using find_sub_Some by (fastforce simp: split_once_def)

lemma split_once_single [text_simps]:
  "c \<notin> set a \<Longrightarrow> split_once [c] (a @ c # b) = Some (a, b)"
proof -
  assume "c \<notin> set a"
  then have "takeWhile (\<lambda>d. d \<noteq> c) (a @ c # b) = a"
    by (induction a) auto
  then show ?thesis by (simp add: split_once_def find_sub_single)
qed

lemma split_once_single_None [text_simps]: "c \<notin> set s \<Longrightarrow> split_once [c] s = None"
  by (simp add: split_once_def find_sub_single)

lemma rsplit_once_single [text_simps]:
  "c \<notin> set b \<Longrightarrow> rsplit_once [c] (a @ c # b) = Some (a, b)"
proof -
  assume "c \<notin> set b"
  then have "split_once [c] (rev b @ c # rev a) = Some (rev b, rev a)"
    by (simp add: split_once_single)
  then show ?thesis by (simp add: rsplit_once_def)
qed

text \<open>
  A pattern is found at its first occurrence; a two-part delimiter is found right after a
  prefix that contains no character the pattern starts with.
\<close>

lemma find_sub_skip:
  "hd p \<notin> set a \<Longrightarrow> p \<noteq> [] \<Longrightarrow> find_sub p (a @ s) = map_option ((+) (length a)) (find_sub p s)"
proof (induction a)
  case Nil
  then show ?case by (cases "find_sub p s") simp_all
next
  case (Cons c cs)
  then have "\<not> starts_with p (c # cs @ s)"
    by (auto simp: starts_with_iff neq_Nil_conv)
  with Cons show ?case by (cases "find_sub p s") simp_all
qed

lemma find_sub_prefix [simp, text_simps]: "p \<noteq> [] \<Longrightarrow> find_sub p (p @ s) = Some 0"
proof (cases "p @ s")
  case (Cons a list)
  then have "starts_with p (a # list)" by (metis starts_with_iff)
  with Cons show ?thesis by simp
qed simp

lemma split_once_first:
  assumes "p \<noteq> []" and "hd p \<notin> set a"
  shows "split_once p (a @ p @ b) = Some (a, b)"
  using assms by (simp add: split_once_def find_sub_skip)

subsection \<open>Splitting\<close>

fun split_char :: "'a \<Rightarrow> 'a list \<Rightarrow> 'a list list" where
  "split_char c [] = [[]]"
| "split_char c (x # xs) =
     (if x = c then [] # split_char c xs
      else case split_char c xs of [] \<Rightarrow> [[x]] | y # ys \<Rightarrow> (x # y) # ys)"

lemma split_char_not_Nil [simp]: "split_char c s \<noteq> []"
  by (induction s) (auto split: list.splits)

lemma split_char_absent [text_simps]: "c \<notin> set s \<Longrightarrow> split_char c s = [s]"
  by (induction s) auto

lemma split_char_append [text_simps]:
  "c \<notin> set a \<Longrightarrow> split_char c (a @ c # s) = a # split_char c s"
  by (induction a) auto

lemma split_char_pieces: "p \<in> set (split_char c s) \<Longrightarrow> c \<notin> set p"
proof (induction s arbitrary: p)
  case Nil
  then show ?case by simp
next
  case (Cons x xs)
  obtain y ys where y: "split_char c xs = y # ys"
    by (cases "split_char c xs") auto
  with Cons show ?case by (auto split: if_splits)
qed

fun join :: "'a list \<Rightarrow> 'a list list \<Rightarrow> 'a list" where
  "join sep [] = []"
| "join sep [x] = x"
| "join sep (x # y # zs) = x @ sep @ join sep (y # zs)"

lemma split_char_join [text_simps]:
  assumes "xs \<noteq> []" and "\<forall>x \<in> set xs. c \<notin> set x"
  shows "split_char c (join [c] xs) = xs"
  using assms by (induction "[c]" xs rule: join.induct) (simp_all add: text_simps)

lemma set_join: "set (join sep xs) \<subseteq> set sep \<union> \<Union> (set ` set xs)"
  by (induction sep xs rule: join.induct) auto

text \<open>\<open>str::lines\<close>: a final newline ends the last line, and a \<open>\r\<close> before a newline goes with it.\<close>

fun lines_aux :: "str \<Rightarrow> str \<Rightarrow> str list" where
  "lines_aux acc [] = (if acc = [] then [] else [rev acc])"
| "lines_aux acc (c # cs) =
     (if c = CHR 0x0A
      then (case acc of
              a # as \<Rightarrow> if a = CHR 0x0D then rev as else rev acc
            | [] \<Rightarrow> []) # lines_aux [] cs
      else lines_aux (c # acc) cs)"

definition lines :: "str \<Rightarrow> str list" where
  "lines s = lines_aux [] s"

lemma lines_aux_run:
  "CHR 0x0A \<notin> set l \<Longrightarrow> lines_aux acc (l @ s) = lines_aux (rev l @ acc) s"
  by (induction l arbitrary: acc) auto

lemma lines_Nil [simp, text_simps]: "lines [] = []"
  by (simp add: lines_def)

lemma lines_newline [text_simps]:
  assumes "CHR 0x0A \<notin> set l" and "l = [] \<or> last l \<noteq> CHR 0x0D"
  shows "lines (l @ CHR 0x0A # s) = l # lines s"
proof (cases "rev l")
  case Nil
  then show ?thesis by (simp add: lines_def)
next
  case (Cons a as)
  then have "l = rev as @ [a]" by (metis rev.simps(2) rev_rev_ident)
  with assms show ?thesis
    by (auto simp: lines_def lines_aux_run)
qed

lemma lines_last [text_simps]: "CHR 0x0A \<notin> set l \<Longrightarrow> l \<noteq> [] \<Longrightarrow> lines l = [l]"
  using lines_aux_run [of l "[]" "[]"] by (simp add: lines_def)

subsection \<open>Trimming\<close>

definition trim_end_matches :: "('a \<Rightarrow> bool) \<Rightarrow> 'a list \<Rightarrow> 'a list" where
  "trim_end_matches p s = rev (dropWhile p (rev s))"

lemma trim_end_matches_id [text_simps]:
  "s = [] \<or> \<not> p (last s) \<Longrightarrow> trim_end_matches p s = s"
  by (cases s rule: rev_cases) (auto simp: trim_end_matches_def)

lemma trim_end_matches_append [text_simps]:
  "p c \<Longrightarrow> trim_end_matches p (s @ [c]) = trim_end_matches p s"
  by (simp add: trim_end_matches_def)

definition ws_chars :: "str list" where
  "ws_chars = map (\<lambda>c. [c]) [CHR 0x09, CHR 0x0A, CHR 0x0B, CHR 0x0C, CHR 0x0D, CHR 0x20]
     @ [[CHR 0xC2, CHR 0x85], [CHR 0xC2, CHR 0xA0], [CHR 0xE1, CHR 0x9A, CHR 0x80]]
     @ map (\<lambda>c. [CHR 0xE2, CHR 0x80, c])
         [CHR 0x80, CHR 0x81, CHR 0x82, CHR 0x83, CHR 0x84, CHR 0x85, CHR 0x86, CHR 0x87,
          CHR 0x88, CHR 0x89, CHR 0x8A, CHR 0xA8, CHR 0xA9, CHR 0xAF]
     @ [[CHR 0xE2, CHR 0x81, CHR 0x9F], [CHR 0xE3, CHR 0x80, CHR 0x80]]"

fun drop_any :: "'a list list \<Rightarrow> 'a list \<Rightarrow> 'a list option" where
  "drop_any [] s = None"
| "drop_any (w # ws) s =
     (case strip_prefix w s of Some r \<Rightarrow> Some r | None \<Rightarrow> drop_any ws s)"

lemma drop_any_shorter: "[] \<notin> set ws \<Longrightarrow> drop_any ws s = Some r \<Longrightarrow> length r < length s"
  by (induction ws) (auto simp: strip_prefix_Some split: option.splits)

lemma ws_chars_no_Nil [simp]: "[] \<notin> set ws_chars" "[] \<notin> set (map rev ws_chars)"
  by (auto simp: ws_chars_def)

function trim_start :: "str \<Rightarrow> str" where
  "trim_start s = (case drop_any ws_chars s of None \<Rightarrow> s | Some r \<Rightarrow> trim_start r)"
  by pat_completeness auto
termination
  by (relation "measure length") (auto dest: drop_any_shorter [rotated])

function trim_rev :: "str \<Rightarrow> str" where
  "trim_rev s = (case drop_any (map rev ws_chars) s of None \<Rightarrow> s | Some r \<Rightarrow> trim_rev r)"
  by pat_completeness auto
termination
  by (relation "measure length") (auto dest: drop_any_shorter [OF ws_chars_no_Nil(2)])

declare trim_start.simps [simp del] trim_rev.simps [simp del]

definition trim :: "str \<Rightarrow> str" where
  "trim s = trim_start (rev (trim_rev (rev s)))"

function split_ws_aux :: "str \<Rightarrow> str \<Rightarrow> str list" where
  "split_ws_aux acc [] = [rev acc]"
| "split_ws_aux acc (c # cs) =
     (case drop_any ws_chars (c # cs) of
        Some r \<Rightarrow> rev acc # split_ws_aux [] r
      | None \<Rightarrow> split_ws_aux (c # acc) cs)"
  by pat_completeness auto
termination
  by (relation "measure (\<lambda>(acc, s). length s)") (auto dest: drop_any_shorter [rotated])

definition split_whitespace :: "str \<Rightarrow> str list" where
  "split_whitespace s = filter (\<lambda>p. p \<noteq> []) (split_ws_aux [] s)"

text \<open>A word of characters that begin no whitespace is one item.\<close>

definition plain_char :: "char \<Rightarrow> bool" where
  "plain_char c \<longleftrightarrow> c \<notin> set (map hd ws_chars)"

lemma drop_any_plain: "plain_char c \<Longrightarrow> drop_any ws_chars (c # cs) = None"
proof -
  have "\<forall>w \<in> set ws. w \<noteq> [] \<and> hd w \<noteq> c \<Longrightarrow> drop_any ws (c # cs) = None" for ws
  proof (induction ws)
    case Nil
    then show ?case by simp
  next
    case (Cons w ws)
    then show ?case by (cases w) auto
  qed
  moreover assume "plain_char c"
  then have "\<forall>w \<in> set ws_chars. w \<noteq> [] \<and> hd w \<noteq> c"
    using ws_chars_no_Nil(1) by (auto simp: plain_char_def simp del: ws_chars_no_Nil)
  ultimately show ?thesis by blast
qed

lemma split_ws_plain:
  "\<forall>c \<in> set w. plain_char c \<Longrightarrow> split_ws_aux acc (w @ s) = split_ws_aux (rev w @ acc) s"
  by (induction w arbitrary: acc) (simp_all add: drop_any_plain)

lemma split_whitespace_word [text_simps]:
  assumes "\<forall>c \<in> set w. plain_char c" and "w \<noteq> []"
  shows "split_whitespace w = [w]"
    and "split_whitespace (w @ CHR '' '' # s) = w # split_whitespace s"
proof -
  have "drop_any ws_chars (CHR '' '' # s) = Some s" by (simp add: ws_chars_def)
  then show "split_whitespace (w @ CHR '' '' # s) = w # split_whitespace s"
    using assms by (simp add: split_whitespace_def split_ws_plain)
  show "split_whitespace w = [w]"
    using assms split_ws_plain [of w "[]" "[]"] by (simp add: split_whitespace_def)
qed

subsection \<open>Lossy UTF-8 decoding\<close>

definition safe_get :: "bytes \<Rightarrow> nat \<Rightarrow> u8" where
  "safe_get bs i = (if i < length bs then bs ! i else 0)"

definition is_cont :: "u8 \<Rightarrow> bool" where
  "is_cont b \<longleftrightarrow> 0x80 \<le> b \<and> b \<le> 0xBF"

text \<open>
  Length of the well-formed sequence at the front of a non-empty buffer (\<open>True\<close>), or of the
  maximal ill-formed piece there (\<open>False\<close>).
\<close>

definition utf8_unit :: "bytes \<Rightarrow> bool \<times> nat" where
  "utf8_unit bs =
     (let b = safe_get bs 0; c1 = safe_get bs 1; c2 = safe_get bs 2; c3 = safe_get bs 3 in
      if b < 0x80 then (True, 1)
      else if 0xC2 \<le> b \<and> b \<le> 0xDF then (if is_cont c1 then (True, 2) else (False, 1))
      else if 0xE0 \<le> b \<and> b \<le> 0xEF then
        (if \<not> (if b = 0xE0 then 0xA0 \<le> c1 \<and> c1 \<le> 0xBF
              else if b = 0xED then 0x80 \<le> c1 \<and> c1 \<le> 0x9F else is_cont c1) then (False, 1)
         else if \<not> is_cont c2 then (False, 2) else (True, 3))
      else if 0xF0 \<le> b \<and> b \<le> 0xF4 then
        (if \<not> (if b = 0xF0 then 0x90 \<le> c1 \<and> c1 \<le> 0xBF
              else if b = 0xF4 then 0x80 \<le> c1 \<and> c1 \<le> 0x8F else is_cont c1) then (False, 1)
         else if \<not> is_cont c2 then (False, 2)
         else if \<not> is_cont c3 then (False, 3) else (True, 4))
      else (False, 1))"

lemma utf8_unit_pos: "0 < snd (utf8_unit bs)"
  by (simp add: utf8_unit_def Let_def)

function utf8_lossy :: "bytes \<Rightarrow> str" where
  "utf8_lossy [] = []"
| "utf8_lossy (b # bs) =
     (if fst (utf8_unit (b # bs)) then bytes_str (take (snd (utf8_unit (b # bs))) (b # bs))
      else [CHR 0xEF, CHR 0xBF, CHR 0xBD])
     @ utf8_lossy (drop (snd (utf8_unit (b # bs))) (b # bs))"
  by pat_completeness auto
termination
  by (relation "measure length") (auto simp: utf8_unit_pos)

function valid_utf8 :: "bytes \<Rightarrow> bool" where
  "valid_utf8 [] = True"
| "valid_utf8 (b # bs) =
     (fst (utf8_unit (b # bs)) \<and> valid_utf8 (drop (snd (utf8_unit (b # bs))) (b # bs)))"
  by pat_completeness auto
termination
  by (relation "measure length") (auto simp: utf8_unit_pos)

declare utf8_lossy.simps(2) [simp del] valid_utf8.simps(2) [simp del]

lemma utf8_lossy_valid: "valid_utf8 bs \<Longrightarrow> utf8_lossy bs = bytes_str bs"
proof (induction bs rule: valid_utf8.induct)
  case 1
  then show ?case by simp
next
  case (2 b bs)
  let ?n = "snd (utf8_unit (b # bs))"
  from 2 have "utf8_lossy (drop ?n (b # bs)) = bytes_str (drop ?n (b # bs))"
    and "fst (utf8_unit (b # bs))"
    by (simp_all add: valid_utf8.simps(2))
  then have "utf8_lossy (b # bs) = bytes_str (take ?n (b # bs) @ drop ?n (b # bs))"
    by (simp only: utf8_lossy.simps(2) map_append if_True)
  then show ?case by (simp only: append_take_drop_id)
qed

lemma utf8_unit_ascii: "b < 0x80 \<Longrightarrow> utf8_unit (b # bs) = (True, 1)"
  by (simp add: utf8_unit_def safe_get_def Let_def)

lemma valid_utf8_ascii_Cons [simp]: "b < 0x80 \<Longrightarrow> valid_utf8 (b # bs) = valid_utf8 bs"
  by (simp add: valid_utf8.simps(2) utf8_unit_ascii)

lemma utf8_lossy_ascii_Cons [simp]:
  "b < 0x80 \<Longrightarrow> utf8_lossy (b # bs) = char_of_byte b # utf8_lossy bs"
  by (simp add: utf8_lossy.simps(2) utf8_unit_ascii)

text \<open>A \<open>str\<close> of the program is always well-formed UTF-8.\<close>

abbreviation wf_str :: "str \<Rightarrow> bool" where
  "wf_str s \<equiv> valid_utf8 (as_bytes s)"

lemma utf8_lossy_str [text_simps]: "wf_str s \<Longrightarrow> utf8_lossy (as_bytes s) = s"
  by (simp add: utf8_lossy_valid del: map_map)

subsection \<open>Numbers as text\<close>

fun dec_of_nat :: "nat \<Rightarrow> str" where
  "dec_of_nat n = (if n < 10 then [char_of (48 + n)]
                   else dec_of_nat (n div 10) @ [char_of (48 + n mod 10)])"

declare dec_of_nat.simps [simp del]

definition hex_digit :: "nat \<Rightarrow> char" where
  "hex_digit d = char_of (if d < 10 then 48 + d else 87 + d)"

text \<open>\<open>{:04x}\<close> of a number below 65536.\<close>

definition hex4 :: "nat \<Rightarrow> str" where
  "hex4 n = map hex_digit [n div 4096 mod 16, n div 256 mod 16, n div 16 mod 16, n mod 16]"

definition digit_val :: "nat \<Rightarrow> char \<Rightarrow> nat option" where
  "digit_val radix c =
     (let n = of_char c :: nat;
          d = (if 48 \<le> n \<and> n \<le> 57 then Some (n - 48)
               else if 97 \<le> n \<and> n \<le> 122 then Some (n - 87)
               else if 65 \<le> n \<and> n \<le> 90 then Some (n - 55) else None)
      in case d of Some v \<Rightarrow> if v < radix then Some v else None | None \<Rightarrow> None)"

fun digits_val :: "nat \<Rightarrow> nat \<Rightarrow> nat \<Rightarrow> str \<Rightarrow> nat option" where
  "digits_val radix bound acc [] = Some acc"
| "digits_val radix bound acc (c # cs) =
     (case digit_val radix c of
        None \<Rightarrow> None
      | Some d \<Rightarrow> if acc * radix + d < bound then digits_val radix bound (acc * radix + d) cs
                  else None)"

text \<open>
  \<open>from_str_radix\<close> of an unsigned type with values below \<open>bound\<close>: a single leading \<open>+\<close> is
  accepted, an empty string, a lone sign, a bad digit or an overflow is an error.
\<close>

definition from_str_radix :: "nat \<Rightarrow> nat \<Rightarrow> str \<Rightarrow> nat option" where
  "from_str_radix radix bound s =
     (case s of
        [] \<Rightarrow> None
      | c # cs \<Rightarrow> if cs = [] \<and> (c = CHR ''+'' \<or> c = CHR ''-'') then None
                  else if c = CHR ''+'' then digits_val radix bound 0 cs
                  else digits_val radix bound 0 (c # cs))"

end
