(* ===== verification/Errors.thy ===== *)
theory Errors
  imports Rust_Text
begin

section \<open>Errors and fallible computations\<close>

text \<open>
  \<open>Error\<close> of \<open>src/error.rs\<close> with the source's variants, \<open>Result\<close> as a sum, and the shape every
  \<open>async fn\<close> of the crate has: a step from a state to a result and a new state, where \<open>None\<close>
  says that the call never returns a value (it waits for something that never happens, loops, or
  panics). \<open>and_then\<close> is \<open>.await?\<close> followed by the rest of the function.

  A message built with \<open>format!\<close> is kept as its template and arguments, unrendered, so that
  two errors are equal exactly when the source would build them from the same values.
\<close>

named_theorems comp_simps \<open>evaluation of computations\<close>

subsection \<open>The error type\<close>

datatype fmt_arg = Num int | Txt str

datatype msg_text = Lit str | Fmt str "fmt_arg list"

datatype io_kind = UnexpectedEof | ConnectionReset | Other_kind nat

datatype io_error = Io_error io_kind msg_text

datatype error =
    Protocol msg_text
  | Disconnected
  | Unauthorized
  | Unsupported msg_text
  | ServiceRefused str
  | RemoteFailure msg_text
  | StreamClosed
  | ClaimFailed msg_text
  | NoDevice "msg_text option"
  | Usb msg_text
  | Io io_error
  | Key msg_text
  | Parse msg_text
  | InvalidArgument msg_text
  | Timeout msg_text

type_synonym 'a result = "error + 'a"

text \<open>\<open>impl Display for Error\<close>: the \<open>#[error(\<dots>)]\<close> templates, with \<open>fmt_hint\<close> for \<open>NoDevice\<close>.\<close>

fun text_args :: "msg_text \<Rightarrow> fmt_arg list" where
  "text_args (Lit s) = [Txt s]"
| "text_args (Fmt t args) = Txt t # args"

definition fmt_hint :: "msg_text option \<Rightarrow> fmt_arg list" where
  "fmt_hint hint = (case hint of None \<Rightarrow> [Txt ''''] | Some h \<Rightarrow> Txt '' ('' # text_args h @ [Txt '')''])"

fun display :: "error \<Rightarrow> msg_text" where
  "display (Protocol m) = Fmt ''malformed ADB message: {0}'' (text_args m)"
| "display Disconnected = Lit ''connection closed by peer''"
| "display Unauthorized =
     Lit ''device has not authorised this host key (accept the prompt on the device)''"
| "display (Unsupported m) = Fmt ''unsupported: {0}'' (text_args m)"
| "display (ServiceRefused s) = Fmt ''device refused service {service:?}'' [Txt s]"
| "display (RemoteFailure m) = Fmt ''remote failure: {0}'' (text_args m)"
| "display StreamClosed = Lit ''stream closed''"
| "display (ClaimFailed m) =
     Fmt ''could not claim the ADB USB interface: {0} (is another adb server running?)'' (text_args m)"
| "display (NoDevice h) = Fmt ''no ADB device found{}'' (fmt_hint h)"
| "display (Usb m) = Fmt ''usb: {0}'' (text_args m)"
| "display (Io e) = (case e of Io_error k m \<Rightarrow> Fmt ''io: {0}'' (text_args m))"
| "display (Key m) = Fmt ''host key: {0}'' (text_args m)"
| "display (Parse m) = Fmt ''could not parse device output: {0}'' (text_args m)"
| "display (InvalidArgument m) = Fmt ''invalid argument: {0}'' (text_args m)"
| "display (Timeout m) = Fmt ''timed out: {0}'' (text_args m)"

subsection \<open>Computations\<close>

type_synonym ('s, 'a) comp = "'s \<Rightarrow> ('a result \<times> 's) option"

definition ret :: "'a \<Rightarrow> ('s, 'a) comp" where
  "ret x s = Some (Inr x, s)"

definition throw :: "error \<Rightarrow> ('s, 'a) comp" where
  "throw e s = Some (Inl e, s)"

definition panic :: "('s, 'a) comp" where
  "panic s = None"

definition and_then :: "('s, 'a) comp \<Rightarrow> ('a \<Rightarrow> ('s, 'b) comp) \<Rightarrow> ('s, 'b) comp" where
  "and_then m k s =
     (case m s of
        None \<Rightarrow> None
      | Some (Inl e, s') \<Rightarrow> Some (Inl e, s')
      | Some (Inr x, s') \<Rightarrow> k x s')"

text \<open>\<open>match m.await { \<dots> }\<close> and \<open>map_err\<close>: both outcomes are handled.\<close>

definition handle :: "('s, 'a) comp \<Rightarrow> ('a result \<Rightarrow> ('s, 'b) comp) \<Rightarrow> ('s, 'b) comp" where
  "handle m k s = (case m s of None \<Rightarrow> None | Some (r, s') \<Rightarrow> k r s')"

definition of_result :: "'a result \<Rightarrow> ('s, 'a) comp" where
  "of_result r s = Some (r, s)"

definition map_err :: "(error \<Rightarrow> error) \<Rightarrow> ('s, 'a) comp \<Rightarrow> ('s, 'a) comp" where
  "map_err f m = handle m (\<lambda>r. case r of Inl e \<Rightarrow> throw (f e) | Inr x \<Rightarrow> ret x)"

text \<open>Run a computation on a part of the state.\<close>

definition on_part :: "('s \<Rightarrow> 'c) \<Rightarrow> ('c \<Rightarrow> 's \<Rightarrow> 's) \<Rightarrow> ('c, 'a) comp \<Rightarrow> ('s, 'a) comp" where
  "on_part get put m s =
     (case m (get s) of None \<Rightarrow> None | Some (r, c) \<Rightarrow> Some (r, put c s))"

lemma ret_run [simp, comp_simps]: "ret x s = Some (Inr x, s)"
  by (simp add: ret_def)

lemma throw_run [simp, comp_simps]: "throw e s = Some (Inl e, s)"
  by (simp add: throw_def)

lemma panic_run [simp, comp_simps]: "panic s = None"
  by (simp add: panic_def)

lemma of_result_run [simp, comp_simps]: "of_result r s = Some (r, s)"
  by (simp add: of_result_def)

lemma and_then_ok [comp_simps]: "m s = Some (Inr x, s') \<Longrightarrow> and_then m k s = k x s'"
  by (simp add: and_then_def)

lemma and_then_err [comp_simps]: "m s = Some (Inl e, s') \<Longrightarrow> and_then m k s = Some (Inl e, s')"
  by (simp add: and_then_def)

lemma and_then_ret [simp, comp_simps]: "and_then (ret x) k = k x"
  by (simp add: and_then_def fun_eq_iff)

lemma and_then_throw [simp, comp_simps]: "and_then (throw e) k = throw e"
  by (simp add: and_then_def fun_eq_iff)

lemma and_then_of_result [simp, comp_simps]:
  "and_then (of_result r) k = (case r of Inl e \<Rightarrow> throw e | Inr x \<Rightarrow> k x)"
  by (simp add: and_then_def fun_eq_iff split: sum.splits)

lemma and_then_assoc: "and_then (and_then m f) g = and_then m (\<lambda>x. and_then (f x) g)"
  by (simp add: and_then_def fun_eq_iff split: option.splits prod.splits sum.splits)

lemma handle_run [comp_simps]: "m s = Some (r, s') \<Longrightarrow> handle m k s = k r s'"
  by (simp add: handle_def)

lemma and_then_SomeE:
  assumes "and_then m k s = Some (r, t)"
  obtains (ok) x s' where "m s = Some (Inr x, s')" and "k x s' = Some (r, t)"
    | (err) e where "m s = Some (Inl e, t)" and "r = Inl e"
  using assms by (auto simp: and_then_def split: option.splits sum.splits prod.splits)

lemma and_then_mono [partial_function_mono]:
  assumes "\<And>s. mono_option (\<lambda>f. B f s)" and "\<And>x s. mono_option (\<lambda>f. C x f s)"
  shows "mono_option (\<lambda>f. and_then (B f) (\<lambda>x. C x f) s)"
proof -
  have "mono_option (\<lambda>f. Option.bind (B f s)
      (\<lambda>p. case p of (Inl e, s') \<Rightarrow> Some (Inl e, s') | (Inr x, s') \<Rightarrow> C x f s'))"
  proof (rule bind_mono)
    show "mono_option (\<lambda>f. B f s)" by (rule assms(1))
    fix p
    show "mono_option (\<lambda>f. case p of (Inl e, s') \<Rightarrow> Some (Inl e, s') | (Inr x, s') \<Rightarrow> C x f s')"
    proof (cases p)
      case (Pair r s')
      then show ?thesis
        using assms(2) by (cases r) (simp_all add: option.const_mono)
    qed
  qed
  moreover have "and_then (B f) (\<lambda>x. C x f) s = Option.bind (B f s)
      (\<lambda>p. case p of (Inl e, s') \<Rightarrow> Some (Inl e, s') | (Inr x, s') \<Rightarrow> C x f s')" for f
    by (auto simp: and_then_def Option.bind_def split: option.splits sum.splits prod.splits)
  ultimately show ?thesis by simp
qed

end
