(* ===== verification/Wire.thy ===== *)
theory Wire
  imports Errors
begin

section \<open>The wire format\<close>

text \<open>
  \<open>src/wire/\<close>: command words, headers, messages, the payload checksum and the 24-byte header
  codec. A header is written field by field into a zeroed buffer, as the code does
  (\<open>copy_into\<close> is \<open>out[a..b].copy_from_slice\<close>). The lemmas show that decoding inverts encoding,
  that an accepted header is the encoding of its value, what is rejected and in which order, and
  what the checksum detects.
\<close>

unbundle bit_operations_syntax

subsection \<open>Constants\<close>

definition VERSION :: u32 where "VERSION = 0x01000001"
definition VERSION_MIN :: u32 where "VERSION_MIN = 0x01000000"
definition VERSION_SKIP_CHECKSUM :: u32 where "VERSION_SKIP_CHECKSUM = 0x01000001"
definition MAX_PAYLOAD :: u32 where "MAX_PAYLOAD = 1024 * 1024"
definition LEGACY_MAX_PAYLOAD :: u32 where "LEGACY_MAX_PAYLOAD = 256 * 1024"
definition AUTH_TOKEN :: u32 where "AUTH_TOKEN = 1"
definition AUTH_SIGNATURE :: u32 where "AUTH_SIGNATURE = 2"
definition AUTH_RSAPUBLICKEY :: u32 where "AUTH_RSAPUBLICKEY = 3"
definition HEADER_LEN :: nat where "HEADER_LEN = 24"

subsection \<open>Command words\<close>

datatype command = Sync | Connect | Auth | Open | Okay | Close | Write | StartTls

fun code :: "command \<Rightarrow> u32" where
  "code Sync = 0x434e5953"
| "code Connect = 0x4e584e43"
| "code Auth = 0x48545541"
| "code Open = 0x4e45504f"
| "code Okay = 0x59414b4f"
| "code Close = 0x45534c43"
| "code Write = 0x45545257"
| "code StartTls = 0x534c5453"

fun mnemonic :: "command \<Rightarrow> str" where
  "mnemonic Sync = ''SYNC''"
| "mnemonic Connect = ''CNXN''"
| "mnemonic Auth = ''AUTH''"
| "mnemonic Open = ''OPEN''"
| "mnemonic Okay = ''OKAY''"
| "mnemonic Close = ''CLSE''"
| "mnemonic Write = ''WRTE''"
| "mnemonic StartTls = ''STLS''"

definition from_code :: "u32 \<Rightarrow> command option" where
  "from_code w =
     (if w = 0x434e5953 then Some Sync
      else if w = 0x4e584e43 then Some Connect
      else if w = 0x48545541 then Some Auth
      else if w = 0x4e45504f then Some Open
      else if w = 0x59414b4f then Some Okay
      else if w = 0x45534c43 then Some Close
      else if w = 0x45545257 then Some Write
      else if w = 0x534c5453 then Some StartTls
      else None)"

definition all_commands :: "command list" where
  "all_commands = [Sync, Connect, Auth, Open, Okay, Close, Write, StartTls]"

text \<open>\<open>Command::ALL\<close> enumerates the type, so statements about every command are decidable.\<close>

instantiation command :: enum
begin

definition enum_command :: "command list" where
  "enum_command = all_commands"

definition enum_all_command :: "(command \<Rightarrow> bool) \<Rightarrow> bool" where
  "enum_all_command P \<longleftrightarrow> list_all P all_commands"

definition enum_ex_command :: "(command \<Rightarrow> bool) \<Rightarrow> bool" where
  "enum_ex_command P \<longleftrightarrow> list_ex P all_commands"

instance
proof
  have all: "c \<in> set all_commands" for c :: command
    by (cases c) (simp_all add: all_commands_def)
  show "(UNIV :: command set) = set enum_class.enum"
    using all by (auto simp: enum_command_def)
  show "distinct (enum_class.enum :: command list)"
    by (simp add: enum_command_def all_commands_def)
  show "enum_class.enum_all P \<longleftrightarrow> Ball (UNIV :: command set) P" for P
    using all by (auto simp: enum_all_command_def list_all_iff)
  show "enum_class.enum_ex P \<longleftrightarrow> Bex (UNIV :: command set) P" for P
    using all by (auto simp: enum_ex_command_def list_ex_iff)
qed

end

lemma from_code_code [simp]: "from_code (code c) = Some c"
  by (cases c) (simp_all add: from_code_def)

lemma from_code_Some: "from_code w = Some c \<longleftrightarrow> w = code c"
proof
  assume "from_code w = Some c"
  then show "w = code c"
    by (auto simp: from_code_def split: if_splits)
qed simp

lemma code_inject [simp]: "code c = code d \<longleftrightarrow> c = d"
  by (metis from_code_code option.inject)

subsection \<open>Headers and messages\<close>

record header =
  command :: command
  arg0 :: u32
  arg1 :: u32
  data_length :: u32
  data_check :: u32

record message =
  m_command :: command
  m_arg0 :: u32
  m_arg1 :: u32
  payload :: bytes

definition new_message :: "command \<Rightarrow> u32 \<Rightarrow> u32 \<Rightarrow> bytes \<Rightarrow> message" where
  "new_message c a0 a1 p = \<lparr>m_command = c, m_arg0 = a0, m_arg1 = a1, payload = p\<rparr>"

definition empty_message :: "command \<Rightarrow> u32 \<Rightarrow> u32 \<Rightarrow> message" where
  "empty_message c a0 a1 = new_message c a0 a1 []"

definition checksum :: "bytes \<Rightarrow> u32" where
  "checksum p = foldl (\<lambda>acc b. acc + ucast b) 0 p"

definition message_header :: "message \<Rightarrow> bool \<Rightarrow> header option" where
  "message_header m with_checksum =
     (if length (payload m) < 2 ^ 32
      then Some \<lparr>command = m_command m, arg0 = m_arg0 m, arg1 = m_arg1 m,
                 data_length = word_of_nat (length (payload m)),
                 data_check = (if with_checksum then checksum (payload m) else 0)\<rparr>
      else None)"

definition checksum_matches :: "message \<Rightarrow> header \<Rightarrow> bool" where
  "checksum_matches m h \<longleftrightarrow> data_check h = checksum (payload m)"

definition with_payload :: "header \<Rightarrow> bytes \<Rightarrow> message" where
  "with_payload h p = new_message (command h) (arg0 h) (arg1 h) p"

lemma new_message_simps [simp]:
  "m_command (new_message c a b p) = c" "m_arg0 (new_message c a b p) = a"
  "m_arg1 (new_message c a b p) = b" "payload (new_message c a b p) = p"
  by (simp_all add: new_message_def)

lemma empty_message_simps [simp]:
  "m_command (empty_message c a b) = c" "m_arg0 (empty_message c a b) = a"
  "m_arg1 (empty_message c a b) = b" "payload (empty_message c a b) = []"
  by (simp_all add: empty_message_def)

subsection \<open>The header codec\<close>

definition copy_into :: "nat \<Rightarrow> bytes \<Rightarrow> bytes \<Rightarrow> bytes" where
  "copy_into at src out = take at out @ src @ drop (at + length src) out"

definition encode_header :: "header \<Rightarrow> bytes" where
  "encode_header h =
     (let cmd = code (command h);
          out = replicate HEADER_LEN 0;
          out = copy_into 0 (u32_to_le cmd) out;
          out = copy_into 4 (u32_to_le (arg0 h)) out;
          out = copy_into 8 (u32_to_le (arg1 h)) out;
          out = copy_into 12 (u32_to_le (data_length h)) out;
          out = copy_into 16 (u32_to_le (data_check h)) out;
          out = copy_into 20 (u32_to_le (cmd XOR 0xFFFFFFFF)) out
      in out)"

definition word_at :: "bytes \<Rightarrow> nat \<Rightarrow> u32" where
  "word_at bs at = u32_from_le (take 4 (drop at bs))"

definition decode_header :: "bytes \<Rightarrow> u32 \<Rightarrow> header result" where
  "decode_header bs max_payload =
     (let command_code = word_at bs 0; magic = word_at bs 20 in
      if magic \<noteq> command_code XOR 0xFFFFFFFF
      then Inl (Protocol (Fmt ''bad magic {magic:#010x} for command {command_code:#010x}''
                  [Num (uint magic), Num (uint command_code)]))
      else case from_code command_code of
             None \<Rightarrow> Inl (Protocol (Fmt ''unknown command {command_code:#010x}''
                              [Num (uint command_code)]))
           | Some cmd \<Rightarrow>
               (let len = word_at bs 12; bound = min max_payload MAX_PAYLOAD in
                if bound < len
                then Inl (Protocol (Fmt ''payload length {data_length} exceeds limit {bound}''
                            [Num (uint len), Num (uint bound)]))
                else Inr \<lparr>command = cmd, arg0 = word_at bs 4, arg1 = word_at bs 8,
                          data_length = len, data_check = word_at bs 16\<rparr>))"

lemma copy_into_zeros:
  "length pre = at \<Longrightarrow>
   copy_into at src (pre @ replicate n 0) = (pre @ src) @ replicate (n - length src) 0"
  by (simp add: copy_into_def)

lemma encode_header_bytes:
  "encode_header h =
     u32_to_le (code (command h)) @ u32_to_le (arg0 h) @ u32_to_le (arg1 h)
     @ u32_to_le (data_length h) @ u32_to_le (data_check h)
     @ u32_to_le (code (command h) XOR 0xFFFFFFFF)"
  unfolding encode_header_def Let_def HEADER_LEN_def
  using copy_into_zeros [of "[]" 0 _ 24]
  by (simp add: copy_into_zeros flip: append_assoc)

lemma length_encode_header [simp]: "length (encode_header h) = HEADER_LEN"
  by (simp add: encode_header_bytes HEADER_LEN_def)

lemma encode_header_not_Nil [simp]: "encode_header h \<noteq> []"
  by (simp add: encode_header_bytes)

lemma word_at_append [simp]:
  "word_at (u32_to_le w @ bs) 0 = w"
  "4 \<le> n \<Longrightarrow> word_at (u32_to_le w @ bs) n = word_at bs (n - 4)"
  "word_at (u32_to_le w) 0 = w"
  by (simp_all add: word_at_def)

lemma decode_encode_header:
  assumes "data_length h \<le> min m MAX_PAYLOAD"
  shows "decode_header (encode_header h) m = Inr h"
  using assms by (simp add: decode_header_def encode_header_bytes Let_def not_less)

lemma take_drop_word: "length bs = 24 \<Longrightarrow> at + 4 \<le> 24 \<Longrightarrow> u32_to_le (word_at bs at) = take 4 (drop at bs)"
  by (simp add: word_at_def u32_to_le_from_le)

lemma split_header:
  assumes "length bs = 24"
  shows "bs = take 4 bs @ take 4 (drop 4 bs) @ take 4 (drop 8 bs) @ take 4 (drop 12 bs)
       @ take 4 (drop 16 bs) @ take 4 (drop 20 bs)"
proof -
  have chop: "drop n bs = take 4 (drop n bs) @ drop (n + 4) bs" for n
    by (metis add.commute append_take_drop_id drop_drop)
  have "take 4 (drop 20 bs) = drop 20 bs" using assms by simp
  then show ?thesis
    using chop [of 0] chop [of 4] chop [of 8] chop [of 12] chop [of 16] by simp
qed

lemma encode_decode_header:
  assumes "length bs = HEADER_LEN" and "decode_header bs m = Inr h"
  shows "encode_header h = bs" and "data_length h \<le> min m MAX_PAYLOAD"
proof -
  from assms(1) have len: "length bs = 24" by (simp add: HEADER_LEN_def)
  from assms(2) have magic: "word_at bs 20 = word_at bs 0 XOR 0xFFFFFFFF"
    by (auto simp: decode_header_def Let_def split: if_splits)
  with assms(2) have cmd: "word_at bs 0 = code (command h)"
    and rest: "arg0 h = word_at bs 4" "arg1 h = word_at bs 8" "data_length h = word_at bs 12"
      "data_check h = word_at bs 16"
    and bound: "data_length h \<le> min m MAX_PAYLOAD"
    by (auto simp: decode_header_def Let_def from_code_Some not_less split: option.splits if_splits)
  show "data_length h \<le> min m MAX_PAYLOAD" by (rule bound)
  note words = take_drop_word [OF len]
  have "encode_header h = take 4 (drop 0 bs) @ take 4 (drop 4 bs) @ take 4 (drop 8 bs)
      @ take 4 (drop 12 bs) @ take 4 (drop 16 bs) @ take 4 (drop 20 bs)"
    unfolding encode_header_bytes rest cmd [symmetric] magic [symmetric]
    using words [of 0] words [of 4] words [of 8] words [of 12] words [of 16] words [of 20]
    by (simp only: arith_simps semiring_norm rel_simps simp_thms le_numeral_extra)
  also have "\<dots> = bs" using split_header [OF len] by simp
  finally show "encode_header h = bs" .
qed

subsection \<open>The checksum\<close>

lemma checksum_foldl:
  "foldl (\<lambda>acc b. acc + ucast b) (a + c :: u32) (p :: bytes)
   = a + foldl (\<lambda>acc b. acc + ucast b) c p"
  by (induction p arbitrary: c) (simp_all add: add.assoc)

lemma checksum_Nil [simp]: "checksum [] = 0"
  by (simp add: checksum_def)

lemma checksum_Cons [simp]: "checksum (b # p) = ucast b + checksum p"
  using checksum_foldl [of "ucast b" 0 p] by (simp add: checksum_def)

lemma checksum_append: "checksum (p @ q) = checksum p + checksum q"
  by (induction p) simp_all

lemma checksum_sum: "checksum p = word_of_nat (\<Sum>b\<leftarrow>p. unat b)"
  by (induction p) (simp_all add: of_nat_unat)

lemma ucast_u8_inject: "(ucast (a :: u8) :: u32) = ucast b \<longleftrightarrow> a = b"
proof
  assume "(ucast a :: u32) = ucast b"
  then have "unat (ucast a :: u32) = unat (ucast b :: u32)" by simp
  moreover have "take_bit 32 (unat x) = unat x" for x :: u8
    using unsigned_less [of x, where ?'a = nat] by (simp add: take_bit_nat_eq_self)
  ultimately show "a = b" by (simp add: word_unat_eq_iff unsigned_ucast_eq)
qed simp

subsection \<open>Properties\<close>

text \<open>
  A command word is the little-endian reading of its four-character mnemonic, and
  \<open>from_code\<close> accepts exactly the words of the eight commands.
\<close>

lemma command_words:
  "u32_from_le (as_bytes (mnemonic c)) = code c \<and> length (mnemonic c) = 4
   \<and> (from_code w = Some c \<longleftrightarrow> w = code c)"
  by (cases c) (simp_all add: from_code_Some byte_of_def u32_from_le_def)

text \<open>
  C36: decoding an encoded header gives the header back exactly when its payload length is
  within the negotiated limit and the crate's own \<open>MAX_PAYLOAD\<close>; otherwise it is refused,
  with the length and the bound that was exceeded in the message.
\<close>

theorem header_codec:
  "decode_header (encode_header h) m =
     (if data_length h \<le> min m MAX_PAYLOAD then Inr h
      else Inl (Protocol (Fmt ''payload length {data_length} exceeds limit {bound}''
             [Num (uint (data_length h)), Num (uint (min m MAX_PAYLOAD))])))"
  by (auto simp: decode_header_def encode_header_bytes Let_def not_less min_def split: if_splits)

text \<open>
  A header that is accepted is the encoding of its decoded value, byte for byte (so no two
  byte strings decode to the same header), and announces at most 1 MiB of payload.
\<close>

lemma decode_header_canonical:
  assumes "length bs = HEADER_LEN" and "decode_header bs m = Inr h"
  shows "encode_header h = bs \<and> unat (data_length h) \<le> 1048576 \<and> data_length h \<le> m"
proof -
  note facts = encode_decode_header [OF assms]
  then have "data_length h \<le> MAX_PAYLOAD" by (simp add: min_def split: if_splits)
  then have "unat (data_length h) \<le> unat MAX_PAYLOAD"
    by (simp only: word_le_nat_alt)
  with facts show ?thesis by (simp add: MAX_PAYLOAD_def min_def split: if_splits)
qed

text \<open>
  Changing one byte of a payload always changes its checksum, whatever the payload's
  length, and the checksum is the sum of the bytes modulo \<open>2 ^ 32\<close>.
\<close>

lemma checksum_detects_byte_change:
  assumes "i < length p"
  shows "(checksum (p[i := b]) = checksum p \<longleftrightarrow> b = p ! i)
         \<and> unat (checksum p) = (\<Sum>b\<leftarrow>p. unat b) mod 2 ^ 32"
proof
  have p: "p = take i p @ p ! i # drop (Suc i) p" using assms by (rule id_take_nth_drop)
  have "p[i := b] = take i p @ b # drop (Suc i) p" using assms by (rule upd_conv_take_nth_drop)
  then have "checksum (p[i := b]) = checksum (take i p) + (ucast b + checksum (drop (Suc i) p))"
    by (simp only: checksum_append checksum_Cons)
  moreover have "checksum p = checksum (take i p) + (ucast (p ! i) + checksum (drop (Suc i) p))"
    by (subst p) (simp only: checksum_append checksum_Cons)
  ultimately show "checksum (p[i := b]) = checksum p \<longleftrightarrow> b = p ! i"
    by (simp add: ucast_u8_inject)
  show "unat (checksum p) = (\<Sum>b\<leftarrow>p. unat b) mod 2 ^ 32"
    by (simp add: checksum_sum unat_of_nat)
qed

end
