(* ===== verification/Transport.thy ===== *)
theory Transport
  imports Wire
begin

section \<open>Transports: framing messages over a byte stream\<close>

text \<open>
  \<open>src/transport/mod.rs\<close> and \<open>src/transport/framed.rs\<close>: the framing policy \<open>wire_config\<close>, the
  reader and writer that frame messages over any byte stream, and \<open>StreamTransport\<close> made of both.

  The byte stream itself is tokio's (\<open>AsyncRead\<close>, \<open>AsyncWrite\<close>) and a parameter: the records
  \<open>async_read\<close> and \<open>async_write\<close> hold the calls the code makes, and \<open>reads_bytes\<close>,
  \<open>writes_bytes\<close> state their documented behaviour. \<open>chunk_reader\<close> and \<open>byte_sink\<close> are concrete
  streams with that behaviour: input that arrives in arbitrary pieces, and a growing buffer.

  \<open>transport_ops\<close> is the \<open>Transport\<close> trait as a record of operations, and the locale
  \<open>message_transport\<close> its contract towards the session layer.
\<close>

subsection \<open>The framing policy\<close>

record wire_config =
  compute_checksum :: bool
  verify_checksum :: bool
  max_payload :: u32

definition INITIAL :: wire_config where
  "INITIAL = \<lparr>compute_checksum = True, verify_checksum = False, max_payload = MAX_PAYLOAD\<rparr>"

definition negotiated_config :: "u32 \<Rightarrow> u32 \<Rightarrow> wire_config" where
  "negotiated_config version limit =
     (let checksum = version < VERSION_SKIP_CHECKSUM in
      \<lparr>compute_checksum = checksum, verify_checksum = checksum, max_payload = limit\<rparr>)"

subsection \<open>Byte streams\<close>

type_synonym ('s, 'a) io = "'s \<Rightarrow> ((io_error + 'a) \<times> 's) option"

record 'r async_read =
  ar_read :: "nat \<Rightarrow> ('r, bytes) io" \<comment> \<open>\<open>read(&mut buf)\<close>: the bytes put in a buffer of that size\<close>
  ar_read_exact :: "nat \<Rightarrow> ('r, bytes) io"

record 'w async_write =
  aw_write_all :: "bytes \<Rightarrow> ('w, unit) io"
  aw_flush :: "('w, unit) io"

text \<open>\<open>From<std::io::Error>\<close>, and \<open>map_err\<close> on an I/O call.\<close>

definition io_err :: "(io_error \<Rightarrow> error) \<Rightarrow> ('s, 'a) io \<Rightarrow> ('s, 'a) comp" where
  "io_err f m s =
     (case m s of
        None \<Rightarrow> None
      | Some (Inl e, s') \<Rightarrow> Some (Inl (f e), s')
      | Some (Inr x, s') \<Rightarrow> Some (Inr x, s'))"

definition reads_bytes :: "'r async_read \<Rightarrow> ('r \<Rightarrow> bytes) \<Rightarrow> bool" where
  "reads_bytes R avail \<longleftrightarrow>
     (\<forall>n r. 0 < n \<longrightarrow> (\<exists>k r'. ar_read R n r = Some (Inr (take k (avail r)), r') \<and> k \<le> n
          \<and> avail r' = drop k (avail r) \<and> (0 < k \<longleftrightarrow> avail r \<noteq> [])))
   \<and> (\<forall>n r. n \<le> length (avail r) \<longrightarrow>
          (\<exists>r'. ar_read_exact R n r = Some (Inr (take n (avail r)), r')
             \<and> avail r' = drop n (avail r)))
   \<and> (\<forall>n r. length (avail r) < n \<longrightarrow>
          (\<exists>m r'. ar_read_exact R n r = Some (Inl (Io_error UnexpectedEof m), r')))"

definition writes_bytes :: "'w async_write \<Rightarrow> ('w \<Rightarrow> bytes) \<Rightarrow> bool" where
  "writes_bytes W out \<longleftrightarrow>
     (\<forall>bs w. \<exists>w'. aw_write_all W bs w = Some (Inr (), w') \<and> out w' = out w @ bs)
   \<and> (\<forall>w. \<exists>w'. aw_flush W w = Some (Inr (), w') \<and> out w' = out w)"

lemma io_err_run [comp_simps]:
  "m s = Some (Inr x, s') \<Longrightarrow> io_err f m s = Some (Inr x, s')"
  "m s = Some (Inl e, s') \<Longrightarrow> io_err f m s = Some (Inl (f e), s')"
  by (simp_all add: io_err_def)

subsection \<open>The writer\<close>

record 'w framed_writer =
  w_inner :: 'w
  w_config :: wire_config

definition payload_too_long :: error where
  "payload_too_long = InvalidArgument (Lit ''payload longer than u32::MAX'')"

definition on_writer :: "('w, 'a) comp \<Rightarrow> ('w framed_writer, 'a) comp" where
  "on_writer = on_part w_inner (\<lambda>i s. s\<lparr>w_inner := i\<rparr>)"

definition framed_send :: "'w async_write \<Rightarrow> message \<Rightarrow> ('w framed_writer, unit) comp" where
  "framed_send W msg s =
     (case message_header msg (compute_checksum (w_config s)) of
        None \<Rightarrow> throw payload_too_long s
      | Some header \<Rightarrow>
          and_then (on_writer (io_err Io (aw_write_all W (encode_header header)))) (\<lambda>_.
          and_then (if payload msg \<noteq> [] then on_writer (io_err Io (aw_write_all W (payload msg)))
                    else ret ()) (\<lambda>_.
          on_writer (io_err Io (aw_flush W)))) s)"

subsection \<open>The reader\<close>

record 'r framed_reader =
  r_inner :: 'r
  r_config :: wire_config

definition truncated :: "str \<Rightarrow> io_error \<Rightarrow> error" where
  "truncated what e =
     (case e of Io_error kind m \<Rightarrow>
        if kind = UnexpectedEof then Protocol (Fmt ''truncated {what}'' [Txt what]) else Io e)"

definition on_reader :: "('r, 'a) comp \<Rightarrow> ('r framed_reader, 'a) comp" where
  "on_reader = on_part r_inner (\<lambda>i s. s\<lparr>r_inner := i\<rparr>)"

definition checksum_mismatch :: "header \<Rightarrow> error" where
  "checksum_mismatch h = Protocol (Fmt ''checksum mismatch on {}'' [Txt (mnemonic (command h))])"

definition read_header :: "'r async_read \<Rightarrow> ('r framed_reader, bytes) comp" where
  "read_header R =
     and_then (on_reader (io_err Io (ar_read R HEADER_LEN))) (\<lambda>got.
       if got = [] then throw Disconnected
       else if length got < HEADER_LEN then
         and_then (on_reader (io_err (truncated ''header'')
                     (ar_read_exact R (HEADER_LEN - length got)))) (\<lambda>rest.
         ret (got @ rest))
       else ret got)"

definition framed_recv :: "'r async_read \<Rightarrow> ('r framed_reader, message) comp" where
  "framed_recv R s =
     and_then (read_header R) (\<lambda>head.
     and_then (of_result (decode_header head (max_payload (r_config s)))) (\<lambda>header.
     and_then (if 0 < data_length header
               then on_reader (io_err (truncated ''payload'')
                      (ar_read_exact R (unat (data_length header))))
               else ret []) (\<lambda>body.
       let msg = with_payload header body in
       if verify_checksum (r_config s) \<and> \<not> checksum_matches msg header
       then throw (checksum_mismatch header) else ret msg))) s"

subsection \<open>The \<open>Transport\<close> trait and \<open>StreamTransport\<close>\<close>

record 't transport_ops =
  t_send :: "message \<Rightarrow> ('t, unit) comp"
  t_recv :: "('t, message) comp"
  t_configure :: "wire_config \<Rightarrow> 't \<Rightarrow> 't"

record ('r, 'w) stream_transport =
  st_writer :: "'w framed_writer"
  st_reader :: "'r framed_reader"

definition new_stream_transport :: "'r \<Rightarrow> 'w \<Rightarrow> ('r, 'w) stream_transport" where
  "new_stream_transport r w =
     \<lparr>st_writer = \<lparr>w_inner = w, w_config = INITIAL\<rparr>,
      st_reader = \<lparr>r_inner = r, r_config = INITIAL\<rparr>\<rparr>"

definition stream_configure ::
  "wire_config \<Rightarrow> ('r, 'w) stream_transport \<Rightarrow> ('r, 'w) stream_transport" where
  "stream_configure c t =
     t\<lparr>st_writer := (st_writer t)\<lparr>w_config := c\<rparr>, st_reader := (st_reader t)\<lparr>r_config := c\<rparr>\<rparr>"

definition stream_transport_ops ::
  "'r async_read \<Rightarrow> 'w async_write \<Rightarrow> ('r, 'w) stream_transport transport_ops" where
  "stream_transport_ops R W =
     \<lparr>t_send = (\<lambda>m. on_part st_writer (\<lambda>w t. t\<lparr>st_writer := w\<rparr>) (framed_send W m)),
      t_recv = on_part st_reader (\<lambda>r t. t\<lparr>st_reader := r\<rparr>) (framed_recv R),
      t_configure = stream_configure\<rparr>"

definition stream_split ::
  "('r, 'w) stream_transport \<Rightarrow> 'w framed_writer \<times> 'r framed_reader" where
  "stream_split t = (st_writer t, st_reader t)"

subsection \<open>The abstract framing of a byte string\<close>

text \<open>
  \<open>frame\<close> is a message as bytes, \<open>deframe\<close> the first message of a byte string with the bytes
  after it. \<open>framed_recv_deframe\<close> says that the reader computes \<open>deframe\<close> of the bytes that
  remain, however the stream cuts them into reads.
\<close>

definition frame :: "wire_config \<Rightarrow> message \<Rightarrow> bytes" where
  "frame c m = (case message_header m (compute_checksum c) of
     None \<Rightarrow> [] | Some h \<Rightarrow> encode_header h @ payload m)"

definition fits :: "wire_config \<Rightarrow> message \<Rightarrow> bool" where
  "fits c m \<longleftrightarrow> length (payload m) \<le> unat (min (max_payload c) MAX_PAYLOAD)"

definition deframe :: "wire_config \<Rightarrow> bytes \<Rightarrow> (message \<times> bytes) result" where
  "deframe c bs =
     (if bs = [] then Inl Disconnected
      else if length bs < HEADER_LEN then Inl (Protocol (Fmt ''truncated {what}'' [Txt ''header'']))
      else case decode_header (take HEADER_LEN bs) (max_payload c) of
        Inl e \<Rightarrow> Inl e
      | Inr h \<Rightarrow>
          (let rest = drop HEADER_LEN bs; len = unat (data_length h) in
           if length rest < len then Inl (Protocol (Fmt ''truncated {what}'' [Txt ''payload'']))
           else let msg = with_payload h (take len rest) in
             if verify_checksum c \<and> \<not> checksum_matches msg h then Inl (checksum_mismatch h)
             else Inr (msg, drop len rest)))"

lemma header_len_pos [simp]: "0 < HEADER_LEN"
  by (simp add: HEADER_LEN_def)

lemma on_reader_run [comp_simps]:
  "m (r_inner s) = Some (r, i) \<Longrightarrow> on_reader m s = Some (r, s\<lparr>r_inner := i\<rparr>)"
  by (simp add: on_reader_def on_part_def)

lemma on_writer_run [comp_simps]:
  "m (w_inner s) = Some (r, i) \<Longrightarrow> on_writer m s = Some (r, s\<lparr>w_inner := i\<rparr>)"
  by (simp add: on_writer_def on_part_def)

lemma reads_bytesD:
  assumes "reads_bytes R avail"
  shows "0 < n \<Longrightarrow> \<exists>k r'. ar_read R n r = Some (Inr (take k (avail r)), r') \<and> k \<le> n
          \<and> avail r' = drop k (avail r) \<and> (0 < k \<longleftrightarrow> avail r \<noteq> [])"
    and "n \<le> length (avail r) \<Longrightarrow> \<exists>r'. ar_read_exact R n r = Some (Inr (take n (avail r)), r')
          \<and> avail r' = drop n (avail r)"
    and "length (avail r) < n \<Longrightarrow>
          \<exists>m r'. ar_read_exact R n r = Some (Inl (Io_error UnexpectedEof m), r')"
  using assms unfolding reads_bytes_def by blast+

text \<open>The header is read completely by one or two calls, or its truncation is reported.\<close>

lemma read_header_short:
  assumes "reads_bytes R avail" and "length (avail (r_inner s)) < HEADER_LEN"
  shows "\<exists>s'. read_header R s = Some (Inl (if avail (r_inner s) = [] then Disconnected
           else Protocol (Fmt ''truncated {what}'' [Txt ''header''])), s')"
proof -
  obtain k r' where rd: "ar_read R HEADER_LEN (r_inner s) = Some (Inr (take k (avail (r_inner s))), r')"
    and k: "avail r' = drop k (avail (r_inner s))" "0 < k \<longleftrightarrow> avail (r_inner s) \<noteq> []"
    using reads_bytesD(1) [OF assms(1), of HEADER_LEN "r_inner s"] by auto
  let ?got = "take k (avail (r_inner s))"
  have run: "on_reader (io_err Io (ar_read R HEADER_LEN)) s = Some (Inr ?got, s\<lparr>r_inner := r'\<rparr>)"
    by (simp add: comp_simps rd)
  show ?thesis
  proof (cases "avail (r_inner s) = []")
    case True
    with run show ?thesis by (simp add: read_header_def and_then_ok run)
  next
    case False
    with k have got: "?got \<noteq> []" "length ?got < HEADER_LEN" using assms(2) by auto
    have "length (avail r') < HEADER_LEN - length ?got"
      using k assms(2) by auto
    from reads_bytesD(3) [OF assms(1) this] obtain m r'' where
      "ar_read_exact R (HEADER_LEN - length ?got) r' = Some (Inl (Io_error UnexpectedEof m), r'')"
      by blast
    then have "on_reader (io_err (truncated ''header'') (ar_read_exact R (HEADER_LEN - length ?got)))
        (s\<lparr>r_inner := r'\<rparr>)
      = Some (Inl (Protocol (Fmt ''truncated {what}'' [Txt ''header''])), s\<lparr>r_inner := r''\<rparr>)"
      by (simp add: on_reader_def on_part_def io_err_def truncated_def)
    with got False show ?thesis
      by (simp add: read_header_def and_then_ok and_then_err run)
  qed
qed

lemma read_header_full:
  assumes "reads_bytes R avail" and "HEADER_LEN \<le> length (avail (r_inner s))"
  shows "\<exists>r'. read_header R s = Some (Inr (take HEADER_LEN (avail (r_inner s))), s\<lparr>r_inner := r'\<rparr>)
          \<and> avail r' = drop HEADER_LEN (avail (r_inner s))"
proof -
  let ?av = "avail (r_inner s)"
  obtain k r' where rd: "ar_read R HEADER_LEN (r_inner s) = Some (Inr (take k ?av), r')"
    and k: "avail r' = drop k ?av" "0 < k \<longleftrightarrow> ?av \<noteq> []" "k \<le> HEADER_LEN"
    using reads_bytesD(1) [OF assms(1), of HEADER_LEN "r_inner s"] by auto
  have run: "on_reader (io_err Io (ar_read R HEADER_LEN)) s = Some (Inr (take k ?av), s\<lparr>r_inner := r'\<rparr>)"
    by (simp add: comp_simps rd)
  have ne: "?av \<noteq> []" using assms(2) header_len_pos by (metis le_zero_eq less_irrefl list.size(3))
  have len: "length (take k ?av) = k" using k assms(2) by simp
  show ?thesis
  proof (cases "k = HEADER_LEN")
    case True
    with ne k len show ?thesis
      by (intro exI [of _ r']) (simp add: read_header_def and_then_ok run)
  next
    case False
    with k have lt: "k < HEADER_LEN" by simp
    with k assms(2) have "HEADER_LEN - k \<le> length (avail r')" by simp
    from reads_bytesD(2) [OF assms(1) this] obtain r'' where
      ex: "ar_read_exact R (HEADER_LEN - k) r' = Some (Inr (take (HEADER_LEN - k) (avail r')), r'')"
      and r'': "avail r'' = drop (HEADER_LEN - k) (avail r')"
      by blast
    have "take k ?av @ take (HEADER_LEN - k) (drop k ?av) = take HEADER_LEN ?av"
      using lt by (metis le_add_diff_inverse less_imp_le take_add)
    moreover have "drop (HEADER_LEN - k) (drop k ?av) = drop HEADER_LEN ?av"
      using lt by simp
    moreover have "on_reader (io_err (truncated ''header'') (ar_read_exact R (HEADER_LEN - k)))
        (s\<lparr>r_inner := r'\<rparr>) = Some (Inr (take (HEADER_LEN - k) (drop k ?av)), s\<lparr>r_inner := r''\<rparr>)"
      by (simp add: on_reader_def on_part_def io_err_def ex k)
    ultimately show ?thesis
      using ne lt len k r'' by (intro exI [of _ r'']) (simp add: read_header_def and_then_ok run)
  qed
qed

lemma read_header_config: "read_header R s = Some (r, s') \<Longrightarrow> r_config s' = r_config s"
  by (auto simp: read_header_def and_then_def on_reader_def on_part_def io_err_def
      split: option.splits sum.splits if_splits prod.splits)

lemma framed_recv_deframe:
  assumes R: "reads_bytes R avail"
  shows "\<exists>s'. framed_recv R s =
             Some (map_sum id fst (deframe (r_config s) (avail (r_inner s))), s')
           \<and> r_config s' = r_config s
           \<and> (\<forall>m rest. deframe (r_config s) (avail (r_inner s)) = Inr (m, rest)
                \<longrightarrow> avail (r_inner s') = rest)"
proof (cases "length (avail (r_inner s)) < HEADER_LEN")
  case True
  obtain s' where "read_header R s = Some (Inl (if avail (r_inner s) = [] then Disconnected
           else Protocol (Fmt ''truncated {what}'' [Txt ''header''])), s')"
    and "r_config s' = r_config s"
    using read_header_short [OF R True] by (metis read_header_config)
  with True show ?thesis by (simp add: framed_recv_def and_then_err deframe_def)
next
  case False
  let ?av = "avail (r_inner s)"
  obtain r' where hd: "read_header R s = Some (Inr (take HEADER_LEN ?av), s\<lparr>r_inner := r'\<rparr>)"
    and r': "avail r' = drop HEADER_LEN ?av"
    using read_header_full [OF R, of s] False by auto
  have ne: "?av \<noteq> []" using False header_len_pos by auto
  show ?thesis
  proof (cases "decode_header (take HEADER_LEN ?av) (max_payload (r_config s))")
    case (Inl e)
    with False ne hd show ?thesis by (simp add: framed_recv_def and_then_ok deframe_def)
  next
    case (Inr h)
    define len where "len = unat (data_length h)"
    note defs = framed_recv_def deframe_def Let_def len_def [symmetric]
    consider (none) "len = 0" | (short) "0 < len" "length (avail r') < len"
      | (full) "0 < len" "len \<le> length (avail r')" by linarith
    then show ?thesis
    proof cases
      case none
      then have "data_length h = 0" by (simp add: len_def unat_eq_0)
      with Inr False ne hd r' none show ?thesis by (simp add: defs and_then_ok)
    next
      case short
      then have pos: "0 < data_length h" by (simp add: len_def unat_gt_0 word_neq_0_conv)
      from reads_bytesD(3) [OF R short(2)] obtain m r'' where
        "ar_read_exact R len r' = Some (Inl (Io_error UnexpectedEof m), r'')" by blast
      with Inr False ne hd r' short pos show ?thesis
        by (simp add: defs and_then_ok and_then_err on_reader_def on_part_def io_err_def truncated_def)
    next
      case full
      then have pos: "0 < data_length h" by (simp add: len_def unat_gt_0 word_neq_0_conv)
      from reads_bytesD(2) [OF R full(2)] obtain r'' where
        "ar_read_exact R len r' = Some (Inr (take len (avail r')), r'')"
        and "avail r'' = drop len (avail r')" by blast
      with Inr False ne hd r' full pos show ?thesis
        by (simp add: defs and_then_ok on_reader_def on_part_def io_err_def)
    qed
  qed
qed

lemma frame_ok:
  assumes "fits c m"
  shows "\<exists>h. message_header m b = Some h \<and> command h = m_command m \<and> arg0 h = m_arg0 m
           \<and> arg1 h = m_arg1 m \<and> unat (data_length h) = length (payload m)
           \<and> data_check h = (if b then checksum (payload m) else 0)
           \<and> data_length h \<le> min (max_payload c) MAX_PAYLOAD"
proof -
  have "length (payload m) \<le> unat MAX_PAYLOAD"
    using assms unat_mono [of MAX_PAYLOAD "max_payload c"]
    by (auto simp: fits_def min_def word_le_nat_alt split: if_splits)
  then have small: "length (payload m) < 2 ^ 32" by (simp add: MAX_PAYLOAD_def)
  then have un: "unat (word_of_nat (length (payload m)) :: u32) = length (payload m)"
    by (simp add: unat_u32_of_nat)
  with assms have "(word_of_nat (length (payload m)) :: u32) \<le> min (max_payload c) MAX_PAYLOAD"
    by (simp add: fits_def word_le_nat_alt)
  with small un show ?thesis by (simp add: message_header_def)
qed

text \<open>The round trip: a framed message in front of any bytes is read back, and they remain.\<close>

lemma deframe_frame:
  assumes "fits c m" and "fits w m" and "verify_checksum c \<Longrightarrow> compute_checksum w"
  shows "deframe c (frame w m @ rest) = Inr (m, rest)"
proof -
  obtain h where h: "message_header m (compute_checksum w) = Some h"
    and fields: "command h = m_command m" "arg0 h = m_arg0 m" "arg1 h = m_arg1 m"
      "unat (data_length h) = length (payload m)"
      "data_check h = (if compute_checksum w then checksum (payload m) else 0)"
    and bound: "data_length h \<le> min (max_payload c) MAX_PAYLOAD"
    using frame_ok [OF assms(1), of "compute_checksum w"] by blast
  have dec: "decode_header (encode_header h) (max_payload c) = Inr h"
    by (rule decode_encode_header [OF bound])
  have msg: "with_payload h (payload m) = m"
    by (simp add: with_payload_def new_message_def fields)
  with dec fields msg assms(3) show ?thesis
    by (auto simp: deframe_def frame_def h Let_def checksum_matches_def)
qed

lemma frame_not_Nil: "fits c m \<Longrightarrow> frame w m \<noteq> []"
  using frame_ok [of c m "compute_checksum w"] by (auto simp: frame_def)

lemma writes_bytesD:
  assumes "writes_bytes W out"
  shows "\<exists>w'. aw_write_all W bs w = Some (Inr (), w') \<and> out w' = out w @ bs"
    and "\<exists>w'. aw_flush W w = Some (Inr (), w') \<and> out w' = out w"
  using assms unfolding writes_bytes_def by blast+

lemma framed_send_frame:
  assumes W: "writes_bytes W out" and "fits c m"
  shows "\<exists>s'. framed_send W m s = Some (Inr (), s') \<and> w_config s' = w_config s
           \<and> out (w_inner s') = out (w_inner s) @ frame (w_config s) m"
proof -
  obtain h where h: "message_header m (compute_checksum (w_config s)) = Some h"
    using frame_ok [OF assms(2)] by blast
  obtain w1 where w1: "aw_write_all W (encode_header h) (w_inner s) = Some (Inr (), w1)"
    "out w1 = out (w_inner s) @ encode_header h" using writes_bytesD(1) [OF W] by blast
  obtain w2 where w2: "aw_write_all W (payload m) w1 = Some (Inr (), w2)"
    "out w2 = out w1 @ payload m" using writes_bytesD(1) [OF W] by blast
  obtain w3 w3' where w3: "aw_flush W w2 = Some (Inr (), w3)" "out w3 = out w2"
    "aw_flush W w1 = Some (Inr (), w3')" "out w3' = out w1"
    using writes_bytesD(2) [OF W] by blast
  show ?thesis
    by (cases "payload m = []")
      (simp_all add: framed_send_def frame_def h and_then_ok on_writer_def on_part_def io_err_def
        w1 w2 w3)
qed

subsection \<open>Concrete streams\<close>

text \<open>Input that arrives in pieces of any size, and a buffer that grows.\<close>

fun chunk_read :: "nat \<Rightarrow> (bytes list, bytes) io" where
  "chunk_read n [] = Some (Inr [], [])"
| "chunk_read n (c # cs) =
     (if c = [] then chunk_read n cs else Some (Inr (take n c), drop n c # cs))"

definition chunk_read_exact :: "nat \<Rightarrow> (bytes list, bytes) io" where
  "chunk_read_exact n cs =
     (if length (concat cs) < n then Some (Inl (Io_error UnexpectedEof (Lit ''early eof'')), [])
      else Some (Inr (take n (concat cs)), [drop n (concat cs)]))"

definition chunk_reader :: "bytes list async_read" where
  "chunk_reader = \<lparr>ar_read = chunk_read, ar_read_exact = chunk_read_exact\<rparr>"

definition byte_sink :: "bytes async_write" where
  "byte_sink = \<lparr>aw_write_all = (\<lambda>bs w. Some (Inr (), w @ bs)), aw_flush = (\<lambda>w. Some (Inr (), w))\<rparr>"

lemma chunk_read_contract:
  "0 < n \<Longrightarrow> \<exists>k cs'. chunk_read n cs = Some (Inr (take k (concat cs)), cs') \<and> k \<le> n
     \<and> concat cs' = drop k (concat cs) \<and> (0 < k \<longleftrightarrow> concat cs \<noteq> [])"
proof (induction cs)
  case Nil
  then show ?case by auto
next
  case (Cons c cs)
  show ?case
  proof (cases "c = []")
    case True
    with Cons show ?thesis by simp
  next
    case False
    let ?k = "min n (length c)"
    have "take n c = take ?k (concat (c # cs))" by (simp add: min_def)
    moreover have "concat (drop n c # cs) = drop ?k (concat (c # cs))" by (simp add: min_def)
    ultimately show ?thesis using False Cons.prems
      by (intro exI [of _ ?k] exI [of _ "drop n c # cs"]) simp
  qed
qed

lemma reads_bytes_chunks [simp]: "reads_bytes chunk_reader concat"
  unfolding reads_bytes_def chunk_reader_def async_read.simps
proof (intro conjI)
  show "\<forall>n r. 0 < n \<longrightarrow> (\<exists>k r'. chunk_read n r = Some (Inr (take k (concat r)), r') \<and> k \<le> n
      \<and> concat r' = drop k (concat r) \<and> (0 < k \<longleftrightarrow> concat r \<noteq> []))"
    using chunk_read_contract by blast
qed (simp_all add: chunk_read_exact_def)

lemma writes_bytes_sink [simp]: "writes_bytes byte_sink id"
  by (simp add: writes_bytes_def byte_sink_def)

subsection \<open>The contract of a transport\<close>

text \<open>All the messages at the front of a byte string.\<close>

lemma deframe_shorter: "deframe c bs = Inr (m, rest) \<Longrightarrow> length rest < length bs"
  using header_len_pos
  by (auto simp: deframe_def Let_def split: if_splits sum.splits)

function deframe_all :: "wire_config \<Rightarrow> bytes \<Rightarrow> message list" where
  "deframe_all c bs =
     (case deframe c bs of Inl e \<Rightarrow> [] | Inr (m, rest) \<Rightarrow> m # deframe_all c rest)"
  by pat_completeness auto
termination
  by (relation "measure (\<lambda>(c, bs). length bs)") (auto dest: deframe_shorter)

declare deframe_all.simps [simp del]

lemma deframe_all_frame:
  assumes "fits c m" and "fits w m" and "verify_checksum c \<Longrightarrow> compute_checksum w"
  shows "deframe_all c (frame w m @ rest) = m # deframe_all c rest"
  using deframe_frame [OF assms] by (simp add: deframe_all.simps [of c "frame w m @ rest"])

lemma deframe_all_Nil [simp]: "deframe_all c [] = []"
  by (simp add: deframe_all.simps deframe_def)

text \<open>
  The contract between a transport and the session layer. \<open>inbox\<close> lists the messages that will
  arrive, \<open>outbox\<close> those sent so far, \<open>invar\<close> is what the transport keeps.
\<close>

locale message_transport =
  fixes T :: "'t transport_ops"
    and inbox :: "'t \<Rightarrow> message list"
    and outbox :: "'t \<Rightarrow> message list"
    and config :: "'t \<Rightarrow> wire_config"
    and invar :: "'t \<Rightarrow> bool"
  assumes recv_next: "invar t \<Longrightarrow> inbox t = m # ms \<Longrightarrow>
      \<exists>t'. t_recv T t = Some (Inr m, t') \<and> inbox t' = ms \<and> outbox t' = outbox t
         \<and> config t' = config t \<and> invar t'"
    and recv_empty: "invar t \<Longrightarrow> inbox t = [] \<Longrightarrow>
      \<exists>e t'. t_recv T t = Some (Inl e, t') \<and> outbox t' = outbox t"
    and send_message: "invar t \<Longrightarrow> length (payload m) \<le> unat MAX_PAYLOAD \<Longrightarrow>
      \<exists>t'. t_send T m t = Some (Inr (), t') \<and> inbox t' = inbox t \<and> outbox t' = outbox t @ [m]
         \<and> config t' = config t \<and> invar t'"
    and configure: "invar t \<Longrightarrow> config (t_configure T c t) = c
         \<and> outbox (t_configure T c t) = outbox t \<and> invar (t_configure T c t)"

subsection \<open>\<open>StreamTransport\<close> keeps the contract\<close>

text \<open>What the writer has put out so far is read back with checksums ignored.\<close>

definition any_config :: wire_config where
  "any_config = \<lparr>compute_checksum = False, verify_checksum = False, max_payload = MAX_PAYLOAD\<rparr>"

definition stream_inbox :: "('r \<Rightarrow> bytes) \<Rightarrow> ('r, 'w) stream_transport \<Rightarrow> message list" where
  "stream_inbox avail t = deframe_all (r_config (st_reader t)) (avail (r_inner (st_reader t)))"

definition stream_outbox :: "('w \<Rightarrow> bytes) \<Rightarrow> ('r, 'w) stream_transport \<Rightarrow> message list" where
  "stream_outbox out t = deframe_all any_config (out (w_inner (st_writer t)))"

definition stream_config :: "('r, 'w) stream_transport \<Rightarrow> wire_config" where
  "stream_config t = r_config (st_reader t)"

text \<open>Everything written is a sequence of whole frames, and both halves share one policy.\<close>

definition whole_frames :: "bytes \<Rightarrow> bool" where
  "whole_frames bs \<longleftrightarrow> (\<forall>more. deframe_all any_config (bs @ more)
     = deframe_all any_config bs @ deframe_all any_config more)"

definition stream_invar :: "('w \<Rightarrow> bytes) \<Rightarrow> ('r, 'w) stream_transport \<Rightarrow> bool" where
  "stream_invar out t \<longleftrightarrow> w_config (st_writer t) = r_config (st_reader t)
     \<and> whole_frames (out (w_inner (st_writer t)))"

lemma fits_any: "length (payload m) \<le> unat MAX_PAYLOAD \<longleftrightarrow> fits any_config m"
  by (simp add: fits_def any_config_def)

lemma fits_weaken: "fits c m \<Longrightarrow> fits any_config m"
  by (auto simp: fits_def any_config_def min_def word_le_nat_alt split: if_splits)

lemma frame_config: "compute_checksum c = compute_checksum d \<Longrightarrow> frame c m = frame d m"
  by (simp add: frame_def)

lemma deframe_any_frame:
  assumes "fits any_config m"
  shows "deframe_all any_config (frame w m @ rest) = m # deframe_all any_config rest"
proof -
  let ?w = "w\<lparr>max_payload := MAX_PAYLOAD\<rparr>"
  have "fits ?w m" using assms by (simp add: fits_def any_config_def)
  moreover have "frame w m = frame ?w m" by (rule frame_config) simp
  ultimately show ?thesis
    using deframe_all_frame [OF assms, of ?w rest] by (simp add: any_config_def)
qed

lemma whole_frames_Nil [simp]: "whole_frames []"
  by (simp add: whole_frames_def)

lemma whole_frames_snoc:
  assumes "whole_frames bs" and "fits any_config m"
  shows "whole_frames (bs @ frame w m)"
    and "deframe_all any_config (bs @ frame w m) = deframe_all any_config bs @ [m]"
proof -
  from assms(1) have split: "deframe_all any_config (bs @ more)
      = deframe_all any_config bs @ deframe_all any_config more" for more
    by (simp add: whole_frames_def)
  show app: "deframe_all any_config (bs @ frame w m) = deframe_all any_config bs @ [m]"
    using deframe_any_frame [OF assms(2), of w "[]"] by (simp add: split)
  show "whole_frames (bs @ frame w m)"
    using deframe_any_frame [OF assms(2), of w] app
    by (simp add: whole_frames_def split)
qed

lemma stream_transport_contract:
  assumes R: "reads_bytes R avail" and W: "writes_bytes W out"
  shows "message_transport (stream_transport_ops R W) (stream_inbox avail) (stream_outbox out)
           stream_config (stream_invar out)"
proof
  fix t :: "('a, 'b) stream_transport" and m :: message and ms
  assume inv: "stream_invar out t" and box: "stream_inbox avail t = m # ms"
  let ?c = "r_config (st_reader t)" and ?av = "avail (r_inner (st_reader t))"
  from box obtain rest where d: "deframe ?c ?av = Inr (m, rest)" and ms: "ms = deframe_all ?c rest"
    by (auto simp: stream_inbox_def deframe_all.simps [of ?c ?av] split: sum.splits)
  from framed_recv_deframe [OF R, of "st_reader t"] d obtain s' where
    "framed_recv R (st_reader t) = Some (Inr m, s')" "r_config s' = ?c" "avail (r_inner s') = rest"
    by auto
  with inv ms show "\<exists>t'. t_recv (stream_transport_ops R W) t = Some (Inr m, t')
      \<and> stream_inbox avail t' = ms \<and> stream_outbox out t' = stream_outbox out t
      \<and> stream_config t' = stream_config t \<and> stream_invar out t'"
    by (simp add: stream_transport_ops_def on_part_def stream_inbox_def stream_outbox_def
        stream_config_def stream_invar_def)
next
  fix t :: "('a, 'b) stream_transport"
  assume "stream_inbox avail t = []"
  then obtain e where "deframe (r_config (st_reader t)) (avail (r_inner (st_reader t))) = Inl e"
    by (auto simp: stream_inbox_def
        deframe_all.simps [of "r_config (st_reader t)" "avail (r_inner (st_reader t))"]
        split: sum.splits)
  with framed_recv_deframe [OF R, of "st_reader t"] obtain s' where
    "framed_recv R (st_reader t) = Some (Inl e, s')" by auto
  then show "\<exists>e t'. t_recv (stream_transport_ops R W) t = Some (Inl e, t')
      \<and> stream_outbox out t' = stream_outbox out t"
    by (simp add: stream_transport_ops_def on_part_def stream_outbox_def)
next
  fix t :: "('a, 'b) stream_transport" and m :: message
  assume inv: "stream_invar out t" and "length (payload m) \<le> unat MAX_PAYLOAD"
  then have fit: "fits any_config m" by (simp add: fits_any)
  from framed_send_frame [OF W fit, of "st_writer t"] obtain s' where
    "framed_send W m (st_writer t) = Some (Inr (), s')" "w_config s' = w_config (st_writer t)"
    "out (w_inner s') = out (w_inner (st_writer t)) @ frame (w_config (st_writer t)) m" by blast
  with inv show "\<exists>t'. t_send (stream_transport_ops R W) m t = Some (Inr (), t')
      \<and> stream_inbox avail t' = stream_inbox avail t
      \<and> stream_outbox out t' = stream_outbox out t @ [m]
      \<and> stream_config t' = stream_config t \<and> stream_invar out t'"
    using whole_frames_snoc [OF _ fit]
    by (simp add: stream_transport_ops_def on_part_def stream_inbox_def stream_outbox_def
        stream_config_def stream_invar_def)
next
  fix t :: "('a, 'b) stream_transport" and c
  assume "stream_invar out t"
  then show "stream_config (t_configure (stream_transport_ops R W) c t) = c
      \<and> stream_outbox out (t_configure (stream_transport_ops R W) c t) = stream_outbox out t
      \<and> stream_invar out (t_configure (stream_transport_ops R W) c t)"
    by (simp add: stream_transport_ops_def stream_configure_def stream_config_def
        stream_outbox_def stream_invar_def)
qed

interpretation duplex: message_transport
  "stream_transport_ops chunk_reader byte_sink" "stream_inbox concat" "stream_outbox id"
  stream_config "stream_invar id"
  by (rule stream_transport_contract) simp_all

subsection \<open>Properties\<close>

fun send_all :: "'w async_write \<Rightarrow> message list \<Rightarrow> ('w framed_writer, unit) comp" where
  "send_all W [] = ret ()"
| "send_all W (m # ms) = and_then (framed_send W m) (\<lambda>_. send_all W ms)"

fun recv_all :: "'r async_read \<Rightarrow> nat \<Rightarrow> ('r framed_reader, message list) comp" where
  "recv_all R 0 = ret []"
| "recv_all R (Suc n) =
     and_then (framed_recv R) (\<lambda>m. and_then (recv_all R n) (\<lambda>ms. ret (m # ms)))"

lemma send_all_frames:
  assumes W: "writes_bytes W out" and "\<forall>m \<in> set ms. fits c m"
  shows "\<exists>s'. send_all W ms s = Some (Inr (), s') \<and> w_config s' = w_config s
          \<and> out (w_inner s') = out (w_inner s) @ concat (map (frame (w_config s)) ms)"
  using assms(2)
proof (induction ms arbitrary: s)
  case Nil
  then show ?case by simp
next
  case (Cons m ms)
  from framed_send_frame [OF W, of c m s] Cons.prems obtain s1 where
    s1: "framed_send W m s = Some (Inr (), s1)" "w_config s1 = w_config s"
      "out (w_inner s1) = out (w_inner s) @ frame (w_config s) m" by auto
  from Cons.IH [of s1] Cons.prems s1 show ?case by (auto simp: and_then_ok)
qed

lemma recv_all_frames:
  assumes R: "reads_bytes R avail"
    and "\<forall>m \<in> set ms. fits (r_config s) m"
    and "verify_checksum (r_config s) \<Longrightarrow> compute_checksum w"
    and "avail (r_inner s) = concat (map (frame w) ms) @ rest"
    and "max_payload w = max_payload (r_config s)"
  shows "\<exists>s'. recv_all R (length ms) s = Some (Inr ms, s') \<and> r_config s' = r_config s
          \<and> avail (r_inner s') = rest"
  using assms(2-)
proof (induction ms arbitrary: s)
  case Nil
  then show ?case by simp
next
  case (Cons m ms)
  have "fits w m" using Cons.prems by (simp add: fits_def)
  then have d: "deframe (r_config s) (avail (r_inner s))
      = Inr (m, concat (map (frame w) ms) @ rest)"
    using Cons.prems deframe_frame [of "r_config s" m w] by simp
  from framed_recv_deframe [OF R, of s] d obtain s1 where
    s1: "framed_recv R s = Some (Inr m, s1)" "r_config s1 = r_config s"
      "avail (r_inner s1) = concat (map (frame w) ms) @ rest" by auto
  with Cons.IH [of s1] Cons.prems obtain s' where
    "recv_all R (length ms) s1 = Some (Inr ms, s')" "r_config s' = r_config s"
    "avail (r_inner s') = rest" by auto
  with s1 show ?case by (simp add: and_then_ok)
qed

text \<open>
  C23: however the byte stream cuts the bytes into reads, \<open>recv\<close> returns what the abstract
  framing says of the bytes that remain: the first message, or the error for an end of stream, a
  truncated header or payload, a malformed header or a wrong checksum. It always returns.
\<close>

theorem framed_recv_refines:
  assumes "reads_bytes R avail"
  shows "map_option fst (framed_recv R s)
           = Some (map_sum id fst (deframe (r_config s) (avail (r_inner s))))"
  using framed_recv_deframe [OF assms, of s] by auto

theorem framed_recv_refines_witness:
  "map_option fst (framed_recv chunk_reader
       \<lparr>r_inner = [[0x4f], [], [0x50]], r_config = INITIAL\<rparr>)
     = Some (Inl (Protocol (Fmt ''truncated {what}'' [Txt ''header''])))"
  using framed_recv_refines [OF reads_bytes_chunks,
      of "\<lparr>r_inner = [[0x4f], [], [0x50]], r_config = INITIAL\<rparr>"]
  by (simp add: deframe_def HEADER_LEN_def)

text \<open>
  C8: every sequence of messages that respect the payload limit, sent by one side's writer, is
  received unchanged and in order by the other side's reader, however the stream fragments the
  bytes; after the last one the reader reports \<open>Disconnected\<close>. The reader may verify checksums
  whenever the writer computes them.
\<close>

theorem framed_roundtrip:
  assumes "reads_bytes R avail" and "writes_bytes W out" and "out w = []"
    and "\<forall>m \<in> set ms. fits c m"
    and "send_all W ms \<lparr>w_inner = w, w_config = c\<rparr> = Some (res, w')"
    and "avail r = out (w_inner w')" and "verify_checksum c \<Longrightarrow> compute_checksum c"
  shows "res = Inr () \<and> (\<exists>s'. recv_all R (length ms) \<lparr>r_inner = r, r_config = c\<rparr> = Some (Inr ms, s')
           \<and> map_option fst (framed_recv R s') = Some (Inl Disconnected))"
proof -
  from send_all_frames [OF assms(2,4), of "\<lparr>w_inner = w, w_config = c\<rparr>"] assms(3,5)
  have "res = Inr ()" and bytes: "avail r = concat (map (frame c) ms) @ []"
    using assms(6) by auto
  moreover from recv_all_frames [OF assms(1), of ms "\<lparr>r_inner = r, r_config = c\<rparr>" c "[]"]
  obtain s' where "recv_all R (length ms) \<lparr>r_inner = r, r_config = c\<rparr> = Some (Inr ms, s')"
    "avail (r_inner s') = []"
    using assms(4,7) bytes by auto
  moreover have "map_option fst (framed_recv R s') = Some (Inl Disconnected)"
    using framed_recv_deframe [OF assms(1), of s'] calculation(4) by (auto simp: deframe_def)
  ultimately show ?thesis by blast
qed

theorem framed_roundtrip_witness:
  "\<exists>w'. send_all byte_sink [new_message Write 1 2 [7, 8, 9], empty_message Okay 1 2]
          \<lparr>w_inner = [], w_config = INITIAL\<rparr> = Some (Inr (), w')
      \<and> (\<exists>s'. recv_all chunk_reader 2 \<lparr>r_inner = [take 30 (w_inner w'), drop 30 (w_inner w')],
                r_config = INITIAL\<rparr>
          = Some (Inr [new_message Write 1 2 [7, 8, 9], empty_message Okay 1 2], s'))"
proof -
  let ?ms = "[new_message Write 1 2 [7, 8, 9], empty_message Okay 1 2]"
  have fit: "\<forall>m \<in> set ?ms. fits INITIAL m"
    by (simp add: fits_def INITIAL_def MAX_PAYLOAD_def)
  from send_all_frames [OF writes_bytes_sink fit, of "\<lparr>w_inner = [], w_config = INITIAL\<rparr>"]
  obtain w' where w': "send_all byte_sink ?ms \<lparr>w_inner = [], w_config = INITIAL\<rparr> = Some (Inr (), w')"
    by blast
  have "\<exists>s'. recv_all chunk_reader (length ?ms)
        \<lparr>r_inner = [take 30 (w_inner w'), drop 30 (w_inner w')], r_config = INITIAL\<rparr>
        = Some (Inr ?ms, s')"
    using framed_roundtrip [OF reads_bytes_chunks writes_bytes_sink _ fit w',
        of "[take 30 (w_inner w'), drop 30 (w_inner w')]"] by (auto simp: INITIAL_def)
  with w' show ?thesis by (auto simp: numeral_2_eq_2)
qed

text \<open>
  A header that is refused (bad magic, unknown command, payload over the limit) ends the
  read with exactly the 24 header bytes consumed: not one payload byte is read and nothing of
  the announced length is allocated.
\<close>

lemma framed_recv_refuses_early:
  assumes "reads_bytes R avail" and "HEADER_LEN \<le> length (avail (r_inner s))"
    and "decode_header (take HEADER_LEN (avail (r_inner s))) (max_payload (r_config s)) = Inl e"
  shows "\<exists>s'. framed_recv R s = Some (Inl e, s')
           \<and> avail (r_inner s') = drop HEADER_LEN (avail (r_inner s))"
proof -
  obtain r' where "read_header R s = Some (Inr (take HEADER_LEN (avail (r_inner s))), s\<lparr>r_inner := r'\<rparr>)"
    and r': "avail r' = drop HEADER_LEN (avail (r_inner s))"
    using read_header_full [OF assms(1,2)] by blast
  with assms(3) have "framed_recv R s = Some (Inl e, s\<lparr>r_inner := r'\<rparr>)"
    by (simp add: framed_recv_def and_then_ok)
  with r' show ?thesis by auto
qed

end
