(* ===== verification/Usb.thy ===== *)
theory Usb
  imports Transport
begin

section \<open>USB\<close>

text \<open>
  \<open>src/transport/usb/mod.rs\<close> and \<open>src/transport/usb/io.rs\<close>: which interface of a device is ADB's,
  finding and opening a device, and messages over the bulk endpoints. The \<open>nusb\<close> crate is a
  parameter: enumeration and claiming as a record of calls, an endpoint as its maximum packet
  size and its transfers. \<open>take_packets\<close> is how a USB bulk IN transfer of a given size completes
  on the packets that arrive, \<open>packets\<close> how a bulk OUT transfer becomes packets. The lemmas show
  that what \<open>UsbSink\<close> writes, \<open>UsbSource\<close> reads back for every packet size.
\<close>

subsection \<open>Devices\<close>

definition ADB_CLASS :: u8 where "ADB_CLASS = 0xFF"
definition ADB_SUBCLASS :: u8 where "ADB_SUBCLASS = 0x42"
definition ADB_PROTOCOL :: u8 where "ADB_PROTOCOL = 0x01"

record usb_interface =
  ui_class :: u8
  ui_subclass :: u8
  ui_protocol :: u8
  ui_number :: u8

record 'i usb_info =
  ud_id :: 'i
  ud_serial :: "str option"
  ud_product :: "str option"
  ud_manufacturer :: "str option"
  ud_vendor_id :: u16
  ud_product_id :: u16
  ud_interfaces :: "usb_interface list"

record 'i usb_device =
  us_info :: "'i usb_info"
  us_interface :: u8

definition is_adb :: "usb_interface \<Rightarrow> bool" where
  "is_adb i \<longleftrightarrow> ui_class i = ADB_CLASS \<and> ui_subclass i = ADB_SUBCLASS \<and> ui_protocol i = ADB_PROTOCOL"

definition adb_interface :: "'i usb_info \<Rightarrow> u8 option" where
  "adb_interface info = map_option ui_number (List.find is_adb (ud_interfaces info))"

datatype usb_error_kind = Busy | Permission_denied | Usb_disconnected | Usb_other

datatype usb_error = Usb_error usb_error_kind msg_text

fun map_usb :: "usb_error \<Rightarrow> error" where
  "map_usb (Usb_error k m) =
     (case k of
        Busy \<Rightarrow> ClaimFailed m
      | Permission_denied \<Rightarrow> ClaimFailed m
      | Usb_disconnected \<Rightarrow> Disconnected
      | Usb_other \<Rightarrow> Usb m)"

type_synonym ('n, 'a) uio = "'n \<Rightarrow> ((usb_error + 'a) \<times> 'n) option"

definition usb_call :: "('n, 'a) uio \<Rightarrow> ('n, 'a) comp" where
  "usb_call m s =
     (case m s of
        None \<Rightarrow> None
      | Some (Inl e, s') \<Rightarrow> Some (Inl (map_usb e), s')
      | Some (Inr x, s') \<Rightarrow> Some (Inr x, s'))"

definition usb_listed :: "'i usb_info \<Rightarrow> 'i usb_device option" where
  "usb_listed info = map_option (\<lambda>n. \<lparr>us_info = info, us_interface = n\<rparr>) (adb_interface info)"

definition usb_list :: "('n, 'i usb_info list) uio \<Rightarrow> ('n, 'i usb_device list) comp" where
  "usb_list enum_usb = and_then (usb_call enum_usb) (\<lambda>ds. ret (List.map_filter usb_listed ds))"

definition pick_device :: "str option \<Rightarrow> 'i usb_device list \<Rightarrow> 'i usb_device result" where
  "pick_device sr ds =
     (case sr of
        Some wanted \<Rightarrow>
          (case List.find (\<lambda>d. ud_serial (us_info d) = Some wanted) ds of
             None \<Rightarrow> Inl (NoDevice (Some (Fmt ''serial {wanted}'' [Txt wanted])))
           | Some d \<Rightarrow> Inr d)
      | None \<Rightarrow>
          (case ds of
             [] \<Rightarrow> Inl (NoDevice None)
           | [d] \<Rightarrow> Inr d
           | _ \<Rightarrow> Inl (NoDevice (Some (Fmt ''{n} devices attached, pass a serial'' [Num (int (length ds))])))))"

definition usb_find :: "('n, 'i usb_info list) uio \<Rightarrow> str option \<Rightarrow> ('n, 'i usb_device) comp" where
  "usb_find enum_usb sr = and_then (usb_list enum_usb) (\<lambda>ds. of_result (pick_device sr ds))"

subsection \<open>Opening\<close>

record usb_endpoint =
  ep_bulk :: bool
  ep_in :: bool
  ep_address :: u8

text \<open>The first bulk endpoint of each direction.\<close>

fun pick_endpoints :: "u8 option \<times> u8 option \<Rightarrow> usb_endpoint list \<Rightarrow> u8 option \<times> u8 option" where
  "pick_endpoints (i, out_addr) [] = (i, out_addr)"
| "pick_endpoints (i, out_addr) (e # es) =
     (if \<not> ep_bulk e then pick_endpoints (i, out_addr) es
      else if ep_in e then pick_endpoints (if i = None then Some (ep_address e) else i, out_addr) es
      else pick_endpoints (i, if out_addr = None then Some (ep_address e) else out_addr) es)"

record ('n, 'i, 'd, 'f, 'a, 'b) nusb =
  nu_devices :: "('n, 'i usb_info list) uio"
  nu_open :: "'i usb_info \<Rightarrow> ('n, 'd) uio"
  nu_claim :: "'d \<Rightarrow> u8 \<Rightarrow> ('n, 'f) uio"
  nu_descriptor :: "'f \<Rightarrow> usb_endpoint list option"
  nu_bulk_in :: "'f \<Rightarrow> u8 \<Rightarrow> ('n, 'a) uio"
  nu_bulk_out :: "'f \<Rightarrow> u8 \<Rightarrow> ('n, 'b) uio"

record 'b usb_sink =
  sk_endpoint :: 'b
  sk_config :: wire_config

record 'a usb_source =
  sc_endpoint :: 'a
  sc_config :: wire_config

record ('a, 'b) usb_transport =
  ut_sink :: "'b usb_sink"
  ut_source :: "'a usb_source"

definition new_usb_transport :: "'a \<Rightarrow> 'b \<Rightarrow> ('a, 'b) usb_transport" where
  "new_usb_transport i out_ep =
     \<lparr>ut_sink = \<lparr>sk_endpoint = out_ep, sk_config = INITIAL\<rparr>,
      ut_source = \<lparr>sc_endpoint = i, sc_config = INITIAL\<rparr>\<rparr>"

definition usb_open ::
  "('n, 'i, 'd, 'f, 'a, 'b) nusb \<Rightarrow> 'i usb_device \<Rightarrow> ('n, ('a, 'b) usb_transport) comp" where
  "usb_open U d =
     and_then (usb_call (nu_open U (us_info d))) (\<lambda>dev.
     and_then (usb_call (nu_claim U dev (us_interface d))) (\<lambda>f.
       case nu_descriptor U f of
         None \<Rightarrow> throw (Usb (Lit ''interface has no active descriptor''))
       | Some eps \<Rightarrow>
           (case pick_endpoints (None, None) eps of
              (Some i, Some out_addr) \<Rightarrow>
                and_then (usb_call (nu_bulk_in U f i)) (\<lambda>bulk_in.
                and_then (usb_call (nu_bulk_out U f out_addr)) (\<lambda>bulk_out.
                ret (new_usb_transport bulk_in bulk_out)))
            | _ \<Rightarrow> throw (Usb (Lit ''ADB interface lacks bulk IN/OUT endpoints'')))))"

subsection \<open>Transfers\<close>

datatype transfer_error = Transfer_disconnected | Transfer_other msg_text

fun map_transfer :: "transfer_error \<Rightarrow> error" where
  "map_transfer Transfer_disconnected = Disconnected"
| "map_transfer (Transfer_other m) = Usb m"

type_synonym ('e, 'a) tio = "'e \<Rightarrow> ((transfer_error + 'a) \<times> 'e) option"

definition completed :: "('e, 'a) tio \<Rightarrow> ('e, 'a) comp" where
  "completed m s =
     (case m s of
        None \<Rightarrow> None
      | Some (Inl e, s') \<Rightarrow> Some (Inl (map_transfer e), s')
      | Some (Inr x, s') \<Rightarrow> Some (Inr x, s'))"

record 'b bulk_out =
  bo_transfer :: "bytes \<Rightarrow> ('b, unit) tio"
  bo_packet :: nat

record 'a bulk_in =
  bi_transfer :: "nat \<Rightarrow> ('a, bytes) tio"
  bi_packet :: nat

subsection \<open>The writing half\<close>

definition on_sink :: "('b, 'x) comp \<Rightarrow> ('b usb_sink, 'x) comp" where
  "on_sink = on_part sk_endpoint (\<lambda>e s. s\<lparr>sk_endpoint := e\<rparr>)"

definition usb_write :: "'b bulk_out \<Rightarrow> bytes \<Rightarrow> ('b usb_sink, unit) comp" where
  "usb_write B data = on_sink (completed (bo_transfer B data))"

text \<open>A packet size of 0 would divide by zero in the code.\<close>

definition usb_send :: "'b bulk_out \<Rightarrow> message \<Rightarrow> ('b usb_sink, unit) comp" where
  "usb_send B msg s =
     (case message_header msg (compute_checksum (sk_config s)) of
        None \<Rightarrow> throw payload_too_long s
      | Some header \<Rightarrow>
          and_then (usb_write B (encode_header header)) (\<lambda>_.
            if payload msg = [] then ret ()
            else
              and_then (usb_write B (payload msg)) (\<lambda>_.
                if bo_packet B = 0 then panic
                else if length (payload msg) mod bo_packet B = 0 then usb_write B []
                else ret ())) s)"

subsection \<open>The reading half\<close>

definition on_source_ep :: "('a, 'x) comp \<Rightarrow> ('a usb_source, 'x) comp" where
  "on_source_ep = on_part sc_endpoint (\<lambda>e s. s\<lparr>sc_endpoint := e\<rparr>)"

definition request_len :: "nat \<Rightarrow> nat \<Rightarrow> nat" where
  "request_len mps len = (let m = max mps 1 in max ((len + m - 1) div m) 1 * m)"

definition usb_read :: "'a bulk_in \<Rightarrow> nat \<Rightarrow> ('a usb_source, bytes) comp" where
  "usb_read B len = on_source_ep (completed (bi_transfer B (request_len (bi_packet B) len)))"

definition short_payload :: "nat \<Rightarrow> nat \<Rightarrow> error" where
  "short_payload got len = Protocol (Fmt ''short payload: {} of {len} bytes'' [Num (int got), Num (int len)])"

definition long_payload :: "nat \<Rightarrow> nat \<Rightarrow> error" where
  "long_payload len got = Protocol (Fmt ''expected {len} bytes, got {}'' [Num (int len), Num (int got)])"

partial_function (option) usb_read_rest ::
  "'a bulk_in \<Rightarrow> nat \<Rightarrow> bytes \<Rightarrow> 'a usb_source \<Rightarrow> (bytes result \<times> 'a usb_source) option" where
  "usb_read_rest B len buf s =
     (if length buf < len then
        and_then (usb_read B (len - length buf)) (\<lambda>piece s.
          if piece = [] then throw (short_payload (length buf) len) s
          else usb_read_rest B len (buf @ piece) s) s
      else if length buf \<noteq> len then throw (long_payload len (length buf)) s
      else ret buf s)"

definition usb_read_exact :: "'a bulk_in \<Rightarrow> nat \<Rightarrow> ('a usb_source, bytes) comp" where
  "usb_read_exact B len = and_then (usb_read B len) (usb_read_rest B len)"

text \<open>Zero-length packets before a header are skipped.\<close>

partial_function (option) usb_read_head ::
  "'a bulk_in \<Rightarrow> 'a usb_source \<Rightarrow> (bytes result \<times> 'a usb_source) option" where
  "usb_read_head B s =
     and_then (usb_read B HEADER_LEN) (\<lambda>buf s. if buf = [] then usb_read_head B s else ret buf s) s"

definition truncated_header :: "nat \<Rightarrow> error" where
  "truncated_header n = Protocol (Fmt ''truncated header: {} bytes'' [Num (int n)])"

definition usb_recv :: "'a bulk_in \<Rightarrow> ('a usb_source, message) comp" where
  "usb_recv B s =
     and_then (usb_read_head B) (\<lambda>head.
       if length head \<noteq> HEADER_LEN then throw (truncated_header (length head))
       else
         and_then (of_result (decode_header head (max_payload (sc_config s)))) (\<lambda>header.
         and_then (if unat (data_length header) = 0 then ret []
                   else usb_read_exact B (unat (data_length header))) (\<lambda>body.
           let msg = with_payload header body in
           if verify_checksum (sc_config s) \<and> \<not> checksum_matches msg header
           then throw (checksum_mismatch header) else ret msg))) s"

subsection \<open>The transport\<close>

definition usb_configure :: "wire_config \<Rightarrow> ('a, 'b) usb_transport \<Rightarrow> ('a, 'b) usb_transport" where
  "usb_configure c t =
     t\<lparr>ut_sink := (ut_sink t)\<lparr>sk_config := c\<rparr>, ut_source := (ut_source t)\<lparr>sc_config := c\<rparr>\<rparr>"

definition usb_transport_ops :: "'a bulk_in \<Rightarrow> 'b bulk_out \<Rightarrow> ('a, 'b) usb_transport transport_ops" where
  "usb_transport_ops I B =
     \<lparr>t_send = (\<lambda>m. on_part ut_sink (\<lambda>k t. t\<lparr>ut_sink := k\<rparr>) (usb_send B m)),
      t_recv = on_part ut_source (\<lambda>k t. t\<lparr>ut_source := k\<rparr>) (usb_recv I),
      t_configure = usb_configure\<rparr>"

definition usb_split :: "('a, 'b) usb_transport \<Rightarrow> 'b usb_sink \<times> 'a usb_source" where
  "usb_split t = (ut_sink t, ut_source t)"

subsection \<open>Packets\<close>

function packets :: "nat \<Rightarrow> bytes \<Rightarrow> bytes list" where
  "packets mps bs =
     (if mps = 0 \<or> length bs \<le> mps then [bs] else take mps bs # packets mps (drop mps bs))"
  by pat_completeness auto
termination
  by (relation "measure (\<lambda>(mps, bs). length bs)") auto

declare packets.simps [simp del]

text \<open>A transfer of \<open>n\<close> bytes, a multiple of the packet size, ends when it is full or with a short packet.\<close>

fun take_packets :: "nat \<Rightarrow> nat \<Rightarrow> bytes list \<Rightarrow> (bytes \<times> bytes list) option" where
  "take_packets mps n [] = None"
| "take_packets mps n (p # ps) =
     (if length p < mps \<or> n \<le> length p then Some (p, ps)
      else map_option (\<lambda>(bs, rest). (p @ bs, rest)) (take_packets mps (n - length p) ps))"

definition reads_packets :: "'a bulk_in \<Rightarrow> ('a \<Rightarrow> bytes list) \<Rightarrow> bool" where
  "reads_packets B queue \<longleftrightarrow> 0 < bi_packet B \<and>
     (\<forall>n e bs rest. 0 < n \<and> bi_packet B dvd n \<and> take_packets (bi_packet B) n (queue e) = Some (bs, rest) \<longrightarrow>
        (\<exists>e'. bi_transfer B n e = Some (Inr bs, e') \<and> queue e' = rest))"

definition writes_packets :: "'b bulk_out \<Rightarrow> ('b \<Rightarrow> bytes list) \<Rightarrow> bool" where
  "writes_packets B sent \<longleftrightarrow> 0 < bo_packet B \<and>
     (\<forall>bs e. \<exists>e'. bo_transfer B bs e = Some (Inr (), e') \<and> sent e' = sent e @ packets (bo_packet B) bs)"

lemma take_packets_whole:
  assumes "0 < mps" and "bs \<noteq> []" and "length bs \<le> n" and "mps dvd n"
    and "length bs mod mps = 0 \<Longrightarrow> length bs = n"
  shows "take_packets mps n (packets mps bs @ rest) = Some (bs, rest)"
  using assms
proof (induction "length bs" arbitrary: bs n rule: less_induct)
  case less
  show ?case
  proof (cases "length bs \<le> mps")
    case True
    then have "length bs < mps \<or> n \<le> length bs"
      using less.prems by (cases "length bs = mps") auto
    with True show ?thesis by (simp add: packets.simps [of mps bs])
  next
    case False
    let ?d = "drop mps bs"
    have sum: "length bs = mps + length ?d" using False by simp
    have n: "mps \<le> n" "mps dvd n - mps" using less.prems(3,4) False by (auto intro: dvd_diff_nat)
    have "take_packets mps (n - mps) (packets mps ?d @ rest) = Some (?d, rest)"
    proof (rule less.hyps)
      show "length ?d mod mps = 0 \<Longrightarrow> length ?d = n - mps"
        using less.prems(5) sum n(1) by (metis add_diff_cancel_left' mod_add_self1)
    qed (use less.prems False n in auto)
    moreover have "\<not> n \<le> mps" using less.prems(3) False by simp
    ultimately show ?thesis
      using False less.prems(1) by (simp add: packets.simps [of mps bs] min_def)
  qed
qed

lemma request_len_ok:
  assumes "0 < mps"
  shows "0 < request_len mps len" "mps dvd request_len mps len" "len \<le> request_len mps len"
    "0 < len \<Longrightarrow> mps dvd len \<Longrightarrow> request_len mps len = len"
proof -
  have m: "max mps 1 = mps" using assms by simp
  have le: "len \<le> (len + mps - 1) div mps * mps"
    using assms div_mult_mod_eq [of "len + mps - 1" mps] mod_less_divisor [of mps "len + mps - 1"] by linarith
  show "0 < request_len mps len" "mps dvd request_len mps len"
    using assms by (simp_all add: request_len_def m Let_def)
  show "len \<le> request_len mps len"
    using order_trans [OF le mult_le_mono1 [OF max.cobounded1 [of _ 1]]]
    unfolding request_len_def m Let_def .
  assume pos: "0 < len" and "mps dvd len"
  then obtain k where k: "len = mps * k" "0 < k" by (auto elim: dvdE)
  have "(mps * k + mps - 1) div mps = k"
    using assms k(2) by (intro div_nat_eqI) (simp_all add: algebra_simps)
  with assms k show "request_len mps len = len" by (simp add: request_len_def m Let_def)
qed

subsection \<open>Reading what was written\<close>

text \<open>The packets of one message: the header, the payload, and an empty packet where one is needed.\<close>

definition message_packets :: "nat \<Rightarrow> wire_config \<Rightarrow> message \<Rightarrow> bytes list" where
  "message_packets mps c m =
     (case message_header m (compute_checksum c) of
        None \<Rightarrow> []
      | Some h \<Rightarrow> packets mps (encode_header h)
          @ (if payload m = [] then []
             else packets mps (payload m) @ (if length (payload m) mod mps = 0 then packets mps [] else [])))"

lemma usb_write_run:
  assumes "writes_packets B sent"
  shows "\<exists>s'. usb_write B bs s = Some (Inr (), s') \<and> sk_config s' = sk_config s
     \<and> sent (sk_endpoint s') = sent (sk_endpoint s) @ packets (bo_packet B) bs"
proof -
  obtain e' where "bo_transfer B bs (sk_endpoint s) = Some (Inr (), e')"
    "sent e' = sent (sk_endpoint s) @ packets (bo_packet B) bs"
    using assms unfolding writes_packets_def by blast
  then show ?thesis by (simp add: usb_write_def on_sink_def on_part_def completed_def)
qed

lemma usb_send_run:
  assumes B: "writes_packets B sent" and "fits c m"
  shows "\<exists>s'. usb_send B m s = Some (Inr (), s') \<and> sk_config s' = sk_config s
     \<and> sent (sk_endpoint s') = sent (sk_endpoint s) @ message_packets (bo_packet B) (sk_config s) m"
proof -
  have mps: "bo_packet B \<noteq> 0" using B by (simp add: writes_packets_def)
  obtain h where h: "message_header m (compute_checksum (sk_config s)) = Some h"
    using frame_ok [OF assms(2)] by blast
  obtain s1 where s1: "usb_write B (encode_header h) s = Some (Inr (), s1)" "sk_config s1 = sk_config s"
    "sent (sk_endpoint s1) = sent (sk_endpoint s) @ packets (bo_packet B) (encode_header h)"
    using usb_write_run [OF B] by blast
  obtain s2 where s2: "usb_write B (payload m) s1 = Some (Inr (), s2)" "sk_config s2 = sk_config s1"
    "sent (sk_endpoint s2) = sent (sk_endpoint s1) @ packets (bo_packet B) (payload m)"
    using usb_write_run [OF B] by blast
  obtain s3 where s3: "usb_write B [] s2 = Some (Inr (), s3)" "sk_config s3 = sk_config s2"
    "sent (sk_endpoint s3) = sent (sk_endpoint s2) @ packets (bo_packet B) []"
    using usb_write_run [OF B] by blast
  show ?thesis
    using h s1 s2 s3 mps
    by (cases "payload m = []"; cases "length (payload m) mod bo_packet B = 0")
      (simp_all add: usb_send_def and_then_ok message_packets_def)
qed

lemma usb_read_run:
  assumes B: "reads_packets B queue" and "bs \<noteq> []" and "length bs = len"
    and "queue (sc_endpoint s) = packets (bi_packet B) bs @ rest"
  shows "\<exists>s'. usb_read B len s = Some (Inr bs, s') \<and> sc_config s' = sc_config s \<and> queue (sc_endpoint s') = rest"
proof -
  let ?n = "request_len (bi_packet B) len"
  have mps: "0 < bi_packet B" using B by (simp add: reads_packets_def)
  note r = request_len_ok [OF mps, of len]
  have "take_packets (bi_packet B) ?n (queue (sc_endpoint s)) = Some (bs, rest)"
    unfolding assms(4)
    by (rule take_packets_whole) (use mps assms(2,3) r in \<open>auto simp: mod_eq_0_iff_dvd\<close>)
  then obtain e' where "bi_transfer B ?n (sc_endpoint s) = Some (Inr bs, e')" "queue e' = rest"
    using B r(1,2) unfolding reads_packets_def by blast
  then show ?thesis by (simp add: usb_read_def on_source_ep_def on_part_def completed_def)
qed

lemma usb_read_empty:
  assumes B: "reads_packets B queue" and "queue (sc_endpoint s) = packets (bi_packet B) [] @ rest"
  shows "\<exists>s'. usb_read B len s = Some (Inr [], s') \<and> sc_config s' = sc_config s \<and> queue (sc_endpoint s') = rest"
proof -
  let ?n = "request_len (bi_packet B) len"
  have mps: "0 < bi_packet B" using B by (simp add: reads_packets_def)
  have "take_packets (bi_packet B) ?n (queue (sc_endpoint s)) = Some ([], rest)"
    using mps by (simp add: assms(2) packets.simps)
  then obtain e' where "bi_transfer B ?n (sc_endpoint s) = Some (Inr [], e')" "queue e' = rest"
    using B request_len_ok(1,2) [OF mps] unfolding reads_packets_def by blast
  then show ?thesis by (simp add: usb_read_def on_source_ep_def on_part_def completed_def)
qed

lemma usb_read_head_run:
  assumes B: "reads_packets B queue" and "length bs = HEADER_LEN"
    and "queue (sc_endpoint s) = replicate k [] @ packets (bi_packet B) bs @ rest"
  shows "\<exists>s'. usb_read_head B s = Some (Inr bs, s') \<and> sc_config s' = sc_config s \<and> queue (sc_endpoint s') = rest"
  using assms(3)
proof (induction k arbitrary: s)
  case 0
  have ne: "bs \<noteq> []" using assms(2) header_len_pos by (metis less_irrefl list.size(3))
  obtain s' where "usb_read B HEADER_LEN s = Some (Inr bs, s')" "sc_config s' = sc_config s"
    "queue (sc_endpoint s') = rest"
    using usb_read_run [OF B ne assms(2)] 0 by auto
  with ne show ?case by (simp add: usb_read_head.simps [of B s] and_then_ok)
next
  case (Suc k)
  have "queue (sc_endpoint s) = packets (bi_packet B) [] @ replicate k [] @ packets (bi_packet B) bs @ rest"
    using Suc.prems by (simp add: packets.simps [of _ "[]"])
  from usb_read_empty [OF B this] obtain s1 where s1: "usb_read B HEADER_LEN s = Some (Inr [], s1)"
    "sc_config s1 = sc_config s" "queue (sc_endpoint s1) = replicate k [] @ packets (bi_packet B) bs @ rest" by blast
  with Suc.IH [of s1] show ?case by (auto simp: usb_read_head.simps [of B s] and_then_ok)
qed

text \<open>One message, after the empty packets its predecessor may have left.\<close>

lemma usb_recv_run:
  assumes B: "reads_packets B queue" and "fits (sc_config s) m" and "fits w m"
    and "verify_checksum (sc_config s) \<Longrightarrow> compute_checksum w"
    and "queue (sc_endpoint s) = replicate k [] @ message_packets (bi_packet B) w m @ rest"
  shows "\<exists>s' j. usb_recv B s = Some (Inr m, s') \<and> sc_config s' = sc_config s
     \<and> queue (sc_endpoint s') = replicate j [] @ rest"
proof -
  let ?mps = "bi_packet B"
  obtain h where h: "message_header m (compute_checksum w) = Some h" "unat (data_length h) = length (payload m)"
    and fields: "command h = m_command m" "arg0 h = m_arg0 m" "arg1 h = m_arg1 m"
      "data_check h = (if compute_checksum w then checksum (payload m) else 0)"
    and bound: "data_length h \<le> min (max_payload (sc_config s)) MAX_PAYLOAD"
    using frame_ok [OF assms(2), of "compute_checksum w"] by blast
  have dec: "decode_header (encode_header h) (max_payload (sc_config s)) = Inr h"
    by (rule decode_encode_header [OF bound])
  have msg: "with_payload h (payload m) = m" by (simp add: with_payload_def new_message_def fields)
  have check: "\<not> (verify_checksum (sc_config s) \<and> \<not> checksum_matches m h)"
    using assms(4) by (auto simp: checksum_matches_def fields)
  define after where "after = (if payload m = [] then [] else packets ?mps (payload m)
    @ (if length (payload m) mod ?mps = 0 then packets ?mps [] else []))"
  have "queue (sc_endpoint s) = replicate k [] @ packets ?mps (encode_header h) @ after @ rest"
    using assms(5) h(1) by (simp add: message_packets_def after_def)
  from usb_read_head_run [OF B _ this] obtain s1 where
    s1: "usb_read_head B s = Some (Inr (encode_header h), s1)" "sc_config s1 = sc_config s"
      "queue (sc_endpoint s1) = after @ rest" by auto
  show ?thesis
  proof (cases "payload m = []")
    case True
    with s1 dec msg check h(2) show ?thesis
      by (intro exI [of _ s1] exI [of _ 0]) (simp add: usb_recv_def and_then_ok Let_def after_def)
  next
    case False
    let ?zlp = "if length (payload m) mod ?mps = 0 then packets ?mps [] else []"
    have "queue (sc_endpoint s1) = packets ?mps (payload m) @ ?zlp @ rest"
      using s1(3) False by (simp add: after_def)
    from usb_read_run [OF B False refl this] obtain s2 where
      s2: "usb_read B (length (payload m)) s1 = Some (Inr (payload m), s2)" "sc_config s2 = sc_config s1"
        "queue (sc_endpoint s2) = ?zlp @ rest" by blast
    then have "usb_read_exact B (length (payload m)) s1 = Some (Inr (payload m), s2)"
      by (simp add: usb_read_exact_def and_then_ok usb_read_rest.simps)
    moreover have "\<exists>j. ?zlp = replicate j []"
      by (cases "length (payload m) mod ?mps = 0") (auto simp: packets.simps [of _ "[]"] intro: exI [of _ 1] exI [of _ 0])
    ultimately show ?thesis
      using s1 s2 dec msg check h(2) False by (auto simp: usb_recv_def and_then_ok Let_def)
  qed
qed

fun usb_send_all :: "'b bulk_out \<Rightarrow> message list \<Rightarrow> ('b usb_sink, unit) comp" where
  "usb_send_all B [] = ret ()"
| "usb_send_all B (m # ms) = and_then (usb_send B m) (\<lambda>_. usb_send_all B ms)"

fun usb_recv_all :: "'a bulk_in \<Rightarrow> nat \<Rightarrow> ('a usb_source, message list) comp" where
  "usb_recv_all B 0 = ret []"
| "usb_recv_all B (Suc n) = and_then (usb_recv B) (\<lambda>m. and_then (usb_recv_all B n) (\<lambda>ms. ret (m # ms)))"

lemma usb_send_all_run:
  assumes B: "writes_packets B sent" and "\<forall>m \<in> set ms. fits c m"
  shows "\<exists>s'. usb_send_all B ms s = Some (Inr (), s') \<and> sent (sk_endpoint s') = sent (sk_endpoint s)
     @ concat (map (message_packets (bo_packet B) (sk_config s)) ms)"
  using assms(2)
proof (induction ms arbitrary: s)
  case Nil
  then show ?case by simp
next
  case (Cons m ms)
  then obtain s1 where s1: "usb_send B m s = Some (Inr (), s1)" "sk_config s1 = sk_config s"
    "sent (sk_endpoint s1) = sent (sk_endpoint s) @ message_packets (bo_packet B) (sk_config s) m"
    using usb_send_run [OF B, of c m s] by auto
  with Cons.IH [of s1] Cons.prems show ?case by (auto simp: and_then_ok)
qed

lemma usb_recv_all_run:
  assumes B: "reads_packets B queue" and "\<forall>m \<in> set ms. fits (sc_config s) m \<and> fits w m"
    and "verify_checksum (sc_config s) \<Longrightarrow> compute_checksum w"
    and "queue (sc_endpoint s) = replicate k [] @ concat (map (message_packets (bi_packet B) w) ms) @ rest"
  shows "\<exists>s'. usb_recv_all B (length ms) s = Some (Inr ms, s')"
  using assms(2-4)
proof (induction ms arbitrary: s k)
  case Nil
  then show ?case by simp
next
  case (Cons m ms)
  then obtain s1 j where s1: "usb_recv B s = Some (Inr m, s1)" "sc_config s1 = sc_config s"
    "queue (sc_endpoint s1) = replicate j [] @ concat (map (message_packets (bi_packet B) w) ms) @ rest"
    using usb_recv_run [OF B, of s m w k "concat (map (message_packets (bi_packet B) w) ms) @ rest"] by auto
  from Cons.IH [of s1 j] s1 Cons.prems show ?case by (auto simp: and_then_ok)
qed

subsection \<open>Properties\<close>

text \<open>Endpoints joined by a queue of packets of at most \<open>mps\<close> bytes.\<close>

definition packet_in :: "nat \<Rightarrow> bytes list bulk_in" where
  "packet_in mps =
     \<lparr>bi_transfer = (\<lambda>n q. case take_packets mps n q of None \<Rightarrow> None | Some (bs, rest) \<Rightarrow> Some (Inr bs, rest)),
      bi_packet = mps\<rparr>"

definition packet_out :: "nat \<Rightarrow> bytes list bulk_out" where
  "packet_out mps = \<lparr>bo_transfer = (\<lambda>bs q. Some (Inr (), q @ packets mps bs)), bo_packet = mps\<rparr>"

lemma reads_packets_queue: "0 < mps \<Longrightarrow> reads_packets (packet_in mps) id"
  by (simp add: reads_packets_def packet_in_def)

lemma writes_packets_queue: "0 < mps \<Longrightarrow> writes_packets (packet_out mps) id"
  by (simp add: writes_packets_def packet_out_def)

text \<open>
  C20: messages written to a USB endpoint are read back unchanged and in order, for every packet
  size, payloads of whole packets (and the empty packet that ends them) included.
\<close>

theorem usb_roundtrip:
  assumes "writes_packets B sent" and "reads_packets I queue" and "bi_packet I = bo_packet B"
    and "\<forall>m \<in> set ms. fits c m \<and> fits (sk_config s) m" and "verify_checksum c \<Longrightarrow> compute_checksum (sk_config s)"
    and "sent (sk_endpoint s) = []"
  shows "\<exists>s'. usb_send_all B ms s = Some (Inr (), s')
     \<and> (\<forall>r. sc_config r = c \<and> queue (sc_endpoint r) = sent (sk_endpoint s')
          \<longrightarrow> (\<exists>r'. usb_recv_all I (length ms) r = Some (Inr ms, r')))"
proof -
  have "\<forall>m \<in> set ms. fits c m" using assms(4) by blast
  from usb_send_all_run [OF assms(1) this] assms(6) obtain s' where
    s': "usb_send_all B ms s = Some (Inr (), s')"
      "sent (sk_endpoint s') = concat (map (message_packets (bo_packet B) (sk_config s)) ms)" by fastforce
  moreover have "\<exists>r'. usb_recv_all I (length ms) r = Some (Inr ms, r')"
    if "sc_config r = c" "queue (sc_endpoint r) = sent (sk_endpoint s')" for r
    using usb_recv_all_run [OF assms(2), where ms = ms and s = r and w = "sk_config s" and k = 0 and rest = "[]"]
      assms(3-5) that s'(2) by simp
  ultimately show ?thesis by blast
qed

definition sample_messages :: "message list" where
  "sample_messages = [new_message Write 1 2 [1, 2, 3, 4, 5, 6, 7, 8], empty_message Okay 1 2]"

theorem usb_roundtrip_witness:
  "\<exists>s'. usb_send_all (packet_out 8) sample_messages \<lparr>sk_endpoint = [], sk_config = INITIAL\<rparr> = Some (Inr (), s')
     \<and> (\<forall>r. sc_config r = INITIAL \<and> id (sc_endpoint r) = id (sk_endpoint s')
          \<longrightarrow> (\<exists>r'. usb_recv_all (packet_in 8) (length sample_messages) r = Some (Inr sample_messages, r')))"
  by (rule usb_roundtrip [OF writes_packets_queue reads_packets_queue])
    (simp_all add: packet_in_def packet_out_def sample_messages_def fits_def new_message_def empty_message_def
      INITIAL_def MAX_PAYLOAD_def)

end
