(* ===== verification/Track.thy ===== *)
theory Track
  imports Usb "HOL-Library.AList"
begin

section \<open>Attach and detach tracking\<close>

text \<open>
  \<open>src/track.rs\<close>. A \<open>HashMap\<close> is the list of its entries, with distinct keys, in the order it
  happens to iterate. A poll is one element of \<open>poll_usb\<close>'s stream: the events of one
  enumeration and the map kept for the next. A hotplug round reads the operating system's events
  until one is worth reporting. \<open>replay\<close> is what a listener knows after a list of events.
\<close>

subsection \<open>Polling\<close>

datatype 'i usb_event = Attached "'i usb_device" | Detached 'i

type_synonym ('k, 'v) hash_map = "('k \<times> 'v) list"

definition diff :: "('k, 'v) hash_map \<Rightarrow> ('k, 'v) hash_map \<Rightarrow> 'v list \<times> 'k list" where
  "diff previous current =
     (map snd (filter (\<lambda>(k, v). map_of previous k = None) current),
      filter (\<lambda>k. map_of current k = None) (map fst previous))"

text \<open>\<open>collect()\<close> into a map: a later entry replaces an earlier one with its key.\<close>

definition collect_map :: "('k \<times> 'v) list \<Rightarrow> ('k, 'v) hash_map" where
  "collect_map kvs = foldl (\<lambda>m (k, v). AList.update k v m) [] kvs"

definition device_id :: "'i usb_device \<Rightarrow> 'i" where
  "device_id d = ud_id (us_info d)"

definition poll_events ::
  "('i, 'i usb_device) hash_map \<Rightarrow> 'i usb_device list result
     \<Rightarrow> (error + 'i usb_event) list \<times> ('i, 'i usb_device) hash_map" where
  "poll_events known listing =
     (case listing of
        Inl e \<Rightarrow> ([Inl e], known)
      | Inr ds \<Rightarrow>
          (let current = collect_map (map (\<lambda>d. (device_id d, d)) ds);
               (added, removed) = diff known current
           in (map (\<lambda>i. Inr (Detached i)) removed @ map (\<lambda>d. Inr (Attached d)) added, current)))"

text \<open>The whole stream of \<open>poll_usb\<close>, for what each enumeration gives; it starts with nothing known.\<close>

fun poll_stream ::
  "('i, 'i usb_device) hash_map \<Rightarrow> 'i usb_device list result list \<Rightarrow> (error + 'i usb_event) list" where
  "poll_stream known [] = []"
| "poll_stream known (l # ls) =
     (case poll_events known l of (events, current) \<Rightarrow> events @ poll_stream current ls)"

subsection \<open>Hotplug\<close>

datatype 'i hotplug_event = Connected "'i usb_info" | Disconnected_id 'i

text \<open>The events of the snapshot \<open>watch_usb\<close> begins with, and the ids it knows then.\<close>

definition watch_start :: "'i usb_device list \<Rightarrow> 'i usb_event list \<times> 'i set" where
  "watch_start ds = (map Attached ds, set (map device_id ds))"

fun hotplug_next :: "'i set \<Rightarrow> 'i hotplug_event list \<Rightarrow> ('i usb_event \<times> 'i set \<times> 'i hotplug_event list) option" where
  "hotplug_next known [] = None"
| "hotplug_next known (Connected info # rest) =
     (case adb_interface info of
        Some n \<Rightarrow> Some (Attached \<lparr>us_info = info, us_interface = n\<rparr>, insert (ud_id info) known, rest)
      | None \<Rightarrow> hotplug_next known rest)"
| "hotplug_next known (Disconnected_id i # rest) =
     (if i \<in> known then Some (Detached i, known - {i}, rest) else hotplug_next known rest)"

lemma hotplug_next_shorter:
  "hotplug_next known es = Some (e, known', rest) \<Longrightarrow> length rest < length es"
  by (induction known es rule: hotplug_next.induct) (auto split: option.splits if_splits)

function hotplug_all :: "'i set \<Rightarrow> 'i hotplug_event list \<Rightarrow> 'i usb_event list" where
  "hotplug_all known es =
     (case hotplug_next known es of
        None \<Rightarrow> []
      | Some (e, known', rest) \<Rightarrow> e # hotplug_all known' rest)"
  by pat_completeness auto
termination
  by (relation "measure (\<lambda>(known, es). length es)") (auto dest: hotplug_next_shorter)

declare hotplug_all.simps [simp del]

text \<open>The stream of \<open>watch_usb\<close>: the enumeration made first decides it.\<close>

definition watch_stream ::
  "'i usb_device list result \<Rightarrow> 'i hotplug_event list \<Rightarrow> (error + 'i usb_event) list" where
  "watch_stream listing queued =
     (case listing of
        Inl e \<Rightarrow> [Inl e]
      | Inr ds \<Rightarrow> (case watch_start ds of (events, known) \<Rightarrow> map Inr (events @ hotplug_all known queued)))"

subsection \<open>What a listener knows\<close>

fun replay :: "'i set \<Rightarrow> 'i usb_event list \<Rightarrow> 'i set" where
  "replay known [] = known"
| "replay known (Attached d # es) = replay (insert (device_id d) known) es"
| "replay known (Detached i # es) = replay (known - {i}) es"

text \<open>An event list is sound for a set of known ids: only absent devices come, only present ones go.\<close>

fun sound :: "'i set \<Rightarrow> 'i usb_event list \<Rightarrow> bool" where
  "sound known [] = True"
| "sound known (Attached d # es) = (device_id d \<notin> known \<and> sound (insert (device_id d) known) es)"
| "sound known (Detached i # es) = (i \<in> known \<and> sound (known - {i}) es)"

lemma replay_detached: "replay known (map Detached gone @ es) = replay (known - set gone) es"
proof (induction gone arbitrary: known)
  case (Cons i gone)
  have "known - set (i # gone) = known - {i} - set gone" by auto
  with Cons show ?case by simp
qed simp

lemma replay_attached: "replay known (map Attached ds) = known \<union> device_id ` set ds"
  by (induction ds arbitrary: known) auto

lemma sound_detached:
  "distinct gone \<Longrightarrow> set gone \<subseteq> known \<Longrightarrow> sound (known - set gone) es \<Longrightarrow> sound known (map Detached gone @ es)"
proof (induction gone arbitrary: known)
  case (Cons i gone)
  have "known - set (i # gone) = known - {i} - set gone" by auto
  with Cons.prems Cons.IH [of "known - {i}"] show ?case by (simp add: subset_Diff_insert)
qed simp

lemma sound_attached:
  "distinct (map device_id ds) \<Longrightarrow> device_id ` set ds \<inter> known = {} \<Longrightarrow> sound known (map Attached ds)"
  by (induction ds arbitrary: known) auto

lemma key_set_update: "fst ` set (AList.update k v m) = insert k (fst ` set m)"
  by (induction m) auto

lemma collect_map_distinct: "distinct (map fst (collect_map kvs))"
proof -
  have "distinct (map fst m) \<Longrightarrow> distinct (map fst (foldl (\<lambda>m (k, v). AList.update k v m) m kvs))" for m
    by (induction kvs arbitrary: m) (auto simp: AList.distinct_update)
  then show ?thesis by (simp add: collect_map_def)
qed

lemma collect_map_keys: "fst ` set (collect_map kvs) = fst ` set kvs"
proof -
  have "fst ` set (foldl (\<lambda>m (k, v). AList.update k v m) m kvs) = fst ` set m \<union> fst ` set kvs" for m
    by (induction kvs arbitrary: m) (simp_all add: split_beta key_set_update)
  then show ?thesis by (simp add: collect_map_def)
qed

lemma update_ids: "\<forall>(k, v) \<in> set m. f v = k \<Longrightarrow> f w = l \<Longrightarrow> \<forall>(k, v) \<in> set (AList.update l w m). f v = k"
  by (induction m) auto

lemma collect_map_ids: "\<forall>(i, d) \<in> set (collect_map (map (\<lambda>d. (device_id d, d)) ds)). device_id d = i"
proof -
  have "\<forall>(i, d) \<in> set m. device_id d = i \<Longrightarrow>
      \<forall>(i, d) \<in> set (foldl (\<lambda>m (k, v). AList.update k v m) m (map (\<lambda>d. (device_id d, d)) ds)). device_id d = i" for m
  proof (induction ds arbitrary: m)
    case (Cons d ds)
    from Cons.IH [OF update_ids [OF Cons.prems refl, of d]] show ?case by (simp only: list.map foldl_Cons prod.case)
  qed simp
  from this [of "[]"] show ?thesis by (simp add: collect_map_def)
qed

definition known_ok :: "('i, 'i usb_device) hash_map \<Rightarrow> bool" where
  "known_ok m \<longleftrightarrow> distinct (map fst m) \<and> (\<forall>(i, d) \<in> set m. device_id d = i)"

lemma diff_added:
  assumes "known_ok known" and "known_ok current"
  shows "device_id ` set (fst (diff known current)) = fst ` set current - fst ` set known"
    and "distinct (map device_id (fst (diff known current)))"
proof -
  have ids: "map device_id (fst (diff known current)) = map fst (filter (\<lambda>(k, v). map_of known k = None) current)"
    using assms(2) by (auto simp: diff_def known_ok_def)
  have "device_id ` set (fst (diff known current)) = set (map device_id (fst (diff known current)))" by simp
  also have "\<dots> = fst ` set current - fst ` set known"
    unfolding ids by (force simp: map_of_eq_None_iff)
  finally show "device_id ` set (fst (diff known current)) = fst ` set current - fst ` set known" .
  show "distinct (map device_id (fst (diff known current)))"
    unfolding ids using assms(2) by (simp add: known_ok_def distinct_map_filter)
qed

lemma diff_removed:
  assumes "known_ok known"
  shows "set (snd (diff known current)) = fst ` set known - fst ` set current"
    and "distinct (snd (diff known current))"
  using assms by (auto simp: diff_def known_ok_def map_of_eq_None_iff)

lemma collect_map_ok: "known_ok (collect_map (map (\<lambda>d. (device_id d, d)) ds))"
  using collect_map_distinct collect_map_ids by (fastforce simp: known_ok_def)

text \<open>The events of a successful poll, without the \<open>Ok\<close> around them.\<close>

definition poll_reports :: "('i, 'i usb_device) hash_map \<Rightarrow> 'i usb_device list \<Rightarrow> 'i usb_event list" where
  "poll_reports known ds =
     (let d = diff known (collect_map (map (\<lambda>d. (device_id d, d)) ds)) in map Detached (snd d) @ map Attached (fst d))"

lemma poll_events_ok:
  "poll_events known (Inr ds)
     = (map Inr (poll_reports known ds), collect_map (map (\<lambda>d. (device_id d, d)) ds))"
  by (simp add: poll_events_def poll_reports_def Let_def split: prod.splits)

subsection \<open>Properties\<close>

text \<open>What the successful and the failed items of a stream of results are.\<close>

definition successes :: "(error + 'a) list \<Rightarrow> 'a list" where
  "successes rs = concat (map (\<lambda>r. case r of Inl e \<Rightarrow> [] | Inr x \<Rightarrow> [x]) rs)"

definition failures :: "(error + 'a) list \<Rightarrow> error list" where
  "failures rs = concat (map (\<lambda>r. case r of Inl e \<Rightarrow> [e] | Inr x \<Rightarrow> []) rs)"

lemma successes_append [simp]:
  "successes (rs @ qs) = successes rs @ successes qs" "successes (map Inr xs) = xs" "successes [Inl e] = []"
  "successes (Inl e # rs) = successes rs" "successes (Inr x # rs) = x # successes rs"
  "failures (rs @ qs) = failures rs @ failures qs" "failures (map Inr xs) = []" "failures [Inl e] = [e]"
  "failures (Inl e # rs) = e # failures rs" "failures (Inr x # rs) = failures rs"
  "successes [] = []" "failures [] = []"
  by (simp_all add: successes_def failures_def comp_def)

lemma replay_append: "replay known (es @ fs) = replay (replay known es) fs"
  by (induction known es rule: replay.induct) simp_all

lemma sound_append: "sound known (es @ fs) \<longleftrightarrow> sound known es \<and> sound (replay known es) fs"
  by (induction known es rule: sound.induct) simp_all

text \<open>
  A poll reports exactly the difference between two enumerations: a listener that knew the
  devices of the last map knows those of the new enumeration afterwards, a device is reported
  attached only when it was absent and detached only when it was present, and a failed
  enumeration reports the error and changes nothing.
\<close>

lemma poll_tracks_devices:
  assumes "known_ok known"
  shows "poll_events known (Inl e) = ([Inl e], known)
      \<and> poll_events known (Inr ds) = (map Inr (poll_reports known ds), collect_map (map (\<lambda>d. (device_id d, d)) ds))
      \<and> known_ok (collect_map (map (\<lambda>d. (device_id d, d)) ds))
      \<and> replay (fst ` set known) (poll_reports known ds) = device_id ` set ds
      \<and> sound (fst ` set known) (poll_reports known ds)"
proof -
  let ?cur = "collect_map (map (\<lambda>d. (device_id d, d)) ds)"
  let ?gone = "snd (diff known ?cur)" and ?new = "fst (diff known ?cur)"
  have keys: "fst ` set ?cur = device_id ` set ds" by (simp add: collect_map_keys image_image)
  note added = diff_added [OF assms collect_map_ok [of ds]] and removed = diff_removed [OF assms, of ?cur]
  have reports: "poll_reports known ds = map Detached ?gone @ map Attached ?new"
    by (simp add: poll_reports_def Let_def)
  have "replay (fst ` set known) (poll_reports known ds) = device_id ` set ds"
    unfolding reports replay_detached replay_attached added(1) removed(1) keys by auto
  moreover have "sound (fst ` set known) (poll_reports known ds)"
    unfolding reports
  proof (rule sound_detached [OF removed(2)])
    show "set ?gone \<subseteq> fst ` set known" unfolding removed(1) by blast
    show "sound (fst ` set known - set ?gone) (map Attached ?new)"
      by (rule sound_attached [OF added(2)]) (use added(1) in auto)
  qed
  moreover have "poll_events known (Inl e) = ([Inl e], known)" by (simp add: poll_events_def)
  ultimately show ?thesis using poll_events_ok collect_map_ok by blast
qed

text \<open>What a listener knows after a run of polls: the devices of the last enumeration that succeeded.\<close>

definition last_seen :: "'i set \<Rightarrow> 'i usb_device list result list \<Rightarrow> 'i set" where
  "last_seen known ls = (if successes ls = [] then known else device_id ` set (last (successes ls)))"

lemma poll_stream_run:
  "known_ok known \<Longrightarrow>
     sound (fst ` set known) (successes (poll_stream known ls))
   \<and> replay (fst ` set known) (successes (poll_stream known ls)) = last_seen (fst ` set known) ls
   \<and> failures (poll_stream known ls) = failures ls"
proof (induction ls arbitrary: known)
  case Nil
  then show ?case by (simp add: last_seen_def)
next
  case (Cons l ls)
  show ?case
  proof (cases l)
    case (Inl e)
    with Cons show ?thesis by (simp add: poll_events_def last_seen_def)
  next
    case (Inr ds)
    let ?cur = "collect_map (map (\<lambda>d. (device_id d, d)) ds)"
    have keys: "fst ` set ?cur = device_id ` set ds" by (simp add: collect_map_keys image_image)
    note one = poll_tracks_devices [OF Cons.prems, of _ ds]
    have "last_seen (fst ` set known) (l # ls) = last_seen (device_id ` set ds) ls"
      by (simp add: last_seen_def Inr)
    with Cons.IH [OF collect_map_ok [of ds]] one Inr show ?thesis
      by (simp add: poll_events_ok keys replay_append sound_append)
  qed
qed

text \<open>
  C35: however many polls succeed or fail, the stream of \<open>poll_usb\<close> is sound from the start: a device is
  reported attached only while it is absent and detached only while it is present, replaying the
  events gives exactly the devices of the last enumeration that succeeded, and every failed
  enumeration is reported once, in order.
\<close>

theorem poll_stream_tracks:
  "sound {} (successes (poll_stream [] ls))
     \<and> replay {} (successes (poll_stream [] ls)) = last_seen {} ls
     \<and> failures (poll_stream [] ls) = failures ls"
  using poll_stream_run [of "[]" ls] by (simp add: known_ok_def)

definition sample_device :: "nat \<Rightarrow> nat usb_device" where
  "sample_device i =
     \<lparr>us_info = \<lparr>ud_id = i, ud_serial = None, ud_product = None, ud_manufacturer = None, ud_vendor_id = 0x18D1,
        ud_product_id = 0x4EE7, ud_interfaces = [\<lparr>ui_class = 0xFF, ui_subclass = 0x42, ui_protocol = 1, ui_number = 1\<rparr>]\<rparr>,
      us_interface = 1\<rparr>"

text \<open>
  C39: the hotplug stream can report a device attached twice: one that appears between the start of
  the watch and the enumeration is in the snapshot and also in the watch's queue, and the queued
  event is passed on although the device is known.
\<close>

theorem hotplug_reports_twice:
  assumes "d \<in> set ds" and "adb_interface (us_info d) = Some n"
  shows "\<exists>d'. watch_stream (Inr ds) [Connected (us_info d)]
       = map Inr (map Attached ds @ [Attached d']) \<and> device_id d' = device_id d
     \<and> \<not> sound {} (map Attached ds @ [Attached d'])"
proof -
  have unsound: "\<not> sound known (map Attached ds @ [Attached d'])"
    if "device_id d' \<in> known \<union> device_id ` set ds" for known d'
    using that by (induction ds arbitrary: known) auto
  let ?d = "\<lparr>us_info = us_info d, us_interface = n\<rparr>"
  have "device_id ?d = device_id d" by (simp add: device_id_def)
  with assms unsound [of ?d "{}"] show ?thesis
    by (intro exI [of _ ?d]) (simp add: watch_stream_def watch_start_def hotplug_all.simps)
qed

theorem hotplug_reports_twice_witness:
  "\<exists>d'. watch_stream (Inr [sample_device 3]) [Connected (us_info (sample_device 3))]
       = map Inr (map Attached [sample_device 3] @ [Attached d']) \<and> device_id d' = device_id (sample_device 3)
     \<and> \<not> sound {} (map Attached [sample_device 3] @ [Attached d'])"
  by (rule hotplug_reports_twice [where n = 1])
    (simp_all add: sample_device_def adb_interface_def is_adb_def ADB_CLASS_def ADB_SUBCLASS_def ADB_PROTOCOL_def)

end
