(* ===== verification/Pubkey.thy ===== *)
theory Pubkey
  imports Wire
begin

section \<open>Host keys and Android's public-key layout\<close>

text \<open>
  \<open>src/auth/pubkey.rs\<close> and \<open>src/auth/mod.rs\<close>: the Newton iteration for \<open>n0inv\<close>, the 524-byte
  structure and its validation, the \<open>adbkey.pub\<close> line, and the host key with its token signature.

  The \<open>rsa\<close> and \<open>base64\<close> crates are parameters, the record \<open>crypto\<close>; a \<open>BigUint\<close> is a natural
  number, with \<open>bits\<close> and \<open>to_bytes_le\<close> written out. What the code relies on is stated by
  \<open>rsa_accepts\<close> (rebuilding a key from its two numbers gives that key) and \<open>base64_codec\<close>.
\<close>

unbundle bit_operations_syntax

record ('sk, 'pk) crypto =
  rsa_n :: "'pk \<Rightarrow> nat"
  rsa_e :: "'pk \<Rightarrow> nat"
  rsa_new :: "nat \<Rightarrow> nat \<Rightarrow> msg_text + 'pk"
  rsa_to_public :: "'sk \<Rightarrow> 'pk"
  rsa_sign :: "'sk \<Rightarrow> bytes \<Rightarrow> msg_text + bytes"
  rsa_verify :: "'pk \<Rightarrow> bytes \<Rightarrow> bytes \<Rightarrow> msg_text + unit"
  pkcs8_from_pem :: "str \<Rightarrow> msg_text + 'sk"
  pkcs1_from_pem :: "str \<Rightarrow> msg_text + 'sk"
  pkcs1_to_pem :: "'sk \<Rightarrow> msg_text + str"
  b64_encode :: "bytes \<Rightarrow> str"
  b64_decode :: "str \<Rightarrow> msg_text + bytes"

definition key_err :: "msg_text + 'a \<Rightarrow> 'a result" where
  "key_err r = (case r of Inl m \<Rightarrow> Inl (Key m) | Inr x \<Rightarrow> Inr x)"

subsection \<open>Big numbers as bytes\<close>

fun big_bits :: "nat \<Rightarrow> nat" where
  "big_bits n = (if n = 0 then 0 else Suc (big_bits (n div 2)))"

declare big_bits.simps [simp del]

definition big_to_le :: "nat \<Rightarrow> bytes" where
  "big_to_le n = le_of_nat (max 1 ((big_bits n + 7) div 8)) n"

lemma big_bits_bound: "n < 2 ^ big_bits n"
proof (induction n rule: big_bits.induct)
  case (1 n)
  show ?case
  proof (cases "n = 0")
    case False
    with 1 have "n div 2 < 2 ^ big_bits (n div 2)" by simp
    then have "n < 2 * 2 ^ big_bits (n div 2)" by linarith
    with False show ?thesis by (subst big_bits.simps) simp
  qed simp
qed

lemma big_bits_le: "n < 2 ^ k \<Longrightarrow> big_bits n \<le> k"
proof (induction n arbitrary: k rule: big_bits.induct)
  case (1 n)
  show ?case
  proof (cases "n = 0")
    case True
    then show ?thesis by (simp add: big_bits.simps)
  next
    case False
    with 1(2) obtain j where k: "k = Suc j" by (cases k) auto
    with 1(2) have "n div 2 < 2 ^ j" by simp
    with 1(1) False have "big_bits (n div 2) \<le> j" by blast
    with False k show ?thesis by (subst big_bits.simps) simp
  qed
qed

lemma big_bits_eq: "big_bits n = Suc k \<longleftrightarrow> 2 ^ k \<le> n \<and> n < 2 ^ Suc k"
proof
  assume "big_bits n = Suc k"
  then show "2 ^ k \<le> n \<and> n < 2 ^ Suc k"
    using big_bits_bound [of n] big_bits_le [of n k] by (metis not_less not_less_eq_eq order_refl)
next
  assume n: "2 ^ k \<le> n \<and> n < 2 ^ Suc k"
  then have "big_bits n \<le> Suc k" by (intro big_bits_le) simp
  moreover have "\<not> big_bits n \<le> k"
  proof
    assume "big_bits n \<le> k"
    then have "(2 :: nat) ^ big_bits n \<le> 2 ^ k" by (simp add: power_increasing)
    with n big_bits_bound [of n] show False by linarith
  qed
  ultimately show "big_bits n = Suc k" by simp
qed

lemma pow256: "(256 :: nat) ^ k = 2 ^ (8 * k)"
  by (simp add: power_mult)

lemma nat_of_big_to_le [simp]: "nat_of_le (big_to_le n) = n"
proof -
  have "n < 2 ^ big_bits n" by (rule big_bits_bound)
  also have "(2 :: nat) ^ big_bits n \<le> 2 ^ (8 * max 1 ((big_bits n + 7) div 8))"
    by (intro power_increasing) auto
  finally show ?thesis by (simp add: big_to_le_def pow256)
qed

lemma length_big_to_le: "length (big_to_le n) \<le> Suc k \<longleftrightarrow> n < 256 ^ Suc k"
proof
  assume "length (big_to_le n) \<le> Suc k"
  then have "(256 :: nat) ^ length (big_to_le n) \<le> 256 ^ Suc k" by (rule power_increasing) simp
  with nat_of_le_bound [of "big_to_le n"] show "n < 256 ^ Suc k" by simp
next
  assume "n < 256 ^ Suc k"
  then have "n < 2 ^ (8 * Suc k)" by (simp only: pow256)
  then have "big_bits n \<le> 8 * Suc k" by (rule big_bits_le)
  then show "length (big_to_le n) \<le> Suc k" by (simp add: big_to_le_def)
qed

subsection \<open>The Montgomery constant\<close>

fun newton :: "nat \<Rightarrow> u32 \<Rightarrow> u32 \<Rightarrow> u32" where
  "newton 0 n0 iv = iv"
| "newton (Suc k) n0 iv = newton k n0 (iv * (2 - n0 * iv))"

definition n0inv :: "u32 \<Rightarrow> u32" where
  "n0inv n0 = 0 - newton 5 n0 n0"

text \<open>One Newton step doubles the number of correct low bits.\<close>

lemma newton_step:
  fixes n x m :: int
  assumes "m dvd n * x - 1"
  shows "m * m dvd n * (x * (2 - n * x)) - 1"
proof -
  have "n * (x * (2 - n * x)) - 1 = - ((n * x - 1) * (n * x - 1))"
    by (simp add: algebra_simps)
  with assms show ?thesis by (metis dvd_minus_iff mult_dvd_mono)
qed

lemma dvd_shift:
  fixes d a i x :: int
  assumes "d dvd a * i - 1" and "d dvd a * (x - i)"
  shows "d dvd a * x - 1"
proof -
  have "a * x - 1 = (a * i - 1) + a * (x - i)" by (simp add: algebra_simps)
  with assms show ?thesis by (metis dvd_add)
qed

lemma dvd_negate:
  fixes d a x y :: int
  assumes "d dvd a * y - 1" and "d dvd a * (x - (- y))"
  shows "d dvd a * x + 1"
proof -
  have "a * x + 1 = a * (x - (- y)) - (a * y - 1)" by (simp add: algebra_simps)
  with assms show ?thesis by (metis dvd_diff)
qed

lemma uint_cong: "(w :: u32) = word_of_int i \<Longrightarrow> 2 ^ 32 dvd uint w - i"
  by (simp add: uint_word_of_int mod_eq_dvd_iff [symmetric])

lemma newton_inverse:
  assumes "2 ^ j dvd uint n0 * uint iv - 1" and "j \<le> 32"
  shows "2 ^ min 32 (j * 2 ^ k) dvd uint n0 * uint (newton k n0 iv) - 1"
  using assms
proof (induction k arbitrary: iv j)
  case 0
  then show ?case by (simp add: min_def)
next
  case (Suc k)
  let ?next = "iv * (2 - n0 * iv)" and ?i = "uint iv * (2 - uint n0 * uint iv)"
  have "?next = word_of_int ?i" by simp
  then have w: "2 ^ 32 dvd uint ?next - ?i" by (rule uint_cong)
  have "(2 :: int) ^ j * 2 ^ j dvd uint n0 * ?i - 1" by (rule newton_step [OF Suc.prems(1)])
  then have "(2 :: int) ^ min 32 (2 * j) dvd uint n0 * ?i - 1"
    by (metis dvd_trans le_imp_power_dvd min.cobounded2 mult_2 power_add)
  moreover have "(2 :: int) ^ min 32 (2 * j) dvd uint n0 * (uint ?next - ?i)"
    by (meson dvd_mult dvd_trans le_imp_power_dvd min.cobounded1 w)
  ultimately have "2 ^ min 32 (2 * j) dvd uint n0 * uint ?next - 1" by (rule dvd_shift)
  from Suc.IH [OF this] have "2 ^ min 32 (min 32 (2 * j) * 2 ^ k)
      dvd uint n0 * uint (newton k n0 ?next) - 1" by simp
  moreover have "min 32 (min 32 (2 * j) * 2 ^ k) = min 32 (j * 2 ^ Suc k)"
  proof (cases "2 * j \<le> 32")
    case False
    have "j * 1 \<le> j * 2 ^ k" by (intro mult_le_mono) simp_all
    with False have "16 \<le> j * 2 ^ k" by linarith
    with False show ?thesis by (simp add: min_def)
  qed (simp add: min_def)
  ultimately show ?case by simp
qed

lemma odd_square_8: "odd (n :: int) \<Longrightarrow> 2 ^ 3 dvd n * n - 1"
proof -
  assume "odd n"
  then obtain k where n: "n = 2 * k + 1" by (auto elim: oddE)
  have "even (k * (k + 1))" by simp
  then obtain j where "k * (k + 1) = 2 * j" by (rule evenE)
  then have "n * n - 1 = 8 * j" by (simp add: n algebra_simps)
  then show ?thesis by simp
qed

lemma n0inv_int:
  assumes "odd (uint n0)"
  shows "2 ^ 32 dvd uint n0 * uint (n0inv n0) + 1"
proof (rule dvd_negate)
  show "2 ^ 32 dvd uint n0 * uint (newton 5 n0 n0) - 1"
    using newton_inverse [of 3 n0 n0 5] odd_square_8 [OF assms] by simp
  have "n0inv n0 = word_of_int (- uint (newton 5 n0 n0))"
    by (simp add: n0inv_def)
  then show "2 ^ 32 dvd uint n0 * (uint (n0inv n0) - - uint (newton 5 n0 n0))"
    by (intro dvd_mult uint_cong)
qed

subsection \<open>The 524-byte structure\<close>

definition TOKEN_LEN :: nat where "TOKEN_LEN = 20"
definition KEY_BITS :: nat where "KEY_BITS = 2048"
definition MODULUS_BYTES :: nat where "MODULUS_BYTES = 256"
definition MODULUS_WORDS :: u32 where "MODULUS_WORDS = 64"
definition ENCODED_LEN :: nat where
  "ENCODED_LEN = 4 + 4 + MODULUS_BYTES + MODULUS_BYTES + 4"

definition to_le_padded :: "nat \<Rightarrow> bytes result" where
  "to_le_padded value =
     (let bs = big_to_le value in
      if MODULUS_BYTES < length bs
      then Inl (Key (Fmt ''value needs {} bytes, limit is {MODULUS_BYTES}''
                  [Num (int (length bs)), Num (int MODULUS_BYTES)]))
      else Inr (copy_into 0 bs (replicate MODULUS_BYTES 0)))"

definition encode :: "('sk, 'pk) crypto \<Rightarrow> 'pk \<Rightarrow> bytes result" where
  "encode C key =
     (let n = rsa_n C key in
      if big_bits n \<noteq> MODULUS_BYTES * 8
      then Inl (Key (Fmt ''Android requires a 2048-bit modulus, got {} bits'' [Num (int (big_bits n))]))
      else if (case big_to_le n of [] \<Rightarrow> True | b # _ \<Rightarrow> b AND 1 = 0)
      then Inl (Key (Lit ''modulus must be odd''))
      else case to_le_padded n of Inl e \<Rightarrow> Inl e | Inr n_le \<Rightarrow>
        (let n0 = u32_from_le (take 4 n_le); r = 1 * 2 ^ (MODULUS_BYTES * 8) in
         case to_le_padded ((r * r) mod n) of Inl e \<Rightarrow> Inl e | Inr rr \<Rightarrow>
           (let e_bytes = big_to_le (rsa_e C key) in
            if 4 < length e_bytes
            then Inl (Key (Lit ''public exponent does not fit in 32 bits''))
            else let e_le = copy_into 0 e_bytes (replicate 4 0); exponent = u32_from_le e_le in
              Inr (u32_to_le MODULUS_WORDS @ u32_to_le (n0inv n0) @ n_le @ rr @ u32_to_le exponent))))"

definition decode :: "('sk, 'pk) crypto \<Rightarrow> bytes \<Rightarrow> 'pk result" where
  "decode C bs =
     (if length bs \<noteq> ENCODED_LEN
      then Inl (Key (Fmt ''encoded key must be {ENCODED_LEN} bytes, got {}''
             [Num (int ENCODED_LEN), Num (int (length bs))]))
      else let words = u32_from_le (take 4 bs) in
        if words \<noteq> MODULUS_WORDS
        then Inl (Key (Fmt ''unexpected modulus length {words} words'' [Num (uint words)]))
        else let n = nat_of_le (take MODULUS_BYTES (drop 8 bs));
                 e_at = 8 + 2 * MODULUS_BYTES;
                 e = u32_from_le (take 4 (drop e_at bs)) in
          case key_err (rsa_new C n (unat e)) of Inl e \<Rightarrow> Inl e | Inr key \<Rightarrow>
            (case encode C key of Inl e \<Rightarrow> Inl e | Inr expected \<Rightarrow>
               if expected \<noteq> bs then Inl (Key (Lit ''n0inv or rr do not match the modulus''))
               else Inr key))"

definition encode_line :: "('sk, 'pk) crypto \<Rightarrow> 'pk \<Rightarrow> str \<Rightarrow> str result" where
  "encode_line C key comment =
     (case encode C key of Inl e \<Rightarrow> Inl e | Inr bs \<Rightarrow> Inr (b64_encode C bs @ '' '' @ comment))"

definition base64_err :: "msg_text \<Rightarrow> error" where
  [simp]: "base64_err m = Key (Fmt ''base64: {e}'' (text_args m))"

definition decode_line :: "('sk, 'pk) crypto \<Rightarrow> str \<Rightarrow> 'pk result" where
  "decode_line C line =
     (case split_whitespace line of
        [] \<Rightarrow> Inl (Key (Lit ''empty key line''))
      | b64 # _ \<Rightarrow>
          (case b64_decode C b64 of
             Inl m \<Rightarrow> Inl (base64_err m)
           | Inr bs \<Rightarrow> decode C bs))"

text \<open>What the code relies on of the two crates.\<close>

definition rsa_accepts :: "('sk, 'pk) crypto \<Rightarrow> 'pk \<Rightarrow> bool" where
  "rsa_accepts C key \<longleftrightarrow> rsa_new C (rsa_n C key) (rsa_e C key) = Inr key"

definition base64_codec :: "('sk, 'pk) crypto \<Rightarrow> bool" where
  "base64_codec C \<longleftrightarrow> (\<forall>bs. b64_decode C (b64_encode C bs) = Inr bs)
     \<and> (\<forall>bs. set (b64_encode C bs) \<subseteq>
          set ''ABCDEFGHIJKLMNOPQRSTUVWXYZabcdefghijklmnopqrstuvwxyz0123456789+/='')
     \<and> (\<forall>bs. bs \<noteq> [] \<longrightarrow> b64_encode C bs \<noteq> [])"

lemma to_le_padded_ok:
  "n < 256 ^ MODULUS_BYTES \<Longrightarrow>
   to_le_padded n = Inr (big_to_le n @ replicate (MODULUS_BYTES - length (big_to_le n)) 0)
   \<and> length (big_to_le n) \<le> MODULUS_BYTES"
  using length_big_to_le [of n 255]
  by (simp add: to_le_padded_def MODULUS_BYTES_def copy_into_def Let_def)

lemma to_le_padded_nat:
  "to_le_padded n = Inr bs \<Longrightarrow> nat_of_le bs = n \<and> length bs = MODULUS_BYTES"
  by (auto simp: to_le_padded_def copy_into_def nat_of_le_append Let_def split: if_splits)

definition MONTGOMERY_R :: nat where "MONTGOMERY_R = 2 ^ (MODULUS_BYTES * 8)"

lemma pow_2048: "256 ^ MODULUS_BYTES = MONTGOMERY_R"
  by (simp only: pow256 MONTGOMERY_R_def mult.commute)

text \<open>When \<open>encode\<close> succeeds, and what its four fields hold.\<close>

definition encodable :: "('sk, 'pk) crypto \<Rightarrow> 'pk \<Rightarrow> bool" where
  "encodable C key \<longleftrightarrow> big_bits (rsa_n C key) = KEY_BITS \<and> odd (rsa_n C key) \<and> rsa_e C key < 2 ^ 32"

lemma u8_odd: "(b :: u8) AND 1 = 0 \<longleftrightarrow> even (unat b)"
proof -
  have "bit (unat b) 0 \<longleftrightarrow> bit b 0" by (simp only: bit_unsigned_iff) simp
  then have "even (unat b) \<longleftrightarrow> even b" by (simp only: bit_0) blast
  then show ?thesis by (simp only: and_one_eq even_iff_mod_2_eq_zero)
qed

lemma big_to_le_first: "big_to_le n = b # bs \<Longrightarrow> even (unat b) \<longleftrightarrow> even n"
  using nat_of_big_to_le [of n] by auto

lemma word_of_nat_mod_256:
  "n = a + 4294967296 * b \<Longrightarrow> (word_of_nat a :: u32) = word_of_nat n"
  by (simp only: word_unat_eq_iff unat_of_nat) simp

lemma bits_2048: "big_bits n = KEY_BITS \<Longrightarrow> n < MONTGOMERY_R"
  using big_bits_bound [of n] by (simp add: MONTGOMERY_R_def KEY_BITS_def MODULUS_BYTES_def)

lemma key_bits: "MODULUS_BYTES * 8 = KEY_BITS"
  by (simp add: MODULUS_BYTES_def KEY_BITS_def)

lemma encode_cases:
  "encode C key =
     (if big_bits (rsa_n C key) \<noteq> KEY_BITS
      then Inl (Key (Fmt ''Android requires a 2048-bit modulus, got {} bits''
             [Num (int (big_bits (rsa_n C key)))]))
      else if even (rsa_n C key) then Inl (Key (Lit ''modulus must be odd''))
      else if 2 ^ 32 \<le> rsa_e C key then Inl (Key (Lit ''public exponent does not fit in 32 bits''))
      else Inr (u32_to_le MODULUS_WORDS @ u32_to_le (n0inv (word_of_nat (rsa_n C key)))
             @ le_of_nat MODULUS_BYTES (rsa_n C key)
             @ le_of_nat MODULUS_BYTES (MONTGOMERY_R * MONTGOMERY_R mod rsa_n C key)
             @ u32_to_le (word_of_nat (rsa_e C key))))"
proof -
  let ?n = "rsa_n C key" and ?e = "rsa_e C key"
  have odd: "(case big_to_le ?n of [] \<Rightarrow> True | b # _ \<Rightarrow> b AND 1 = 0) \<longleftrightarrow> even ?n"
    using nat_of_big_to_le [of ?n]
    by (cases "big_to_le ?n") (auto simp: u8_odd dest: big_to_le_first)
  have e: "4 < length (big_to_le ?e) \<longleftrightarrow> 2 ^ 32 \<le> ?e"
    using length_big_to_le [of ?e 3] by auto
  show ?thesis
  proof (cases "big_bits ?n = KEY_BITS \<and> odd ?n")
    case False
    with odd show ?thesis by (auto simp: encode_def Let_def key_bits)
  next
    case True
    define rr where "rr = MONTGOMERY_R * MONTGOMERY_R mod ?n"
    have lt: "?n < 256 ^ MODULUS_BYTES" using True bits_2048 by (simp add: pow_2048)
    have "rr < ?n" unfolding rr_def using True by (simp add: odd_pos)
    then have rr: "rr < 256 ^ MODULUS_BYTES" using lt by (rule less_trans)
    obtain nb where nb: "to_le_padded ?n = Inr nb" using to_le_padded_ok [OF lt] by blast
    obtain rb where rb: "to_le_padded rr = Inr rb" using to_le_padded_ok [OF rr] by blast
    have nb_eq: "nb = le_of_nat MODULUS_BYTES ?n"
      using to_le_padded_nat [OF nb] le_of_nat_of_le [of nb] by metis
    have rb_eq: "rb = le_of_nat MODULUS_BYTES rr"
      using to_le_padded_nat [OF rb] le_of_nat_of_le [of rb] by metis
    have "nat_of_le nb = nat_of_le (take 4 nb) + 4294967296 * nat_of_le (drop 4 nb)"
      using nat_of_le_append [of "take 4 nb" "drop 4 nb"] to_le_padded_nat [OF nb]
      by (simp add: MODULUS_BYTES_def)
    then have n0: "u32_from_le (take 4 nb) = word_of_nat ?n"
      unfolding u32_from_le_def using to_le_padded_nat [OF nb]
      by (intro word_of_nat_mod_256) simp
    have ex: "\<not> 2 ^ 32 \<le> ?e \<Longrightarrow>
        u32_from_le (copy_into 0 (big_to_le ?e) (replicate 4 0)) = word_of_nat ?e"
      by (simp add: u32_from_le_def copy_into_def nat_of_le_append)
    show ?thesis
      unfolding encode_def Let_def mult_1 MONTGOMERY_R_def [symmetric] rr_def [symmetric]
      using True odd e nb rb
      by (simp add: nb_eq rb_eq n0 [unfolded nb_eq] ex key_bits)
  qed
qed

lemma encode_encodable:
  "encodable C key \<Longrightarrow>
   encode C key = Inr (u32_to_le MODULUS_WORDS @ u32_to_le (n0inv (word_of_nat (rsa_n C key)))
             @ le_of_nat MODULUS_BYTES (rsa_n C key)
             @ le_of_nat MODULUS_BYTES (MONTGOMERY_R * MONTGOMERY_R mod rsa_n C key)
             @ u32_to_le (word_of_nat (rsa_e C key)))"
  by (simp add: encode_cases encodable_def)

lemma encode_Inr_encodable: "encode C key = Inr bs \<Longrightarrow> encodable C key"
  by (auto simp: encode_cases encodable_def split: if_splits)

lemma layout_fields:
  assumes "length a = 4" and "length b = 4" and "length c = MODULUS_BYTES"
    and "length d = MODULUS_BYTES" and "length e = 4"
  shows "length (a @ b @ c @ d @ e) = ENCODED_LEN"
    and "take 4 (a @ b @ c @ d @ e) = a"
    and "take 4 (drop 4 (a @ b @ c @ d @ e)) = b"
    and "take MODULUS_BYTES (drop 8 (a @ b @ c @ d @ e)) = c"
    and "take MODULUS_BYTES (drop (8 + MODULUS_BYTES) (a @ b @ c @ d @ e)) = d"
    and "take 4 (drop (8 + 2 * MODULUS_BYTES) (a @ b @ c @ d @ e)) = e"
  using assms by (simp_all add: ENCODED_LEN_def)

lemma decode_Inr_encode: "decode C bs = Inr key \<Longrightarrow> encode C key = Inr bs"
  by (auto simp: decode_def Let_def key_err_def split: if_splits sum.splits)

lemma decode_encode:
  assumes "encode C key = Inr bs" and "rsa_accepts C key"
  shows "decode C bs = Inr key"
proof -
  have enc: "encodable C key" by (rule encode_Inr_encodable [OF assms(1)])
  let ?a = "u32_to_le MODULUS_WORDS" and ?b = "u32_to_le (n0inv (word_of_nat (rsa_n C key)))"
    and ?c = "le_of_nat MODULUS_BYTES (rsa_n C key)"
    and ?d = "le_of_nat MODULUS_BYTES (MONTGOMERY_R * MONTGOMERY_R mod rsa_n C key)"
    and ?e = "u32_to_le (word_of_nat (rsa_e C key))"
  have bs: "bs = ?a @ ?b @ ?c @ ?d @ ?e"
    using encode_encodable [OF enc] assms(1) by simp
  note fields = layout_fields [OF length_u32_to_le length_u32_to_le length_le_of_nat
      length_le_of_nat length_u32_to_le, of MODULUS_WORDS
      "n0inv (word_of_nat (rsa_n C key))" "rsa_n C key" "MONTGOMERY_R * MONTGOMERY_R mod rsa_n C key"
      "word_of_nat (rsa_e C key)", folded bs]
  have "nat_of_le ?c = rsa_n C key"
    using enc bits_2048 by (simp add: pow_2048 encodable_def)
  moreover have "unat (u32_from_le ?e) = rsa_e C key"
    using enc by (simp add: encodable_def unat_u32_of_nat)
  moreover have "rsa_new C (rsa_n C key) (rsa_e C key) = Inr key"
    using assms(2) by (simp add: rsa_accepts_def)
  ultimately show ?thesis
    unfolding decode_def Let_def fields by (simp add: assms(1) key_err_def)
qed

text \<open>The fields of an encoded key, read back as numbers.\<close>

lemma encode_fields:
  assumes "encode C key = Inr bs"
  shows "length bs = ENCODED_LEN" and "u32_from_le (take 4 bs) = MODULUS_WORDS"
    and "nat_of_le (take 4 (drop 4 bs)) = unat (n0inv (word_of_nat (rsa_n C key)))"
    and "nat_of_le (take MODULUS_BYTES (drop 8 bs)) = rsa_n C key"
    and "nat_of_le (take MODULUS_BYTES (drop (8 + MODULUS_BYTES) bs)) = MONTGOMERY_R * MONTGOMERY_R mod rsa_n C key"
    and "nat_of_le (take 4 (drop (8 + 2 * MODULUS_BYTES) bs)) = rsa_e C key"
proof -
  have enc: "encodable C key" by (rule encode_Inr_encodable [OF assms])
  define rr where "rr = MONTGOMERY_R * MONTGOMERY_R mod rsa_n C key"
  let ?w = "word_of_nat (rsa_n C key) :: u32"
  have bs: "bs = u32_to_le MODULUS_WORDS @ u32_to_le (n0inv ?w)
      @ le_of_nat MODULUS_BYTES (rsa_n C key) @ le_of_nat MODULUS_BYTES rr
      @ u32_to_le (word_of_nat (rsa_e C key))"
    using encode_encodable [OF enc] assms by (simp add: rr_def)
  note fields = layout_fields [OF length_u32_to_le length_u32_to_le length_le_of_nat
      length_le_of_nat length_u32_to_le, of MODULUS_WORDS "n0inv ?w" "rsa_n C key" rr
      "word_of_nat (rsa_e C key)", folded bs]
  have n: "rsa_n C key < 256 ^ MODULUS_BYTES" and pos: "0 < rsa_n C key"
    using enc bits_2048 by (simp_all add: encodable_def pow_2048 odd_pos)
  have "rr < rsa_n C key" unfolding rr_def using pos by (rule mod_less_divisor)
  then have rr: "rr < 256 ^ MODULUS_BYTES" using n by (rule less_trans)
  have word: "nat_of_le (u32_to_le w) = unat w" for w
    using unat_u32_bound [of w] by (simp add: u32_to_le_def)
  show "length bs = ENCODED_LEN" by (rule fields)
  show "u32_from_le (take 4 bs) = MODULUS_WORDS" unfolding fields by simp
  show "nat_of_le (take 4 (drop 4 bs)) = unat (n0inv ?w)" unfolding fields by (rule word)
  show "nat_of_le (take MODULUS_BYTES (drop 8 bs)) = rsa_n C key"
    unfolding fields nat_of_le_of_nat using n by (rule mod_less)
  show "nat_of_le (take MODULUS_BYTES (drop (8 + MODULUS_BYTES) bs)) = MONTGOMERY_R * MONTGOMERY_R mod rsa_n C key"
    unfolding fields nat_of_le_of_nat rr_def [symmetric] using rr by (rule mod_less)
  show "nat_of_le (take 4 (drop (8 + 2 * MODULUS_BYTES) bs)) = rsa_e C key"
    unfolding fields word using enc by (intro unat_u32_of_nat) (simp add: encodable_def)
qed

lemma montgomery_field:
  assumes "encode C key = Inr bs"
  shows "2 ^ 32 dvd int (rsa_n C key) * int (nat_of_le (take 4 (drop 4 bs))) + 1"
proof -
  let ?n = "rsa_n C key" and ?w = "word_of_nat (rsa_n C key) :: u32"
  have "odd ?n" using encode_Inr_encodable [OF assms] by (simp add: encodable_def)
  then have "odd (uint ?w)"
    using dvd_mod_iff [of 2 4294967296 ?n] by (simp add: uint_nat unat_of_nat)
  then have step: "2 ^ 32 dvd uint ?w * uint (n0inv ?w) + 1" by (rule n0inv_int)
  have "2 ^ 32 dvd int ?n - uint ?w"
    by (simp add: uint_nat unat_of_nat zmod_int mod_eq_dvd_iff [symmetric])
  then have "2 ^ 32 dvd (int ?n - uint ?w) * uint (n0inv ?w)" by (rule dvd_mult2)
  from dvd_add [OF this step] show ?thesis
    by (simp only: encode_fields(3) [OF assms] uint_nat [symmetric] left_diff_distrib)
      (simp add: algebra_simps)
qed

subsection \<open>The host key\<close>


record ('sk, 'pk) host_key =
  private_key :: 'sk
  public_key :: 'pk
  comment :: str

definition from_private :: "('sk, 'pk) crypto \<Rightarrow> 'sk \<Rightarrow> str \<Rightarrow> ('sk, 'pk) host_key result" where
  "from_private C sk label =
     (let pub = rsa_to_public C sk in
      case encode C pub of Inl e \<Rightarrow> Inl e
      | Inr _ \<Rightarrow> Inr \<lparr>private_key = sk, public_key = pub, comment = label\<rparr>)"

text \<open>\<open>HostKey::generate\<close>: the outcome of \<open>RsaPrivateKey::new\<close> with \<open>KEY_BITS\<close> is an argument.\<close>

definition generate :: "('sk, 'pk) crypto \<Rightarrow> (nat \<Rightarrow> msg_text + 'sk) \<Rightarrow> str \<Rightarrow> ('sk, 'pk) host_key result" where
  "generate C new_key label =
     (case key_err (new_key KEY_BITS) of Inl e \<Rightarrow> Inl e | Inr sk \<Rightarrow> from_private C sk label)"

definition from_pem :: "('sk, 'pk) crypto \<Rightarrow> str \<Rightarrow> str \<Rightarrow> ('sk, 'pk) host_key result" where
  "from_pem C pem label =
     (case pkcs8_from_pem C pem of
        Inr key \<Rightarrow> from_private C key label
      | Inl e8 \<Rightarrow>
          (case pkcs1_from_pem C pem of
             Inr key \<Rightarrow> from_private C key label
           | Inl e1 \<Rightarrow> Inl (Key (Fmt ''not PKCS#8 ({pkcs8_err}) nor PKCS#1 ({pkcs1_err})''
                        (text_args e8 @ text_args e1)))))"

definition to_pem :: "('sk, 'pk) crypto \<Rightarrow> ('sk, 'pk) host_key \<Rightarrow> str result" where
  "to_pem C k = key_err (pkcs1_to_pem C (private_key k))"

definition public_key_line :: "('sk, 'pk) crypto \<Rightarrow> ('sk, 'pk) host_key \<Rightarrow> str result" where
  "public_key_line C k = encode_line C (public_key k) (comment k)"

definition public_key_payload :: "('sk, 'pk) crypto \<Rightarrow> ('sk, 'pk) host_key \<Rightarrow> bytes result" where
  "public_key_payload C k =
     (case public_key_line C k of Inl e \<Rightarrow> Inl e | Inr line \<Rightarrow> Inr (as_bytes line @ [0]))"

definition bad_token :: "bytes \<Rightarrow> error" where
  "bad_token token = Protocol (Fmt ''auth token must be {TOKEN_LEN} bytes, got {}''
     [Num (int TOKEN_LEN), Num (int (length token))])"

definition sign_token :: "('sk, 'pk) crypto \<Rightarrow> ('sk, 'pk) host_key \<Rightarrow> bytes \<Rightarrow> bytes result" where
  "sign_token C k token =
     (if length token \<noteq> TOKEN_LEN then Inl (bad_token token)
      else key_err (rsa_sign C (private_key k) token))"

definition verify_token :: "('sk, 'pk) crypto \<Rightarrow> 'pk \<Rightarrow> bytes \<Rightarrow> bytes \<Rightarrow> unit result" where
  "verify_token C key token signature =
     (if length token \<noteq> TOKEN_LEN then Inl (bad_token token)
      else case rsa_verify C key token signature of
             Inl m \<Rightarrow> Inl (Key (Fmt ''signature rejected: {e}'' (text_args m)))
           | Inr u \<Rightarrow> Inr u)"

lemma from_private_line:
  "from_private C sk label = Inr k \<Longrightarrow>
   \<exists>bs. encode C (rsa_to_public C sk) = Inr bs
      \<and> public_key_line C k = Inr (b64_encode C bs @ '' '' @ label)"
  by (auto simp: from_private_def public_key_line_def encode_line_def Let_def split: sum.splits)

subsection \<open>A concrete instance of the parameters\<close>

text \<open>
  Keys are the two numbers themselves, the PEM parsers refuse everything, and each byte is
  written as two letters; enough to run the definitions on concrete input.
\<close>

definition nibble_char :: "nat \<Rightarrow> char" where
  "nibble_char n = char_of (65 + n)"

fun letters_of :: "bytes \<Rightarrow> str" where
  "letters_of [] = []"
| "letters_of (b # bs) = nibble_char (unat b div 16) # nibble_char (unat b mod 16) # letters_of bs"

fun of_letters :: "str \<Rightarrow> msg_text + bytes" where
  "of_letters [] = Inr []"
| "of_letters [c] = Inl (Lit ''odd length'')"
| "of_letters (c # d # cs) =
     (case of_letters cs of Inl m \<Rightarrow> Inl m
      | Inr bs \<Rightarrow> Inr (word_of_nat ((of_char c - 65) * 16 + (of_char d - 65)) # bs))"

definition sample_crypto :: "(nat \<times> nat, nat \<times> nat) crypto" where
  "sample_crypto =
     \<lparr>rsa_n = fst, rsa_e = snd, rsa_new = (\<lambda>n e. Inr (n, e)), rsa_to_public = id,
      rsa_sign = (\<lambda>k t. Inr t), rsa_verify = (\<lambda>k t s. if s = t then Inr () else Inl (Lit ''no'')),
      pkcs8_from_pem = (\<lambda>p. Inl (Lit ''no'')), pkcs1_from_pem = (\<lambda>p. Inl (Lit ''no'')),
      pkcs1_to_pem = (\<lambda>k. Inl (Lit ''no'')), b64_encode = letters_of, b64_decode = of_letters\<rparr>"

definition sample_key :: "nat \<times> nat" where
  "sample_key = (2 ^ 2047 + 1, 65537)"

lemma of_char_nibble: "n < 16 \<Longrightarrow> of_char (nibble_char n) = 65 + n"
  by (simp add: nibble_char_def)

lemma of_letters_of: "of_letters (letters_of bs) = Inr bs"
proof (induction bs)
  case (Cons b bs)
  have b: "unat b < 256" using unsigned_less [of b, where ?'a = nat] by simp
  then have "unat b div 16 < 16" and "unat b mod 16 < 16" by simp_all
  with Cons show ?case
    by (simp add: of_char_nibble)
qed simp

lemma letters_set: "set (letters_of bs) \<subseteq> nibble_char ` {..<16}"
proof (induction bs)
  case (Cons b bs)
  have "unat b < 256" using unsigned_less [of b, where ?'a = nat] by simp
  then have "unat b div 16 < 16" by simp
  with Cons show ?case by auto
qed simp

lemma nibble_chars:
  "nibble_char ` {..<16} \<subseteq> set ''ABCDEFGHIJKLMNOPQRSTUVWXYZabcdefghijklmnopqrstuvwxyz0123456789+/=''"
proof -
  have "set (map nibble_char [0..<16])
      \<subseteq> set ''ABCDEFGHIJKLMNOPQRSTUVWXYZabcdefghijklmnopqrstuvwxyz0123456789+/=''"
    by code_simp
  then show ?thesis by (simp add: atLeast0LessThan)
qed

lemma sample_base64: "base64_codec sample_crypto"
  unfolding base64_codec_def
proof (intro conjI allI impI)
  fix bs
  show "b64_decode sample_crypto (b64_encode sample_crypto bs) = Inr bs"
    by (simp add: sample_crypto_def of_letters_of)
  show "set (b64_encode sample_crypto bs) \<subseteq>
      set ''ABCDEFGHIJKLMNOPQRSTUVWXYZabcdefghijklmnopqrstuvwxyz0123456789+/=''"
    using letters_set nibble_chars by (simp only: sample_crypto_def crypto.simps) blast
  assume "bs \<noteq> []"
  then show "b64_encode sample_crypto bs \<noteq> []" by (cases bs) (simp_all add: sample_crypto_def)
qed

lemma sample_encodable: "encodable sample_crypto sample_key"
proof -
  have "even ((2 :: nat) ^ 2047)" by (rule dvd_power) simp
  then have "odd ((2 :: nat) ^ 2047 + 1)" by (simp only: even_plus_one_iff not_not)
  moreover have "big_bits (2 ^ 2047 + 1) = Suc 2047" unfolding big_bits_eq by simp
  ultimately show ?thesis
    unfolding encodable_def sample_crypto_def sample_key_def crypto.simps fst_conv snd_conv
    by (simp add: KEY_BITS_def)
qed

lemma sample_accepts: "rsa_accepts sample_crypto sample_key"
  by (simp add: rsa_accepts_def sample_crypto_def)

lemma base64_plain: "base64_codec C \<Longrightarrow> \<forall>c \<in> set (b64_encode C bs). plain_char c"
proof -
  have "\<forall>c \<in> set ''ABCDEFGHIJKLMNOPQRSTUVWXYZabcdefghijklmnopqrstuvwxyz0123456789+/=''. plain_char c"
    by (simp add: plain_char_def ws_chars_def)
  then show "base64_codec C \<Longrightarrow> ?thesis" unfolding base64_codec_def by blast
qed

subsection \<open>Properties\<close>

text \<open>
  For every odd word the five Newton steps give the Montgomery constant: \<open>n0 * n0inv n0\<close>
  is \<open>-1\<close> modulo \<open>2 ^ 32\<close>.
\<close>

lemma n0inv_is_negative_inverse:
  assumes "odd (uint n0)"
  shows "n0 * n0inv n0 = - 1"
proof -
  have "2 ^ 32 dvd uint n0 * uint (n0inv n0) + 1" by (rule n0inv_int [OF assms])
  then have "word_of_int (uint n0 * uint (n0inv n0) + 1) = (0 :: u32)"
    by (simp only: word_of_int_eq_0_iff) simp
  then have "n0 * n0inv n0 + 1 = 0" by simp
  then show ?thesis by (simp add: eq_neg_iff_add_eq_0)
qed

text \<open>
  C28: the structure of an encodable key is 524 bytes: 64 words, a constant that is the negative
  inverse of the modulus modulo \<open>2 ^ 32\<close>, the modulus, \<open>R\<^sup>2 mod n\<close> for \<open>R = 2 ^ 2048\<close>, and the
  exponent. Encoding succeeds exactly for odd 2048-bit moduli with a 32-bit exponent.
\<close>

theorem encode_layout:
  "(\<exists>bs. encode C key = Inr bs \<and> length bs = ENCODED_LEN \<and> u32_from_le (take 4 bs) = 64
      \<and> 2 ^ 32 dvd int (rsa_n C key) * int (nat_of_le (take 4 (drop 4 bs))) + 1
      \<and> nat_of_le (take MODULUS_BYTES (drop 8 bs)) = rsa_n C key
      \<and> nat_of_le (take MODULUS_BYTES (drop (8 + MODULUS_BYTES) bs)) = MONTGOMERY_R * MONTGOMERY_R mod rsa_n C key
      \<and> nat_of_le (take 4 (drop (8 + 2 * MODULUS_BYTES) bs)) = rsa_e C key)
   \<longleftrightarrow> encodable C key" (is "(\<exists>bs. ?layout bs) \<longleftrightarrow> _")
proof
  assume "\<exists>bs. ?layout bs"
  then show "encodable C key" by (elim exE conjE) (rule encode_Inr_encodable)
next
  assume "encodable C key"
  from encode_encodable [OF this] obtain bs where bs: "encode C key = Inr bs" by blast
  have "?layout bs"
    using bs encode_fields [OF bs] montgomery_field [OF bs] MODULUS_WORDS_def by (intro conjI) simp_all
  then show "\<exists>bs. ?layout bs" ..
qed

text \<open>
  C27: a key that was encoded decodes to itself, and a structure that decodes is the encoding of
  its key: wrong lengths, a wrong word count and altered \<open>n0inv\<close> or \<open>rr\<close> fields are all refused.
\<close>

theorem pubkey_roundtrip:
  assumes "rsa_accepts C key"
  shows "encode C key = Inr bs \<longleftrightarrow> decode C bs = Inr key"
  by (rule iffI) (rule decode_encode [OF _ assms], assumption, rule decode_Inr_encode)

theorem pubkey_roundtrip_witness:
  "\<exists>bs. encode sample_crypto sample_key = Inr bs \<and> decode sample_crypto bs = Inr sample_key"
proof -
  obtain bs where bs: "encode sample_crypto sample_key = Inr bs"
    using encode_encodable [OF sample_encodable] by (rule that)
  moreover have "decode sample_crypto bs = Inr sample_key"
    using pubkey_roundtrip [OF sample_accepts] bs by (rule iffD1)
  ultimately show ?thesis by (intro exI conjI)
qed

text \<open>
  The \<open>adbkey.pub\<close> line of an encodable key, with any comment, is parsed back to the key,
  and what goes to the device is that line with one NUL after it.
\<close>

lemma pubkey_line_roundtrip:
  assumes "base64_codec C" and "rsa_accepts C (public_key k)" and "public_key_line C k = Inr line"
  shows "decode_line C line = Inr (public_key k)
         \<and> public_key_payload C k = Inr (as_bytes line @ [0])"
proof -
  obtain bs where bs: "encode C (public_key k) = Inr bs"
    and line: "line = b64_encode C bs @ '' '' @ comment k"
    using assms(3) by (auto simp: public_key_line_def encode_line_def split: sum.splits)
  have "bs \<noteq> []" using encode_fields(1) [OF bs] by (auto simp: ENCODED_LEN_def)
  then have "b64_encode C bs \<noteq> []" and "b64_decode C (b64_encode C bs) = Inr bs"
    using assms(1) by (simp_all add: base64_codec_def)
  then have "decode_line C line = Inr (public_key k)"
    using split_whitespace_word(2) [OF base64_plain [OF assms(1)]] decode_encode [OF bs assms(2)]
    by (simp add: decode_line_def line)
  with assms(3) show ?thesis by (simp add: public_key_payload_def)
qed

end
