(* ===== verification/BTree.thy ===== *)
theory BTree
  imports Prelude "HOL-Library.List_Lexorder" "HOL-Library.Char_ord"
begin

section \<open>Ordered maps\<close>

text \<open>
  Rust's \<open>BTreeMap\<close> as the list of its entries in key order; strings compare byte by byte, as
  \<open>str\<close> does. \<open>bt_insert\<close> is \<open>insert\<close>, \<open>map_of\<close> is \<open>get\<close>, and iterating over the map is the
  list itself. The lemmas in \<open>bt_simps\<close> relate insertion to the finite map and keep the order.
\<close>

named_theorems bt_simps \<open>ordered maps\<close>

type_synonym ('k, 'v) btree = "('k \<times> 'v) list"

fun bt_insert :: "'k::linorder \<Rightarrow> 'v \<Rightarrow> ('k, 'v) btree \<Rightarrow> ('k, 'v) btree" where
  "bt_insert k v [] = [(k, v)]"
| "bt_insert k v ((k', v') # m) =
     (if k < k' then (k, v) # (k', v') # m
      else if k = k' then (k, v) # m
      else (k', v') # bt_insert k v m)"

definition bt_wf :: "('k::linorder, 'v) btree \<Rightarrow> bool" where
  "bt_wf m \<longleftrightarrow> sorted_wrt (<) (map fst m)"

lemma bt_wf_Nil [simp, bt_simps]: "bt_wf []"
  by (simp add: bt_wf_def)

lemma bt_insert_lookup [simp, bt_simps]: "map_of (bt_insert k v m) = (map_of m)(k \<mapsto> v)"
  by (induction m) (auto simp: fun_eq_iff)

lemma bt_insert_keys [simp, bt_simps]: "fst ` set (bt_insert k v m) = insert k (fst ` set m)"
  by (induction k v m rule: bt_insert.induct) (simp_all add: insert_commute)

lemma bt_insert_wf [simp, bt_simps]: "bt_wf m \<Longrightarrow> bt_wf (bt_insert k v m)"
proof (induction m)
  case Nil
  then show ?case by (simp add: bt_wf_def)
next
  case (Cons kv m)
  obtain k' v' where kv: "kv = (k', v')" by (cases kv)
  from Cons.prems have lt: "\<forall>x \<in> fst ` set m. k' < x" and wf: "bt_wf m"
    by (auto simp: bt_wf_def kv)
  consider "k < k'" | "k = k'" | "k' < k" by (rule linorder_cases)
  then show ?case
  proof cases
    case 1
    with Cons.prems lt show ?thesis by (auto simp: bt_wf_def kv)
  next
    case 2
    with Cons.prems show ?thesis by (simp add: bt_wf_def kv)
  next
    case 3
    have "\<forall>x \<in> fst ` set (bt_insert k v m). k' < x" using lt 3 by simp
    with 3 Cons.IH [OF wf] show ?thesis by (auto simp: bt_wf_def kv)
  qed
qed

text \<open>Inserting entries in key order appends them.\<close>

lemma bt_insert_last: "\<forall>x \<in> fst ` set m. x < k \<Longrightarrow> bt_insert k v m = m @ [(k, v)]"
  by (induction m) auto

lemma bt_foldl_insert:
  "bt_wf (m @ ps) \<Longrightarrow> foldl (\<lambda>acc (k, v). bt_insert k v acc) m ps = m @ ps"
proof (induction ps arbitrary: m)
  case Nil
  then show ?case by simp
next
  case (Cons kv ps)
  obtain k v where kv: "kv = (k, v)" by (cases kv)
  from Cons.prems have "\<forall>x \<in> fst ` set m. x < k"
    by (auto simp: bt_wf_def kv sorted_wrt_append)
  then have ins: "bt_insert k v m = m @ [(k, v)]" by (rule bt_insert_last)
  have "bt_wf ((m @ [(k, v)]) @ ps)" using Cons.prems by (simp add: kv)
  from Cons.IH [OF this] show ?case by (simp add: kv ins)
qed

end
