(* ===== verification/Banner.thy ===== *)
theory Banner
  imports Errors BTree
begin

section \<open>The identity banner\<close>

text \<open>
  \<open>src/session/banner.rs\<close>: parsing the \<open>A_CNXN\<close> identity string, writing it back, and the host's
  own banner. Parsing never fails; the round trip holds for the banners that the format can
  carry, which \<open>wf_banner\<close> describes.
\<close>

definition HOST_FEATURES :: str where
  "HOST_FEATURES = ''shell_v2,cmd,stat_v2,ls_v2,apex,abb,abb_exec,fixed_push_mkdir,fixed_push_symlink_timestamp''"

record banner =
  kind :: str
  properties :: "(str, str) btree"
  features :: "str list"

definition default_banner :: banner where
  "default_banner = \<lparr>kind = [], properties = [], features = []\<rparr>"

definition non_empty :: "'a list list \<Rightarrow> 'a list list" where
  "non_empty ps = filter (\<lambda>p. p \<noteq> []) ps"

definition parse_pair :: "banner \<Rightarrow> str \<Rightarrow> banner" where
  "parse_pair b pair =
     (let (key, val) = (case split_once ''='' pair of Some kv \<Rightarrow> kv | None \<Rightarrow> (pair, ''''))
      in if key = ''features''
         then b\<lparr>features := non_empty (split_char (CHR '','') val)\<rparr>
         else b\<lparr>properties := bt_insert key val (properties b)\<rparr>)"

definition parse_banner :: "str \<Rightarrow> banner" where
  "parse_banner txt =
     (let txt = trim_end_matches (\<lambda>c. c = CHR 0x00) txt;
          (knd, rest) = (case split_once ''::'' txt of Some kr \<Rightarrow> kr | None \<Rightarrow> (txt, ''''))
      in foldl parse_pair (default_banner\<lparr>kind := knd\<rparr>) (non_empty (split_char (CHR '';'') rest)))"

definition host_banner :: str where
  "host_banner = ''host::features='' @ HOST_FEATURES"

definition has_feature :: "banner \<Rightarrow> str \<Rightarrow> bool" where
  "has_feature b f \<longleftrightarrow> f \<in> set (features b)"

definition to_wire :: "banner \<Rightarrow> str" where
  "to_wire b =
     (let props = map (\<lambda>(k, v). k @ ''='' @ v @ '';'') (properties b);
          feats = (if features b = [] then '''' else ''features='' @ join '','' (features b))
      in kind b @ ''::'' @ concat props @ feats)"

subsection \<open>What the format can carry\<close>

definition wf_banner :: "banner \<Rightarrow> bool" where
  "wf_banner b \<longleftrightarrow> CHR '':'' \<notin> set (kind b) \<and> bt_wf (properties b)
     \<and> (\<forall>(k, v) \<in> set (properties b). CHR ''='' \<notin> set k \<and> CHR '';'' \<notin> set k
          \<and> CHR '';'' \<notin> set v \<and> k \<noteq> ''features'')
     \<and> (\<forall>f \<in> set (features b). f \<noteq> [] \<and> CHR '','' \<notin> set f \<and> CHR '';'' \<notin> set f
          \<and> CHR 0x00 \<notin> set f)"

lemma pieces_props:
  assumes "\<forall>(k, v) \<in> set ps. CHR '';'' \<notin> set k \<and> CHR '';'' \<notin> set v"
    and "CHR '';'' \<notin> set tail"
  shows "split_char (CHR '';'') (concat (map (\<lambda>(k, v). k @ ''='' @ v @ '';'') ps) @ tail)
     = map (\<lambda>(k, v). k @ ''='' @ v) ps @ [tail]"
  using assms(1)
proof (induction ps)
  case Nil
  then show ?case using assms(2) by (simp add: text_simps)
next
  case (Cons kv ps)
  obtain k v where kv: "kv = (k, v)" by (cases kv)
  from Cons.prems have "CHR '';'' \<notin> set (k @ ''='' @ v)" by (simp add: kv)
  from split_char_append [OF this] Cons show ?case by (simp add: kv)
qed

lemma parse_pair_prop:
  assumes "CHR ''='' \<notin> set k" and "k \<noteq> ''features''"
  shows "parse_pair b (k @ ''='' @ v) = b\<lparr>properties := bt_insert k v (properties b)\<rparr>"
  using assms by (simp add: parse_pair_def text_simps)

lemma parse_pairs:
  assumes "\<forall>(k, v) \<in> set ps. CHR ''='' \<notin> set k \<and> k \<noteq> ''features''"
  shows "foldl parse_pair b (map (\<lambda>(k, v). k @ ''='' @ v) ps)
     = b\<lparr>properties := foldl (\<lambda>acc (k, v). bt_insert k v acc) (properties b) ps\<rparr>"
  using assms
proof (induction ps arbitrary: b)
  case Nil
  then show ?case by simp
next
  case (Cons kv ps)
  then show ?case using parse_pair_prop by (cases kv) simp
qed

lemma parse_features:
  assumes "fs \<noteq> []" and "\<forall>f \<in> set fs. f \<noteq> [] \<and> CHR '','' \<notin> set f"
  shows "parse_pair b (''features='' @ join '','' fs) = b\<lparr>features := fs\<rparr>"
proof -
  have "split_once ''='' (''features='' @ join '','' fs) = Some (''features'', join '','' fs)"
    using split_once_single [of "CHR ''=''" "''features''" "join '','' fs"] by simp
  moreover have "non_empty (split_char (CHR '','') (join '','' fs)) = fs"
    using assms by (simp add: split_char_join non_empty_def)
  ultimately show ?thesis by (simp add: parse_pair_def)
qed

lemma parse_to_wire_tail:
  assumes wf: "wf_banner b" and tail: "set tail \<subseteq> {CHR 0x00}"
  shows "parse_banner (to_wire b @ tail) = b"
proof -
  let ?pr = "concat (map (\<lambda>(k, v). k @ ''='' @ v @ '';'') (properties b))"
  define feats where "feats = (if features b = [] then '''' else ''features='' @ join '','' (features b))"
  have semi: "CHR '';'' \<notin> set feats" and nul: "CHR 0x00 \<notin> set feats"
    using wf set_join [of "'',''" "features b"] by (auto simp: feats_def wf_banner_def)
  have wire: "to_wire b = kind b @ ''::'' @ ?pr @ feats" by (simp add: to_wire_def feats_def)
  have "last (to_wire b) \<noteq> CHR 0x00"
  proof (cases "feats = []")
    case False
    then have "last (to_wire b) = last feats" by (simp add: wire)
    then show ?thesis using False nul last_in_set by metis
  next
    case True
    then show ?thesis by (cases "properties b" rule: rev_cases) (auto simp: wire)
  qed
  then have trim: "trim_end_matches (\<lambda>c. c = CHR 0x00) (to_wire b @ tail) = to_wire b"
    using tail
  proof (induction tail rule: rev_induct)
    case Nil
    then show ?case by (simp add: trim_end_matches_id)
  next
    case (snoc c cs)
    then show ?case
      using trim_end_matches_append [of "\<lambda>c. c = CHR 0x00" c "to_wire b @ cs"] by simp
  qed
  have kind: "split_once ''::'' (to_wire b) = Some (kind b, ?pr @ feats)"
    using split_once_first [of "''::''" "kind b" "?pr @ feats"] wf
    by (simp add: wire wf_banner_def)
  have "split_char (CHR '';'') (?pr @ feats)
      = map (\<lambda>(k, v). k @ ''='' @ v) (properties b) @ [feats]"
    using wf semi by (intro pieces_props) (auto simp: wf_banner_def)
  then have "non_empty (split_char (CHR '';'') (?pr @ feats))
      = map (\<lambda>(k, v). k @ ''='' @ v) (properties b) @ (if features b = [] then [] else [feats])"
    by (auto simp: non_empty_def feats_def filter_map o_def split_def)
  moreover have "foldl parse_pair (default_banner\<lparr>kind := kind b\<rparr>)
      (map (\<lambda>(k, v). k @ ''='' @ v) (properties b))
      = default_banner\<lparr>kind := kind b, properties := properties b\<rparr>"
    using wf bt_foldl_insert [of "[]" "properties b"]
    by (subst parse_pairs) (auto simp: wf_banner_def default_banner_def)
  moreover have "parse_pair b' feats = b'\<lparr>features := features b\<rparr>" if "features b \<noteq> []" for b'
    using wf that parse_features [of "features b" b'] by (simp add: wf_banner_def feats_def)
  ultimately show ?thesis
    by (auto simp: parse_banner_def trim kind default_banner_def)
qed

subsection \<open>Properties\<close>

text \<open>
  Every banner the format can carry is parsed back from its wire form, with or without the
  NUL bytes that some devices send after it.
\<close>

lemma banner_roundtrip:
  assumes "wf_banner b"
  shows "parse_banner (to_wire b @ replicate n (CHR 0x00)) = b"
  by (rule parse_to_wire_tail [OF assms]) auto

end
