(* ===== verification/Handshake.thy ===== *)
theory Handshake
  imports Transport Pubkey Banner
begin

section \<open>The connection handshake\<close>

text \<open>
  \<open>src/session/handshake.rs\<close>: negotiation of version and payload limit, and the
  \<open>A_CNXN\<close>/\<open>A_AUTH\<close> loop over any transport. \<open>hs_message\<close> is the body of the loop for one message,
  with every send it makes; \<open>handshake_loop\<close> receives messages until one of them ends it.
  \<open>skipped\<close> is a natural number: it never exceeds 65. tokio's \<open>timeout\<close> is a parameter: it
  returns the outcome of the receive, or \<open>None\<close> when the time is up.

  \<open>hs_run\<close> is the abstract protocol, a function of the messages the device sends. In the context
  of the transport contract the handshake is shown to follow it, and the protocol's guarantees
  are then proved on it.
\<close>

subsection \<open>Negotiation\<close>

record negotiated =
  n_banner :: banner
  n_version :: u32
  n_max_payload :: u32

definition negotiate :: "message \<Rightarrow> negotiated result" where
  "negotiate msg =
     (let version = m_arg0 msg in
      if version < VERSION_MIN
      then Inl (Protocol (Fmt ''peer protocol version {version:#010x} too old'' [Num (uint version)]))
      else let offered = (if m_arg1 msg = 0 then LEGACY_MAX_PAYLOAD else m_arg1 msg);
               b = parse_banner (utf8_lossy (payload msg))
           in Inr \<lparr>n_banner = b, n_version = min version VERSION,
                   n_max_payload = min offered MAX_PAYLOAD\<rparr>)"

subsection \<open>The loop\<close>

definition MAX_STALE :: nat where "MAX_STALE = 64"

record hs =
  sent_signature :: bool
  sent_pubkey :: bool
  skipped :: nat

definition hs_init :: hs where
  "hs_init = \<lparr>sent_signature = False, sent_pubkey = False, skipped = 0\<rparr>"

definition tls_unsupported :: error where
  "tls_unsupported = Unsupported
     (Lit ''device requested TLS authentication (A_STLS); rsadb 0.1 only speaks RSA auth'')"

definition too_many_stale :: "nat \<Rightarrow> error" where
  "too_many_stale n = Protocol
     (Fmt ''device sent {skipped} stream frames and no banner during the handshake'' [Num (int n)])"

definition hs_message ::
  "('sk, 'pk) crypto \<Rightarrow> ('sk, 'pk) host_key \<Rightarrow> 't transport_ops \<Rightarrow> hs \<Rightarrow> message
     \<Rightarrow> ('t, negotiated + hs) comp" where
  "hs_message C key T st msg =
     (case m_command msg of
        Connect \<Rightarrow>
          and_then (of_result (negotiate msg)) (\<lambda>n t.
            Some (Inr (Inl n), t_configure T (negotiated_config (n_version n) (n_max_payload n)) t))
      | Auth \<Rightarrow>
          if m_arg0 msg = AUTH_TOKEN then
            (if \<not> sent_signature st then
               and_then (of_result (sign_token C key (payload msg))) (\<lambda>signature.
               and_then (t_send T (new_message Auth AUTH_SIGNATURE 0 signature)) (\<lambda>_.
               ret (Inr (st\<lparr>sent_signature := True\<rparr>))))
             else if \<not> sent_pubkey st then
               and_then (of_result (public_key_payload C key)) (\<lambda>pubkey.
               and_then (t_send T (new_message Auth AUTH_RSAPUBLICKEY 0 pubkey)) (\<lambda>_.
               ret (Inr (st\<lparr>sent_pubkey := True\<rparr>))))
             else throw Unauthorized)
          else throw (Protocol (Fmt ''unexpected AUTH type {}'' [Num (uint (m_arg0 msg))]))
      | StartTls \<Rightarrow> throw tls_unsupported
      | Open \<Rightarrow> throw (Protocol (Fmt ''unexpected {other} during handshake'' [Txt (mnemonic Open)]))
      | _ \<Rightarrow>
          (let n = skipped st + 1 in
           if MAX_STALE < n then throw (too_many_stale n) else ret (Inr (st\<lparr>skipped := n\<rparr>))))"

type_synonym 't timeout = "nat \<Rightarrow> ('t, message) comp \<Rightarrow> 't \<Rightarrow> (message result option \<times> 't) option"

definition recv_within :: "'t timeout \<Rightarrow> nat \<Rightarrow> ('t, message) comp \<Rightarrow> ('t, message) comp" where
  "recv_within timeout auth_wait recv t =
     (case timeout auth_wait recv t of
        None \<Rightarrow> None
      | Some (None, t') \<Rightarrow> Some (Inl Unauthorized, t')
      | Some (Some r, t') \<Rightarrow> Some (r, t'))"

definition hs_left :: "hs \<Rightarrow> nat" where
  "hs_left st = (MAX_STALE - skipped st) + (if sent_signature st then 0 else 1)
     + (if sent_pubkey st then 0 else 1)"

lemma hs_message_left:
  "hs_message C key T st msg t = Some (Inr (Inr st'), t') \<Longrightarrow> hs_left st' < hs_left st"
  by (auto simp: hs_message_def hs_left_def and_then_def Let_def
      split: command.splits if_splits option.splits sum.splits)

function handshake_loop ::
  "('sk, 'pk) crypto \<Rightarrow> ('sk, 'pk) host_key \<Rightarrow> 't timeout \<Rightarrow> nat \<Rightarrow> 't transport_ops \<Rightarrow> hs
     \<Rightarrow> ('t, negotiated) comp" where
  "handshake_loop C key timeout auth_wait T st t =
     (case (if sent_pubkey st then recv_within timeout auth_wait (t_recv T) t else t_recv T t) of
        None \<Rightarrow> None
      | Some (Inl e, t1) \<Rightarrow> Some (Inl e, t1)
      | Some (Inr msg, t1) \<Rightarrow>
          (case hs_message C key T st msg t1 of
             None \<Rightarrow> None
           | Some (Inl e, t2) \<Rightarrow> Some (Inl e, t2)
           | Some (Inr (Inl n), t2) \<Rightarrow> Some (Inr n, t2)
           | Some (Inr (Inr st'), t2) \<Rightarrow> handshake_loop C key timeout auth_wait T st' t2))"
  by pat_completeness auto
termination
  by (relation "measure (\<lambda>(C, key, timeout, auth_wait, T, st, t). hs_left st)")
    (auto dest: hs_message_left)

declare handshake_loop.simps [simp del]

definition handshake ::
  "('sk, 'pk) crypto \<Rightarrow> ('sk, 'pk) host_key \<Rightarrow> 't timeout \<Rightarrow> nat \<Rightarrow> 't transport_ops
     \<Rightarrow> ('t, negotiated) comp" where
  "handshake C key timeout auth_wait T t =
     and_then (t_send T (new_message Connect VERSION MAX_PAYLOAD (as_bytes host_banner)))
       (\<lambda>_. handshake_loop C key timeout auth_wait T hs_init) (t_configure T INITIAL t)"

subsection \<open>The abstract protocol\<close>

text \<open>What one message does: the outcome or the next state, and what is sent.\<close>

definition hs_decide ::
  "('sk, 'pk) crypto \<Rightarrow> ('sk, 'pk) host_key \<Rightarrow> hs \<Rightarrow> message
     \<Rightarrow> (negotiated result + hs) \<times> message list" where
  "hs_decide C key st msg =
     (if m_command msg = Connect then (Inl (negotiate msg), [])
      else if m_command msg = Auth \<and> m_arg0 msg = AUTH_TOKEN then
        (if sent_pubkey st \<and> sent_signature st then (Inl (Inl Unauthorized), [])
         else if sent_signature st then
           (case public_key_payload C key of Inl e \<Rightarrow> (Inl (Inl e), [])
            | Inr p \<Rightarrow> (Inr (st\<lparr>sent_pubkey := True\<rparr>), [new_message Auth AUTH_RSAPUBLICKEY 0 p]))
         else
           (case sign_token C key (payload msg) of Inl e \<Rightarrow> (Inl (Inl e), [])
            | Inr s \<Rightarrow> (Inr (st\<lparr>sent_signature := True\<rparr>), [new_message Auth AUTH_SIGNATURE 0 s])))
      else if m_command msg = Auth then
        (Inl (Inl (Protocol (Fmt ''unexpected AUTH type {}'' [Num (uint (m_arg0 msg))]))), [])
      else if m_command msg = StartTls then (Inl (Inl tls_unsupported), [])
      else if m_command msg = Open then
        (Inl (Inl (Protocol (Fmt ''unexpected {other} during handshake'' [Txt (mnemonic Open)]))), [])
      else if MAX_STALE \<le> skipped st then (Inl (Inl (too_many_stale (skipped st + 1))), [])
      else (Inr (st\<lparr>skipped := skipped st + 1\<rparr>), []))"

fun hs_run ::
  "('sk, 'pk) crypto \<Rightarrow> ('sk, 'pk) host_key \<Rightarrow> hs \<Rightarrow> message list
     \<Rightarrow> (negotiated result \<times> message list \<times> message list) option" where
  "hs_run C key st [] = None"
| "hs_run C key st (m # ms) =
     (case hs_decide C key st m of
        (Inl r, sent) \<Rightarrow> Some (r, sent, ms)
      | (Inr st', sent) \<Rightarrow>
          map_option (\<lambda>(r, sent', rest). (r, sent @ sent', rest)) (hs_run C key st' ms))"

text \<open>
  The authentication messages fit a payload, and a receive that has an answer beats the clock.
\<close>

definition small_auth :: "('sk, 'pk) crypto \<Rightarrow> ('sk, 'pk) host_key \<Rightarrow> bool" where
  "small_auth C key \<longleftrightarrow>
     (\<forall>token s. sign_token C key token = Inr s \<longrightarrow> length s \<le> unat MAX_PAYLOAD)
   \<and> (\<forall>p. public_key_payload C key = Inr p \<longrightarrow> length p \<le> unat MAX_PAYLOAD)"

definition prompt :: "'t timeout \<Rightarrow> bool" where
  "prompt timeout \<longleftrightarrow>
     (\<forall>w recv t r t'. recv t = Some (r, t') \<longrightarrow> timeout w recv t = Some (Some r, t'))"

definition hello :: message where
  "hello = new_message Connect VERSION MAX_PAYLOAD (as_bytes host_banner)"

lemma host_banner_small: "length (as_bytes host_banner) \<le> unat MAX_PAYLOAD"
  by (simp add: host_banner_def HOST_FEATURES_def MAX_PAYLOAD_def)

context message_transport
begin

lemma hs_message_decide:
  assumes "small_auth C key" and "invar t"
    and "hs_decide C key st m = (res, sent)"
  shows "\<exists>t'. hs_message C key T st m t =
           (case res of Inl (Inl e) \<Rightarrow> Some (Inl e, t') | Inl (Inr n) \<Rightarrow> Some (Inr (Inl n), t')
              | Inr st' \<Rightarrow> Some (Inr (Inr st'), t'))
         \<and> outbox t' = outbox t @ sent \<and> invar t'
         \<and> (case res of Inl (Inr n) \<Rightarrow> config t' = negotiated_config (n_version n) (n_max_payload n)
             | _ \<Rightarrow> inbox t' = inbox t)"
proof -
  consider (connect) "m_command m = Connect"
    | (token) "m_command m = Auth" "m_arg0 m = AUTH_TOKEN"
    | (other) "m_command m \<noteq> Connect" "\<not> (m_command m = Auth \<and> m_arg0 m = AUTH_TOKEN)" by blast
  then show ?thesis
  proof cases
    case connect
    with assms configure [OF assms(2)] show ?thesis
      by (cases "negotiate m") (auto simp: hs_message_def hs_decide_def and_then_def)
  next
    case token
    show ?thesis
    proof (cases "sent_signature st")
      case False
      show ?thesis
      proof (cases "sign_token C key (payload m)")
        case (Inl e)
        with token False assms show ?thesis by (auto simp: hs_message_def hs_decide_def)
      next
        case (Inr s)
        then have "length s \<le> unat MAX_PAYLOAD" using assms(1) by (auto simp: small_auth_def)
        with send_message [OF assms(2), of "new_message Auth AUTH_SIGNATURE 0 s"] token False Inr assms
        show ?thesis by (auto simp: hs_message_def hs_decide_def and_then_ok)
      qed
    next
      case sig: True
      show ?thesis
      proof (cases "sent_pubkey st")
        case True
        with token sig assms show ?thesis by (auto simp: hs_message_def hs_decide_def)
      next
        case False
        show ?thesis
        proof (cases "public_key_payload C key")
          case (Inl e)
          with token sig False assms show ?thesis by (auto simp: hs_message_def hs_decide_def)
        next
          case (Inr p)
          then have "length p \<le> unat MAX_PAYLOAD" using assms(1) by (auto simp: small_auth_def)
          with send_message [OF assms(2), of "new_message Auth AUTH_RSAPUBLICKEY 0 p"] token sig False
            Inr assms
          show ?thesis by (auto simp: hs_message_def hs_decide_def and_then_ok)
        qed
      qed
    qed
  next
    case other
    with assms show ?thesis
      by (cases "m_command m")
        (auto simp: hs_message_def hs_decide_def Let_def split: if_splits)
  qed
qed

lemma handshake_loop_run:
  assumes "small_auth C key" and "prompt timeout" and "invar t" and "inbox t = ms"
    and "hs_run C key st ms = Some (res, sent, rest)"
  shows "\<exists>t'. handshake_loop C key timeout w T st t = Some (res, t')
         \<and> outbox t' = outbox t @ sent \<and> invar t'
         \<and> (\<forall>n. res = Inr n \<longrightarrow> config t' = negotiated_config (n_version n) (n_max_payload n))"
  using assms(3-5)
proof (induction ms arbitrary: st t sent)
  case Nil
  then show ?case by simp
next
  case (Cons m ms)
  from recv_next [OF Cons.prems(1,2)] obtain t1 where
    t1: "t_recv T t = Some (Inr m, t1)" "inbox t1 = ms" "outbox t1 = outbox t" "invar t1" by blast
  then have recv: "(if sent_pubkey st then recv_within timeout w (t_recv T) t else t_recv T t)
      = Some (Inr m, t1)"
    using assms(2) by (auto simp: recv_within_def prompt_def)
  obtain act sent1 where dec: "hs_decide C key st m = (act, sent1)" by fastforce
  from hs_message_decide [OF assms(1) t1(4) dec] obtain t2 where
    step: "hs_message C key T st m t1 =
           (case act of Inl (Inl e) \<Rightarrow> Some (Inl e, t2) | Inl (Inr n) \<Rightarrow> Some (Inr (Inl n), t2)
              | Inr st' \<Rightarrow> Some (Inr (Inr st'), t2))"
    and t2: "outbox t2 = outbox t1 @ sent1" "invar t2"
      "case act of Inl (Inr n) \<Rightarrow> config t2 = negotiated_config (n_version n) (n_max_payload n)
             | _ \<Rightarrow> inbox t2 = inbox t1" by blast
  show ?case
  proof (cases act)
    case (Inl r)
    with Cons.prems(3) dec have "res = r" "sent = sent1" by auto
    with Inl recv step t1 t2 show ?thesis
      by (cases r) (auto simp: handshake_loop.simps [of C key timeout w T st t])
  next
    case (Inr st')
    with Cons.prems(3) dec obtain sent' where
      run: "hs_run C key st' ms = Some (res, sent', rest)" and sent: "sent = sent1 @ sent'" by auto
    have "inbox t2 = ms" using t2(3) t1(2) Inr by simp
    from Cons.IH [OF t2(2) this run] Inr recv step t1 t2 sent show ?thesis
      by (auto simp: handshake_loop.simps [of C key timeout w T st t])
  qed
qed

text \<open>A device that goes away in the middle ends the handshake with the error of the receive.\<close>

lemma handshake_loop_hangup:
  assumes "small_auth C key" and "prompt timeout" and "invar t" and "inbox t = ms"
    and "hs_run C key st ms = None"
  shows "\<exists>e t'. handshake_loop C key timeout w T st t = Some (Inl e, t')"
  using assms(3-5)
proof (induction ms arbitrary: st t)
  case Nil
  from recv_empty [OF Nil(1,2)] obtain e t1 where "t_recv T t = Some (Inl e, t1)" by blast
  then have "(if sent_pubkey st then recv_within timeout w (t_recv T) t else t_recv T t)
      = Some (Inl e, t1)"
    using assms(2) by (auto simp: recv_within_def prompt_def)
  then show ?case by (simp add: handshake_loop.simps [of C key timeout w T st t])
next
  case (Cons m ms)
  from recv_next [OF Cons.prems(1,2)] obtain t1 where
    t1: "t_recv T t = Some (Inr m, t1)" "inbox t1 = ms" "invar t1" by blast
  then have recv: "(if sent_pubkey st then recv_within timeout w (t_recv T) t else t_recv T t)
      = Some (Inr m, t1)"
    using assms(2) by (auto simp: recv_within_def prompt_def)
  obtain act sent1 where dec: "hs_decide C key st m = (act, sent1)" by fastforce
  with Cons.prems(3) obtain st' where act: "act = Inr st'" and run: "hs_run C key st' ms = None"
    by (cases act) auto
  from hs_message_decide [OF assms(1) t1(3) dec] act obtain t2 where
    "hs_message C key T st m t1 = Some (Inr (Inr st'), t2)" "invar t2" "inbox t2 = ms"
    using t1(2) by auto
  with Cons.IH [OF _ _ run] recv show ?case
    by (simp add: handshake_loop.simps [of C key timeout w T st t])
qed

text \<open>The whole handshake: the host's \<open>CNXN\<close>, then the protocol's answers.\<close>

lemma handshake_hello:
  assumes "invar t"
  shows "\<exists>t1. handshake C key timeout w T t = handshake_loop C key timeout w T hs_init t1
     \<and> inbox t1 = inbox (t_configure T INITIAL t) \<and> outbox t1 = outbox t @ [hello] \<and> invar t1"
proof -
  let ?t0 = "t_configure T INITIAL t"
  have inv0: "invar ?t0" and out0: "outbox ?t0 = outbox t"
    using configure [OF assms] by blast+
  from send_message [OF inv0, of hello] obtain t1 where
    "t_send T hello ?t0 = Some (Inr (), t1)" "inbox t1 = inbox ?t0" "outbox t1 = outbox t @ [hello]"
      "invar t1"
    using host_banner_small out0 by (auto simp: hello_def)
  then show ?thesis by (auto simp: handshake_def and_then_ok hello_def)
qed

lemma handshake_run:
  assumes "small_auth C key" and "prompt timeout" and "invar t"
    and "hs_run C key hs_init (inbox (t_configure T INITIAL t)) = Some (res, sent, rest)"
  shows "\<exists>t'. handshake C key timeout w T t = Some (res, t')
         \<and> outbox t' = outbox t @ hello # sent
         \<and> (\<forall>n. res = Inr n \<longrightarrow> config t' = negotiated_config (n_version n) (n_max_payload n))"
proof -
  from handshake_hello [OF assms(3), of C key timeout w] obtain t1 where
    t1: "handshake C key timeout w T t = handshake_loop C key timeout w T hs_init t1"
      "inbox t1 = inbox (t_configure T INITIAL t)" "outbox t1 = outbox t @ [hello]" "invar t1" by blast
  from handshake_loop_run [OF assms(1,2) t1(4,2) assms(4), of w] t1(1,3) show ?thesis by auto
qed

lemma handshake_hangup:
  assumes "small_auth C key" and "prompt timeout" and "invar t"
    and "hs_run C key hs_init (inbox (t_configure T INITIAL t)) = None"
  shows "\<exists>e t'. handshake C key timeout w T t = Some (Inl e, t')"
proof -
  from handshake_hello [OF assms(3), of C key timeout w] obtain t1 where
    t1: "handshake C key timeout w T t = handshake_loop C key timeout w T hs_init t1"
      "inbox t1 = inbox (t_configure T INITIAL t)" "invar t1" by blast
  from handshake_loop_hangup [OF assms(1,2) t1(3,2) assms(4), of w] t1(1) show ?thesis by auto
qed

end

subsection \<open>What the protocol guarantees\<close>

definition is_token :: "message \<Rightarrow> bool" where
  "is_token m \<longleftrightarrow> m_command m = Auth \<and> m_arg0 m = AUTH_TOKEN"

text \<open>The payloads of the authentication tokens among the messages.\<close>

definition tokens :: "message list \<Rightarrow> bytes list" where
  "tokens ms = map payload (filter is_token ms)"

definition signature_message :: "bytes \<Rightarrow> message" where
  "signature_message s = new_message Auth AUTH_SIGNATURE 0 s"

definition pubkey_message :: "bytes \<Rightarrow> message" where
  "pubkey_message p = new_message Auth AUTH_RSAPUBLICKEY 0 p"

text \<open>The replies to a list of tokens: one signature, then the public key, then none.\<close>

definition replies :: "('sk, 'pk) crypto \<Rightarrow> ('sk, 'pk) host_key \<Rightarrow> bytes list \<Rightarrow> message list \<Rightarrow> bool" where
  "replies C key toks sent \<longleftrightarrow>
     (case toks of
        [] \<Rightarrow> sent = []
      | [a] \<Rightarrow> \<exists>s. sign_token C key a = Inr s \<and> sent = [signature_message s]
      | [a, b] \<Rightarrow> \<exists>s p. sign_token C key a = Inr s \<and> public_key_payload C key = Inr p
          \<and> sent = [signature_message s, pubkey_message p]
      | _ \<Rightarrow> False)"

definition replies_from ::
  "('sk, 'pk) crypto \<Rightarrow> ('sk, 'pk) host_key \<Rightarrow> hs \<Rightarrow> bytes list \<Rightarrow> message list \<Rightarrow> bool" where
  "replies_from C key st toks sent \<longleftrightarrow>
     (if sent_pubkey st then toks = [] \<and> sent = []
      else if sent_signature st then toks = [] \<and> sent = []
        \<or> (\<exists>b p. toks = [b] \<and> public_key_payload C key = Inr p \<and> sent = [pubkey_message p])
      else replies C key toks sent)"

definition hs_ok :: "hs \<Rightarrow> bool" where
  "hs_ok st \<longleftrightarrow> (sent_pubkey st \<longrightarrow> sent_signature st) \<and> skipped st \<le> MAX_STALE"

lemma hs_decide_cont:
  assumes "hs_decide C key st m = (Inr st', sent)" and "hs_ok st"
  shows "hs_ok st' \<and> m_command m \<noteq> Connect
     \<and> (is_token m \<and> skipped st' = skipped st
          \<and> (\<forall>toks more. replies_from C key st' toks more
               \<longrightarrow> replies_from C key st (payload m # toks) (sent @ more))
        \<or> \<not> is_token m \<and> sent = [] \<and> st' = st\<lparr>skipped := Suc (skipped st)\<rparr>)"
  using assms
  by (auto simp: hs_decide_def hs_ok_def is_token_def replies_from_def replies_def
      signature_message_def pubkey_message_def split: if_splits sum.splits)

lemma hs_decide_end:
  "hs_decide C key st m = (Inl r, sent) \<Longrightarrow> sent = [] \<and>
     (\<forall>n. r = Inr n \<longrightarrow> m_command m = Connect \<and> negotiate m = Inr n)"
  by (auto simp: hs_decide_def split: if_splits sum.splits)

lemma replies_from_skipped [simp]:
  "replies_from C key (st\<lparr>skipped := k\<rparr>) = replies_from C key st"
  by (simp add: replies_from_def fun_eq_iff)

lemma replies_from_Nil: "hs_ok st \<Longrightarrow> replies_from C key st [] []"
  by (simp add: replies_from_def replies_def)

text \<open>
  Whatever the outcome, the messages that were not answered end the handshake; a success
  means that every token was answered and that the last message is an acceptable \<open>CNXN\<close>.
\<close>

lemma hs_run_replies:
  assumes "hs_run C key st ms = Some (r, sent, rest)" and "hs_ok st"
  shows "\<exists>used m. ms = used @ m # rest \<and> replies_from C key st (tokens used) sent
     \<and> skipped st + length (filter (\<lambda>x. \<not> is_token x) used) \<le> MAX_STALE
     \<and> (\<forall>x \<in> set used. m_command x \<noteq> Connect)
     \<and> (\<forall>n. r = Inr n \<longrightarrow> m_command m = Connect \<and> negotiate m = Inr n)"
  using assms
proof (induction ms arbitrary: st sent)
  case Nil
  then show ?case by simp
next
  case (Cons m ms)
  obtain act sent1 where dec: "hs_decide C key st m = (act, sent1)" by fastforce
  show ?case
  proof (cases act)
    case (Inl r')
    with Cons.prems dec hs_decide_end [of C key st m r' sent1] show ?thesis
      by (intro exI [of _ "[]"] exI [of _ m])
        (auto simp: tokens_def replies_from_Nil hs_ok_def)
  next
    case (Inr st')
    with Cons.prems dec obtain sent2 where run: "hs_run C key st' ms = Some (r, sent2, rest)"
      and sent: "sent = sent1 @ sent2" by auto
    note step = hs_decide_cont [OF dec [unfolded Inr] Cons.prems(2)]
    from Cons.IH [OF run] step obtain used m' where IH:
      "ms = used @ m' # rest" "replies_from C key st' (tokens used) sent2"
      "skipped st' + length (filter (\<lambda>x. \<not> is_token x) used) \<le> MAX_STALE"
      "\<forall>x \<in> set used. m_command x \<noteq> Connect"
      "\<forall>n. r = Inr n \<longrightarrow> m_command m' = Connect \<and> negotiate m' = Inr n" by blast
    have "replies_from C key st (tokens (m # used)) sent"
      using step IH(2) sent
    proof (cases "is_token m")
      case True
      with step IH(2) sent show ?thesis by (simp add: tokens_def)
    next
      case False
      with step IH(2) sent show ?thesis by (simp add: tokens_def)
    qed
    with IH step show ?thesis
      by (intro exI [of _ "m # used"] exI [of _ m']) (auto simp: is_token_def)
  qed
qed

lemma hs_init_ok: "hs_ok hs_init"
  by (simp add: hs_ok_def hs_init_def)

lemma skipped_init [simp]: "skipped hs_init = 0"
  by (simp add: hs_init_def)

lemma replies_init: "replies_from C key hs_init toks sent = replies C key toks sent"
  by (simp add: replies_from_def hs_init_def)

lemma hs_decide_left:
  assumes "hs_decide C key st m = (Inr st', sent)"
  shows "hs_left st' < hs_left st"
  using assms by (auto simp: hs_decide_def hs_left_def split: if_splits sum.splits)

text \<open>Every message that does not end the handshake uses up one of at most 66 chances.\<close>

lemma hs_run_decides:
  "hs_left st < length ms \<Longrightarrow> hs_run C key st ms \<noteq> None"
proof (induction ms arbitrary: st)
  case Nil
  then show ?case by simp
next
  case (Cons m ms)
  obtain act sent where dec: "hs_decide C key st m = (act, sent)" by fastforce
  show ?case
  proof (cases act)
    case (Inr st')
    with hs_decide_left dec have "hs_left st' < hs_left st" by blast
    then have "hs_run C key st' ms \<noteq> None" using Cons.prems by (intro Cons.IH) simp
    with dec Inr show ?thesis by (simp add: option.map_disc_iff)
  qed (simp add: dec)
qed

lemma hs_left_init: "hs_left hs_init = 66"
  by (simp add: hs_left_def hs_init_def MAX_STALE_def)

text \<open>Frames of an earlier session's streams.\<close>

definition stale :: "message \<Rightarrow> bool" where
  "stale m \<longleftrightarrow> m_command m \<in> {Okay, Close, Write, Sync}"

lemma hs_run_stale:
  assumes "\<forall>m \<in> set ms. stale m" and "skipped st + length ms \<le> MAX_STALE"
  shows "hs_run C key st (ms @ later) = hs_run C key (st\<lparr>skipped := skipped st + length ms\<rparr>) later"
  using assms
proof (induction ms arbitrary: st)
  case (Cons m ms)
  then have "hs_decide C key st m = (Inr (st\<lparr>skipped := skipped st + 1\<rparr>), [])"
    by (auto simp: hs_decide_def stale_def)
  then show ?case
    using Cons.prems
      Cons.IH [of "st\<lparr>skipped := skipped st + 1\<rparr>"] by (simp add: option.map_id)
qed simp

lemma hs_run_too_many:
  assumes "\<forall>m \<in> set ms. stale m" and "length ms = MAX_STALE + 1"
  shows "hs_run C key hs_init (ms @ later) = Some (Inl (too_many_stale (MAX_STALE + 1)), [], later)"
proof -
  obtain m ms' where ms: "ms = ms' @ [m]" and "length ms' = MAX_STALE"
    using assms(2) by (metis Suc_eq_plus1 append_butlast_last_id butlast_snoc length_butlast
        length_0_conv nat.simps(3) diff_Suc_1)
  then have "hs_run C key hs_init (ms @ later)
      = hs_run C key (hs_init\<lparr>skipped := MAX_STALE\<rparr>) (m # later)"
    using hs_run_stale [of ms' hs_init C key "m # later"] assms(1) by (simp add: hs_init_def)
  moreover have "stale m" using assms(1) ms by simp
  ultimately show ?thesis by (auto simp: hs_decide_def stale_def)
qed

subsection \<open>The handshake over a byte stream\<close>

text \<open>
  A fresh \<open>StreamTransport\<close>: the device's messages are what its bytes deframe to. The hypotheses
  of the properties are named once.
\<close>

definition over_stream ::
  "('sk, 'pk) crypto \<Rightarrow> ('sk, 'pk) host_key \<Rightarrow> ('r, 'w) stream_transport timeout
     \<Rightarrow> 'r async_read \<Rightarrow> ('r \<Rightarrow> bytes) \<Rightarrow> 'w async_write \<Rightarrow> ('w \<Rightarrow> bytes) \<Rightarrow> 'w \<Rightarrow> bool" where
  "over_stream C key timeout R avail W out w \<longleftrightarrow>
     reads_bytes R avail \<and> writes_bytes W out \<and> small_auth C key \<and> prompt timeout \<and> out w = []"

lemma fresh_stream:
  assumes "out w = []"
  shows "stream_invar out (new_stream_transport r w)"
    and "stream_outbox out (new_stream_transport r w) = []"
    and "stream_inbox avail (t_configure (stream_transport_ops R W) INITIAL (new_stream_transport r w))
      = deframe_all INITIAL (avail r)"
  using assms
  by (simp_all add: stream_invar_def new_stream_transport_def stream_outbox_def stream_inbox_def
      stream_transport_ops_def stream_configure_def deframe_all.simps [of any_config "[]"] deframe_def)

lemma stream_handshake_run:
  assumes "over_stream C key timeout R avail W out w"
    and "hs_run C key hs_init (deframe_all INITIAL (avail r)) = Some (res, sent, rest)"
  shows "\<exists>t'. handshake C key timeout wt (stream_transport_ops R W) (new_stream_transport r w) = Some (res, t')
     \<and> stream_outbox out t' = hello # sent
     \<and> (\<forall>n. res = Inr n \<longrightarrow> stream_config t' = negotiated_config (n_version n) (n_max_payload n))"
  using message_transport.handshake_run [OF stream_transport_contract,
      of R avail W out C key timeout "new_stream_transport r w" res sent rest wt] assms
  by (simp add: over_stream_def fresh_stream)

lemma stream_handshake_hangup:
  assumes "over_stream C key timeout R avail W out w"
    and "hs_run C key hs_init (deframe_all INITIAL (avail r)) = None"
  shows "\<exists>e t'. handshake C key timeout wt (stream_transport_ops R W) (new_stream_transport r w) = Some (Inl e, t')"
  using message_transport.handshake_hangup [OF stream_transport_contract,
      of R avail W out C key timeout "new_stream_transport r w" wt] assms
  by (simp add: over_stream_def fresh_stream)

text \<open>
  A device for the witnesses: it asks for a signature and for the public key, then accepts. Its
  bytes arrive in one piece, and a receive is never slower than the clock.
\<close>

definition sample_timeout :: "'t timeout" where
  "sample_timeout w recv t =
     (case recv t of None \<Rightarrow> Some (None, t) | Some (r, t') \<Rightarrow> Some (Some r, t'))"

definition sample_host :: "(nat \<times> nat, nat \<times> nat) host_key" where
  "sample_host = \<lparr>private_key = sample_key, public_key = sample_key, comment = ''me@laptop''\<rparr>"

definition sample_banner :: message where
  "sample_banner = new_message Connect VERSION 4096 (as_bytes ''device::'')"

definition sample_device :: "message list" where
  "sample_device = [new_message Auth AUTH_TOKEN 0 (replicate 20 7), empty_message Okay 3 4,
     new_message Auth AUTH_TOKEN 0 (replicate 20 8), sample_banner]"

definition sample_input :: "message list \<Rightarrow> bytes list" where
  "sample_input ms = [concat (map (frame INITIAL) ms)]"

lemma length_letters: "length (letters_of bs) = 2 * length bs"
  by (induction bs) simp_all

lemma sample_pubkey:
  obtains p where "public_key_payload sample_crypto sample_host = Inr p"
    and "length p = 2 * ENCODED_LEN + 11"
proof -
  obtain bs where bs: "encode sample_crypto sample_key = Inr bs"
    using encode_encodable [OF sample_encodable] by (rule that)
  then have "public_key_payload sample_crypto sample_host
      = Inr (as_bytes (b64_encode sample_crypto bs @ '' '' @ ''me@laptop'') @ [0])"
    by (simp add: public_key_payload_def public_key_line_def encode_line_def sample_host_def)
  moreover have "length (b64_encode sample_crypto bs) = 2 * ENCODED_LEN"
    using encode_fields(1) [OF bs] by (simp add: sample_crypto_def length_letters)
  ultimately show ?thesis using that by simp
qed

lemma sample_sign: "length token = 20 \<Longrightarrow> sign_token sample_crypto sample_host token = Inr token"
  by (simp add: sign_token_def TOKEN_LEN_def sample_crypto_def key_err_def)

lemma sample_over_stream:
  "over_stream sample_crypto sample_host sample_timeout chunk_reader concat byte_sink id []"
proof -
  obtain p where p: "public_key_payload sample_crypto sample_host = Inr p"
    and len: "length p = 2 * ENCODED_LEN + 11" by (rule sample_pubkey)
  have "s = token \<and> length token = 20" if "sign_token sample_crypto sample_host token = Inr s" for token s
    using that by (simp add: sign_token_def TOKEN_LEN_def sample_crypto_def key_err_def split: if_splits)
  then have "small_auth sample_crypto sample_host"
    using p len by (fastforce simp add: small_auth_def ENCODED_LEN_def MODULUS_BYTES_def KEY_BITS_def MAX_PAYLOAD_def)
  then show ?thesis
    by (simp add: over_stream_def prompt_def sample_timeout_def)
qed

lemma deframe_sample:
  "\<forall>m \<in> set ms. length (payload m) \<le> 2000 \<Longrightarrow>
     deframe_all INITIAL (concat (sample_input ms)) = ms"
proof (induction ms)
  case Nil
  then show ?case by (simp add: sample_input_def deframe_all.simps [of INITIAL "[]"] deframe_def)
next
  case (Cons m ms)
  then have "fits INITIAL m" by (simp add: fits_def INITIAL_def MAX_PAYLOAD_def)
  from deframe_all_frame [OF this this] Cons show ?case
    by (simp add: sample_input_def INITIAL_def)
qed

lemma sample_decided:
  "\<exists>p n. public_key_payload sample_crypto sample_host = Inr p \<and> negotiate sample_banner = Inr n
     \<and> n_version n = VERSION \<and> n_max_payload n = 4096
     \<and> hs_run sample_crypto sample_host hs_init (sample_device @ later)
         = Some (Inr n, [signature_message (replicate 20 7), pubkey_message p], later)"
proof -
  obtain p where "public_key_payload sample_crypto sample_host = Inr p" by (rule sample_pubkey)
  moreover obtain n where "negotiate sample_banner = Inr n" "n_version n = VERSION" "n_max_payload n = 4096"
    by (auto simp: negotiate_def sample_banner_def VERSION_def VERSION_MIN_def MAX_PAYLOAD_def)
  ultimately show ?thesis
    by (simp add: sample_device_def hs_decide_def hs_init_def sample_sign MAX_STALE_def
        signature_message_def pubkey_message_def sample_banner_def)
qed

subsection \<open>Properties\<close>

text \<open>
  C21: over any byte stream, a handshake that the device's messages decide gives exactly what the
  abstract protocol says: the host sends its \<open>CNXN\<close> and then the protocol's answers, nothing
  else, the result is the protocol's, and after a success both directions use the negotiated
  framing.
\<close>

theorem handshake_follows_protocol:
  assumes "over_stream C key timeout R avail W out w"
    and "hs_run C key hs_init (deframe_all INITIAL (avail r)) = Some (res, sent, rest)"
  shows "\<exists>t'. handshake C key timeout wt (stream_transport_ops R W) (new_stream_transport r w) = Some (res, t')
     \<and> stream_outbox out t' = hello # sent
     \<and> (\<forall>n. res = Inr n \<longrightarrow> stream_config t' = negotiated_config (n_version n) (n_max_payload n))"
  by (rule stream_handshake_run [OF assms])

theorem handshake_follows_protocol_witness:
  "\<exists>p n t'. handshake sample_crypto sample_host sample_timeout 9
       (stream_transport_ops chunk_reader byte_sink)
       (new_stream_transport (sample_input sample_device) []) = Some (Inr n, t')
     \<and> stream_outbox id t' = [hello, signature_message (replicate 20 7), pubkey_message p]
     \<and> max_payload (stream_config t') = 4096"
proof -
  have "deframe_all INITIAL (concat (sample_input sample_device)) = sample_device"
    by (rule deframe_sample) (simp add: sample_device_def sample_banner_def)
  then obtain p n where n: "n_max_payload n = 4096"
    and run: "hs_run sample_crypto sample_host hs_init (deframe_all INITIAL (concat (sample_input sample_device)))
      = Some (Inr n, [signature_message (replicate 20 7), pubkey_message p], [])"
    using sample_decided [of "[]"] by auto
  from handshake_follows_protocol [OF sample_over_stream run, of 9] n show ?thesis
    by (auto simp: negotiated_config_def Let_def)
qed

text \<open>
  C5: a handshake succeeds only when the device ends it with a \<open>CNXN\<close> of an acceptable version,
  and by then the host has sent its \<open>CNXN\<close> and one answer for each token in order: a signature
  of the first, the public key for the second; a third token, or more than 64 frames of old
  streams, cannot lead to success.
\<close>

theorem handshake_success:
  assumes "over_stream C key timeout R avail W out w"
    and "handshake C key timeout wt (stream_transport_ops R W) (new_stream_transport r w) = Some (Inr n, t')"
  shows "\<exists>used m rest sent. deframe_all INITIAL (avail r) = used @ m # rest
     \<and> m_command m = Connect \<and> negotiate m = Inr n
     \<and> stream_outbox out t' = hello # sent \<and> replies C key (tokens used) sent
     \<and> length (filter (\<lambda>x. \<not> is_token x) used) \<le> MAX_STALE"
proof -
  let ?ms = "deframe_all INITIAL (avail r)"
  obtain res sent rest where run: "hs_run C key hs_init ?ms = Some (res, sent, rest)"
    using stream_handshake_hangup [OF assms(1), where r = r and wt = wt] assms(2)
    by (cases "hs_run C key hs_init ?ms") auto
  from stream_handshake_run [OF assms(1) run, of wt] assms(2)
  have "res = Inr n" and out: "stream_outbox out t' = hello # sent" by auto
  with hs_run_replies [OF run hs_init_ok] obtain used m where
    "?ms = used @ m # rest" "replies C key (tokens used) sent"
    "length (filter (\<lambda>x. \<not> is_token x) used) \<le> MAX_STALE"
    "m_command m = Connect" "negotiate m = Inr n"
    by (auto simp: replies_init)
  with out show ?thesis by blast
qed

theorem handshake_success_witness:
  "\<exists>n t' used m rest. handshake sample_crypto sample_host sample_timeout 9
       (stream_transport_ops chunk_reader byte_sink)
       (new_stream_transport (sample_input sample_device) []) = Some (Inr n, t')
     \<and> deframe_all INITIAL (concat (sample_input sample_device)) = used @ m # rest
     \<and> replies sample_crypto sample_host (tokens used) (tl (stream_outbox id t'))"
proof -
  have "deframe_all INITIAL (concat (sample_input sample_device)) = sample_device"
    by (rule deframe_sample) (simp add: sample_device_def sample_banner_def)
  then obtain p n where
    run: "hs_run sample_crypto sample_host hs_init (deframe_all INITIAL (concat (sample_input sample_device)))
      = Some (Inr n, [signature_message (replicate 20 7), pubkey_message p], [])"
    using sample_decided [of "[]"] by auto
  from stream_handshake_run [OF sample_over_stream run, of 9] obtain t' where
    t': "handshake sample_crypto sample_host sample_timeout 9 (stream_transport_ops chunk_reader byte_sink)
       (new_stream_transport (sample_input sample_device) []) = Some (Inr n, t')" by blast
  from handshake_success [OF sample_over_stream t'] t' show ?thesis by fastforce
qed

text \<open>
  Over a byte stream whose receives return before the timer does: when the device sends at least 67
  messages at most 67 of them are taken and at most two are answered.
\<close>

lemma handshake_stream_bounded:
  assumes "over_stream C key timeout R avail W out w"
  shows "\<exists>res t'. handshake C key timeout wt (stream_transport_ops R W) (new_stream_transport r w) = Some (res, t')
     \<and> (67 \<le> length (deframe_all INITIAL (avail r)) \<longrightarrow>
          (\<exists>sent rest. hs_run C key hs_init (deframe_all INITIAL (avail r)) = Some (res, sent, rest)
             \<and> length (deframe_all INITIAL (avail r)) \<le> length rest + 67
             \<and> stream_outbox out t' = hello # sent \<and> length sent \<le> 2))"
proof (cases "hs_run C key hs_init (deframe_all INITIAL (avail r))")
  case None
  with stream_handshake_hangup [OF assms None, of wt]
    hs_run_decides [of hs_init "deframe_all INITIAL (avail r)" C key]
  show ?thesis by (fastforce simp: hs_left_init)
next
  case (Some a)
  then obtain res sent rest where run:
    "hs_run C key hs_init (deframe_all INITIAL (avail r)) = Some (res, sent, rest)" by (cases a) auto
  from hs_run_replies [OF run hs_init_ok] obtain used m where
    ms: "deframe_all INITIAL (avail r) = used @ m # rest" and rep: "replies C key (tokens used) sent"
    and stale: "length (filter (\<lambda>x. \<not> is_token x) used) \<le> 64"
    by (auto simp: replies_init MAX_STALE_def)
  have "length (tokens used) \<le> 2 \<and> length sent \<le> 2"
    using rep by (auto simp: replies_def split: list.splits)
  moreover have "length used = length (tokens used) + length (filter (\<lambda>x. \<not> is_token x) used)"
    by (simp add: tokens_def sum_length_filter_compl)
  ultimately have "length (deframe_all INITIAL (avail r)) \<le> length rest + 67" "length sent \<le> 2"
    using stale ms by simp_all
  with stream_handshake_run [OF assms run, of wt] run show ?thesis by blast
qed

text \<open>
  The same for any transport and a timer that may run out. Sends return; receives return while the
  device is \<open>awake\<close>, which it is at least until the public key went out; a receive under the timer
  always returns: what the receive gives, or that the time is over.
\<close>

definition answering :: "'t transport_ops \<Rightarrow> 't timeout \<Rightarrow> ('t \<Rightarrow> bool) \<Rightarrow> bool" where
  "answering T timeout awake \<longleftrightarrow>
     (\<forall>m t. t_send T m t \<noteq> None) \<and> (\<forall>t. awake t \<longrightarrow> t_recv T t \<noteq> None)
   \<and> (\<forall>w t. \<exists>x t'. timeout w (t_recv T) t = Some (x, t') \<and> (\<forall>r. x = Some r \<longrightarrow> t_recv T t = Some (r, t')))
   \<and> (\<forall>c t. awake t \<longrightarrow> awake (t_configure T c t))
   \<and> (\<forall>t r t'. awake t \<longrightarrow> t_recv T t = Some (r, t') \<longrightarrow> awake t')
   \<and> (\<forall>m t r t'. awake t \<longrightarrow> \<not> (m_command m = Auth \<and> m_arg0 m = AUTH_RSAPUBLICKEY) \<longrightarrow>
        t_send T m t = Some (r, t') \<longrightarrow> awake t')"

lemma answeringD:
  assumes "answering T timeout awake"
  shows "t_send T m t \<noteq> None" and "awake t \<Longrightarrow> t_recv T t \<noteq> None"
    and "\<exists>x t'. timeout w (t_recv T) t = Some (x, t') \<and> (\<forall>r. x = Some r \<longrightarrow> t_recv T t = Some (r, t'))"
    and "awake t \<Longrightarrow> awake (t_configure T c t)" and "awake t \<Longrightarrow> t_recv T t = Some (r, t') \<Longrightarrow> awake t'"
    and "awake t \<Longrightarrow> \<not> (m_command m = Auth \<and> m_arg0 m = AUTH_RSAPUBLICKEY) \<Longrightarrow> t_send T m t = Some (u, t') \<Longrightarrow> awake t'"
  using assms unfolding answering_def by blast+

text \<open>A transport under observation: the messages sent, how many were received, and whether the timer ran out.\<close>

record 't watched =
  inner :: 't
  w_sent :: "message list"
  w_taken :: nat
  w_expired :: bool

definition watching :: "'t \<Rightarrow> 't watched" where
  "watching t = \<lparr>inner = t, w_sent = [], w_taken = 0, w_expired = False\<rparr>"

definition took :: "message result \<Rightarrow> 't \<Rightarrow> 't watched \<Rightarrow> 't watched" where
  "took r t s = s\<lparr>inner := t, w_taken := w_taken s + (if isl r then 0 else 1)\<rparr>"

definition watch :: "'t transport_ops \<Rightarrow> 't watched transport_ops" where
  "watch T =
     \<lparr>t_send = (\<lambda>m s. map_option (\<lambda>(r, t). (r, s\<lparr>inner := t, w_sent := w_sent s @ (if isl r then [] else [m])\<rparr>))
         (t_send T m (inner s))),
      t_recv = (\<lambda>s. map_option (\<lambda>(r, t). (r, took r t s)) (t_recv T (inner s))),
      t_configure = (\<lambda>c s. s\<lparr>inner := t_configure T c (inner s)\<rparr>)\<rparr>"

definition watch_timeout :: "'t transport_ops \<Rightarrow> 't timeout \<Rightarrow> 't watched timeout" where
  "watch_timeout T timeout w recv s =
     map_option (\<lambda>(x, t). (x, case x of None \<Rightarrow> s\<lparr>inner := t, w_expired := True\<rparr> | Some r \<Rightarrow> took r t s))
       (timeout w (t_recv T) (inner s))"

definition unwatched :: "('a \<times> 't watched) option \<Rightarrow> ('a \<times> 't) option" where
  "unwatched = map_option (\<lambda>(x, s). (x, inner s))"

lemma unwatched_simps [simp]:
  "unwatched None = None" "unwatched (Some (x, s)) = Some (x, inner s)"
  by (simp_all add: unwatched_def)

text \<open>Observing a run does not change it.\<close>

lemma watched_send: "unwatched (t_send (watch T) m s) = t_send T m (inner s)"
  by (cases "t_send T m (inner s)") (auto simp: watch_def)

lemma watched_then:
  "unwatched (m s) = m' (inner s) \<Longrightarrow> (\<And>x s. unwatched (k x s) = k' x (inner s)) \<Longrightarrow>
     unwatched (and_then m k s) = and_then m' k' (inner s)"
  by (cases "m s") (auto simp: and_then_def split: option.splits sum.splits)

lemma watched_message: "unwatched (hs_message C key (watch T) st msg s) = hs_message C key T st msg (inner s)"
proof -
  have pure: "unwatched (of_result r s) = of_result r (inner s)" "unwatched (ret y s) = ret y (inner s)"
    "unwatched (throw e s) = throw e (inner s)" for r :: "'x result" and y :: 'y and e and s :: "'b watched"
    by (cases r) simp_all
  have conf: "inner (t_configure (watch T) c s) = t_configure T c (inner s)" for c s by (simp add: watch_def)
  show ?thesis
    by (cases "m_command msg")
      (auto simp: hs_message_def Let_def pure conf watched_send intro!: watched_then split: sum.split)
qed

lemma watched_loop:
  "unwatched (handshake_loop C key (watch_timeout T timeout) wt (watch T) st s)
     = handshake_loop C key timeout wt T st (inner s)"
proof (induction "hs_left st" arbitrary: st s rule: less_induct)
  case less
  let ?recv = "if sent_pubkey st then recv_within (watch_timeout T timeout) wt (t_recv (watch T)) s else t_recv (watch T) s"
  let ?recv' = "if sent_pubkey st then recv_within timeout wt (t_recv T) (inner s) else t_recv T (inner s)"
  have "unwatched (t_recv (watch T) s) = t_recv T (inner s)"
    by (cases "t_recv T (inner s)") (auto simp: watch_def took_def)
  then have "unwatched ?recv = ?recv'"
    by (auto simp: recv_within_def watch_timeout_def took_def split: option.split)
  then consider "?recv = None" "?recv' = None" | r s1 where "?recv = Some (r, s1)" "?recv' = Some (r, inner s1)"
    by (cases ?recv) auto
  then show ?case
  proof cases
    case 1
    then show ?thesis by (simp add: handshake_loop.simps [of C key _ wt _ st])
  next
    case (2 r s1)
    show ?thesis
    proof (cases r)
      case (Inl e)
      with 2 show ?thesis by (simp add: handshake_loop.simps [of C key _ wt _ st])
    next
      case (Inr msg)
      show ?thesis
      proof (cases "hs_message C key (watch T) st msg s1")
        case None
        with watched_message [of C key T st msg s1] 2 Inr show ?thesis
          by (simp add: handshake_loop.simps [of C key _ wt _ st])
      next
        case (Some p)
        obtain x s2 where p: "p = (x, s2)" by fastforce
        with Some watched_message [of C key T st msg s1] have m: "hs_message C key (watch T) st msg s1 = Some (x, s2)"
          "hs_message C key T st msg (inner s1) = Some (x, inner s2)" by simp_all
        have "unwatched (handshake_loop C key (watch_timeout T timeout) wt (watch T) st' s2)
            = handshake_loop C key timeout wt T st' (inner s2)" if "x = Inr (Inr st')" for st'
          by (rule less.hyps [OF hs_message_left]) (use m(1) that in blast)
        with 2 Inr m show ?thesis
          by (simp add: handshake_loop.simps [of C key _ wt _ st] split: sum.split)
      qed
    qed
  qed
qed

lemma watched_handshake:
  "unwatched (handshake C key (watch_timeout T timeout) wt (watch T) s) = handshake C key timeout wt T (inner s)"
proof -
  have "inner (t_configure (watch T) c s) = t_configure T c (inner s)" for c by (simp add: watch_def)
  then show ?thesis
    unfolding handshake_def by (metis (no_types, lifting) watched_then watched_send watched_loop)
qed

definition answers_left :: "hs \<Rightarrow> nat" where
  "answers_left st = (if sent_signature st then 0 else 1) + (if sent_pubkey st then 0 else 1)"

lemma timed_send:
  assumes "answering T timeout awake"
  obtains r s' where "t_send (watch T) m s = Some (r, s')" and "w_taken s' = w_taken s" and "w_expired s' = w_expired s"
    and "w_sent s' = w_sent s @ (if isl r then [] else [m])"
    and "awake (inner s) \<longrightarrow> m_command m = Auth \<and> m_arg0 m = AUTH_RSAPUBLICKEY \<or> awake (inner s')"
proof -
  from answeringD(1) [OF assms, of m "inner s"] obtain r t where t: "t_send T m (inner s) = Some (r, t)" by auto
  with answeringD(6) [OF assms _ _ t] show thesis
    by (intro that [of r "s\<lparr>inner := t, w_sent := w_sent s @ (if isl r then [] else [m])\<rparr>"]) (auto simp: watch_def)
qed

lemma timed_message:
  assumes T: "answering T timeout awake" and quiet: "\<not> sent_pubkey st \<longrightarrow> awake (inner s)"
  shows "\<exists>x s2. hs_message C key (watch T) st msg s = Some (x, s2) \<and> w_taken s2 = w_taken s \<and> w_expired s2 = w_expired s
     \<and> (case x of
          Inr (Inr st') \<Rightarrow> hs_left st' < hs_left st
            \<and> length (w_sent s2) + answers_left st' \<le> length (w_sent s) + answers_left st
            \<and> (\<not> sent_pubkey st' \<longrightarrow> awake (inner s2))
        | _ \<Rightarrow> length (w_sent s2) \<le> length (w_sent s) + answers_left st)"
proof -
  have conf: "t_configure (watch T) c s = s\<lparr>inner := t_configure T c (inner s)\<rparr>" for c by (simp add: watch_def)
  consider (accept) "m_command msg = Connect" | (token) "m_command msg = Auth" "m_arg0 msg = AUTH_TOKEN"
    | (other) "m_command msg = Auth \<longrightarrow> m_arg0 msg \<noteq> AUTH_TOKEN" "m_command msg \<noteq> Connect" by blast
  then show ?thesis
  proof cases
    case accept
    then show ?thesis
      by (cases "negotiate msg") (simp_all add: hs_message_def and_then_ok and_then_err conf)
  next
    case token
    show ?thesis
    proof (cases "sent_signature st")
      case False
      show ?thesis
      proof (cases "sign_token C key (payload msg)")
        case (Inl e)
        with token False show ?thesis by (simp add: hs_message_def and_then_err)
      next
        case (Inr sg)
        from timed_send [OF T, of "new_message Auth AUTH_SIGNATURE 0 sg" s] obtain r s' where
          "t_send (watch T) (new_message Auth AUTH_SIGNATURE 0 sg) s = Some (r, s')" "w_taken s' = w_taken s"
          "w_expired s' = w_expired s" "w_sent s' = w_sent s @ (if isl r then [] else [new_message Auth AUTH_SIGNATURE 0 sg])"
          "awake (inner s) \<longrightarrow> awake (inner s')" by (auto simp: AUTH_SIGNATURE_def AUTH_RSAPUBLICKEY_def)
        with token False Inr quiet show ?thesis
          by (cases r) (auto simp: hs_message_def and_then_ok and_then_err hs_left_def answers_left_def)
      qed
    next
      case True
      show ?thesis
      proof (cases "sent_pubkey st \<or> isl (public_key_payload C key)")
        case True
        with token \<open>sent_signature st\<close> show ?thesis
          by (cases "public_key_payload C key") (auto simp: hs_message_def and_then_err)
      next
        case False
        then obtain p where p: "public_key_payload C key = Inr p" by (cases "public_key_payload C key") auto
        from timed_send [OF T, of "new_message Auth AUTH_RSAPUBLICKEY 0 p" s] obtain r s' where
          "t_send (watch T) (new_message Auth AUTH_RSAPUBLICKEY 0 p) s = Some (r, s')" "w_taken s' = w_taken s"
          "w_expired s' = w_expired s" "w_sent s' = w_sent s @ (if isl r then [] else [new_message Auth AUTH_RSAPUBLICKEY 0 p])"
          by metis
        with token \<open>sent_signature st\<close> False p show ?thesis
          by (cases r) (auto simp: hs_message_def and_then_ok and_then_err hs_left_def answers_left_def)
      qed
    qed
  next
    case other
    with quiet show ?thesis
      by (cases "m_command msg") (auto simp: hs_message_def hs_left_def answers_left_def Let_def)
  qed
qed

lemma timed_receive:
  assumes T: "answering T timeout awake" and "\<not> sent_pubkey st \<longrightarrow> awake (inner s)" and "\<not> w_expired s"
  shows "\<exists>r s1. (if sent_pubkey st then recv_within (watch_timeout T timeout) wt (t_recv (watch T)) s else t_recv (watch T) s)
        = Some (r, s1) \<and> w_sent s1 = w_sent s \<and> (\<not> sent_pubkey st \<longrightarrow> awake (inner s1))
      \<and> (w_expired s1 \<and> r = Inl Unauthorized \<and> w_taken s1 = w_taken s
         \<or> \<not> w_expired s1 \<and> w_taken s1 = w_taken s + (if isl r then 0 else 1))"
proof (cases "sent_pubkey st")
  case True
  obtain x t1 where "timeout wt (t_recv T) (inner s) = Some (x, t1)" using answeringD(3) [OF T] by blast
  with True assms(3) show ?thesis
    by (cases x) (auto simp: recv_within_def watch_timeout_def took_def)
next
  case False
  with assms(2) answeringD(2) [OF T] obtain r t1 where "t_recv T (inner s) = Some (r, t1)" by fastforce
  with False assms(2,3) answeringD(5) [OF T] show ?thesis by (auto simp: watch_def took_def)
qed

lemma timed_loop:
  assumes T: "answering T timeout awake"
  shows "\<not> sent_pubkey st \<longrightarrow> awake (inner s) \<Longrightarrow> \<not> w_expired s \<Longrightarrow>
     \<exists>res s'. handshake_loop C key (watch_timeout T timeout) wt (watch T) st s = Some (res, s')
       \<and> w_taken s' \<le> w_taken s + hs_left st + 1
       \<and> length (w_sent s') \<le> length (w_sent s) + answers_left st \<and> (w_expired s' \<longrightarrow> res = Inl Unauthorized)"
proof (induction "hs_left st" arbitrary: st s rule: less_induct)
  case less
  let ?recv = "if sent_pubkey st then recv_within (watch_timeout T timeout) wt (t_recv (watch T)) s else t_recv (watch T) s"
  from timed_receive [OF T less.prems, of wt] obtain r s1 where recv: "?recv = Some (r, s1)"
    and ob: "w_sent s1 = w_sent s" "\<not> sent_pubkey st \<longrightarrow> awake (inner s1)"
    and r: "w_expired s1 \<and> r = Inl Unauthorized \<and> w_taken s1 = w_taken s
       \<or> \<not> w_expired s1 \<and> w_taken s1 = w_taken s + (if isl r then 0 else 1)" by blast
  show ?case
  proof (cases r)
    case (Inl e)
    with recv ob r show ?thesis by (auto simp: handshake_loop.simps [of C key _ wt _ st s])
  next
    case (Inr msg)
    with r have s1: "\<not> w_expired s1" "w_taken s1 = w_taken s + 1" by auto
    from timed_message [OF T ob(2), of C key msg] obtain x s2 where
      x: "hs_message C key (watch T) st msg s1 = Some (x, s2)" "w_taken s2 = w_taken s1" "w_expired s2 = w_expired s1"
      and out: "case x of
          Inr (Inr st') \<Rightarrow> hs_left st' < hs_left st
            \<and> length (w_sent s2) + answers_left st' \<le> length (w_sent s1) + answers_left st
            \<and> (\<not> sent_pubkey st' \<longrightarrow> awake (inner s2))
        | _ \<Rightarrow> length (w_sent s2) \<le> length (w_sent s1) + answers_left st" by blast
    have eq: "handshake_loop C key (watch_timeout T timeout) wt (watch T) st s =
        (case x of Inl e \<Rightarrow> Some (Inl e, s2) | Inr (Inl n) \<Rightarrow> Some (Inr n, s2)
         | Inr (Inr st') \<Rightarrow> handshake_loop C key (watch_timeout T timeout) wt (watch T) st' s2)"
      using recv Inr x(1) by (simp add: handshake_loop.simps [of C key _ wt _ st s] split: sum.splits)
    show ?thesis
    proof (cases "\<exists>st'. x = Inr (Inr st')")
      case True
      then obtain st' where st': "x = Inr (Inr st')" ..
      with out have left: "hs_left st' < hs_left st"
        "length (w_sent s2) + answers_left st' \<le> length (w_sent s1) + answers_left st"
        "\<not> sent_pubkey st' \<longrightarrow> awake (inner s2)" by auto
      from less.hyps [OF left(1,3)] s1 x(3) obtain res s' where
        "handshake_loop C key (watch_timeout T timeout) wt (watch T) st' s2 = Some (res, s')"
        "w_taken s' \<le> w_taken s2 + hs_left st' + 1" "length (w_sent s') \<le> length (w_sent s2) + answers_left st'"
        "w_expired s' \<longrightarrow> res = Inl Unauthorized" by auto
      with left st' s1 x(2) ob show ?thesis by (intro exI [of _ res] exI [of _ s']) (simp add: eq)
    next
      case False
      with out s1 x(2,3) ob show ?thesis by (auto simp: eq split: sum.splits)
    qed
  qed
qed

text \<open>A stream transport keeps the contract with any timer that returns.\<close>

lemma stream_answering:
  assumes R: "reads_bytes R avail" and W: "writes_bytes W out"
    and timer: "\<And>w t. \<exists>x t'. timeout w (t_recv (stream_transport_ops R W)) t = Some (x, t')
        \<and> (\<forall>r. x = Some r \<longrightarrow> t_recv (stream_transport_ops R W) t = Some (r, t'))"
  shows "answering (stream_transport_ops R W) timeout (\<lambda>_. True)"
proof -
  have "framed_recv R t \<noteq> None" for t
    using framed_recv_deframe [OF R, of t] by (auto split: sum.splits)
  moreover have "framed_send W m t \<noteq> None" for m t
  proof -
    have wr: "\<exists>t'. on_writer (io_err Io (aw_write_all W bs)) t = Some (Inr (), t')" for bs t
    proof -
      obtain w' where "aw_write_all W bs (w_inner t) = Some (Inr (), w')" using W unfolding writes_bytes_def by blast
      then show ?thesis by (simp add: on_writer_def on_part_def io_err_def)
    qed
    have fl: "on_writer (io_err Io (aw_flush W)) t \<noteq> None" for t
    proof -
      obtain w' where "aw_flush W (w_inner t) = Some (Inr (), w')" using W unfolding writes_bytes_def by blast
      then show ?thesis by (simp add: on_writer_def on_part_def io_err_def)
    qed
    show ?thesis
    proof (cases "message_header m (compute_checksum (w_config t))")
      case (Some h)
      obtain t1 where t1: "on_writer (io_err Io (aw_write_all W (encode_header h))) t = Some (Inr (), t1)" using wr by blast
      obtain t2 where "on_writer (io_err Io (aw_write_all W (payload m))) t1 = Some (Inr (), t2)" using wr by blast
      with t1 Some fl show ?thesis by (simp add: framed_send_def and_then_ok)
    qed (simp add: framed_send_def)
  qed
  ultimately show ?thesis
    using timer by (auto simp: answering_def stream_transport_ops_def on_part_def split: option.splits)
qed

text \<open>
  C22: over any transport, whatever the device sends and whenever the timer runs out, the handshake
  returns: it takes at most 67 messages and sends at most three, and a timer that runs out, as it does
  when the device falls silent after the public key, ends it with \<open>Unauthorized\<close>. Before the public key
  is sent the code has no timer, so the receives until then are assumed to return (\<open>answering\<close>).
\<close>

theorem handshake_bounded:
  assumes "answering T timeout awake" and "awake t"
  shows "\<exists>res s. handshake C key timeout wt T t = Some (res, inner s)
     \<and> handshake C key (watch_timeout T timeout) wt (watch T) (watching t) = Some (res, s)
     \<and> w_taken s \<le> 67 \<and> length (w_sent s) \<le> 3 \<and> (w_expired s \<longrightarrow> res = Inl Unauthorized)"
proof -
  let ?m = "new_message Connect VERSION MAX_PAYLOAD (as_bytes host_banner)"
  let ?T = "watch T" and ?s = "t_configure (watch T) INITIAL (watching t)"
  have s: "w_sent ?s = []" "w_taken ?s = 0" "\<not> w_expired ?s" "awake (inner ?s)"
    using assms by (simp_all add: watch_def watching_def answeringD(4))
  from timed_send [OF assms(1), of ?m ?s] obtain r s1 where s1: "t_send ?T ?m ?s = Some (r, s1)"
    "w_taken s1 = 0" "\<not> w_expired s1" "w_sent s1 = (if isl r then [] else [?m])" "awake (inner s1)"
    using s by auto
  have "\<exists>res s'. handshake C key (watch_timeout T timeout) wt ?T (watching t) = Some (res, s')
     \<and> w_taken s' \<le> 67 \<and> length (w_sent s') \<le> 3 \<and> (w_expired s' \<longrightarrow> res = Inl Unauthorized)"
  proof (cases r)
    case (Inl e)
    with s1 show ?thesis by (simp add: handshake_def and_then_err)
  next
    case (Inr u)
    have "answers_left hs_init = 2" by (simp add: answers_left_def hs_init_def)
    with timed_loop [OF assms(1), of hs_init s1 C key wt] s1 Inr obtain res s' where
      "handshake_loop C key (watch_timeout T timeout) wt ?T hs_init s1 = Some (res, s')" "w_taken s' \<le> 67"
      "length (w_sent s') \<le> 3" "w_expired s' \<longrightarrow> res = Inl Unauthorized" by (auto simp: hs_left_init)
    with s1(1) Inr show ?thesis by (auto simp: handshake_def and_then_ok)
  qed
  moreover have "inner (watching t) = t" by (simp add: watching_def)
  ultimately show ?thesis using watched_handshake [of C key T timeout wt "watching t"] by fastforce
qed

text \<open>Its witness: a device that asks for the signature and for the key, and then says nothing more.\<close>

definition quiet_device :: "(message list \<times> bool) transport_ops" where
  "quiet_device =
     \<lparr>t_send = (\<lambda>m (ms, asked). Some (Inr (), (ms, asked \<or> m_command m = Auth \<and> m_arg0 m = AUTH_RSAPUBLICKEY))),
      t_recv = (\<lambda>(ms, asked). case ms of
         m # ms \<Rightarrow> Some (Inr m, (ms, asked)) | [] \<Rightarrow> if asked then None else Some (Inl Disconnected, (ms, asked))),
      t_configure = (\<lambda>_ t. t)\<rparr>"

lemma quiet_device_answering: "answering quiet_device sample_timeout (\<lambda>(ms, asked). \<not> asked)"
  by (auto simp: answering_def quiet_device_def sample_timeout_def split: list.splits option.splits if_splits)

definition token_of :: "u8 \<Rightarrow> message" where
  "token_of b = new_message Auth AUTH_TOKEN 0 (replicate 20 b)"

theorem handshake_bounded_witness:
  "\<exists>s. handshake sample_crypto sample_host sample_timeout 9 quiet_device ([token_of 7, token_of 8], False)
        = Some (Inl Unauthorized, ([], True))
     \<and> handshake sample_crypto sample_host (watch_timeout quiet_device sample_timeout) 9 (watch quiet_device)
          (watching ([token_of 7, token_of 8], False)) = Some (Inl Unauthorized, s)
     \<and> w_taken s \<le> 67 \<and> length (w_sent s) \<le> 3"
proof -
  let ?t = "([token_of 7, token_of 8], False)"
  obtain p where p: "public_key_payload sample_crypto sample_host = Inr p" by (rule sample_pubkey)
  have sign: "sign_token sample_crypto sample_host (replicate 20 7) = Inr (replicate 20 7)" by (rule sample_sign) simp
  have run: "handshake sample_crypto sample_host sample_timeout 9 quiet_device ?t = Some (Inl Unauthorized, ([], True))"
    using p sign
    by (simp add: handshake_def handshake_loop.simps hs_message_def quiet_device_def sample_timeout_def recv_within_def
        and_then_ok token_of_def hs_init_def AUTH_SIGNATURE_def AUTH_RSAPUBLICKEY_def)
  from handshake_bounded [OF quiet_device_answering, of ?t sample_crypto sample_host 9] run show ?thesis by auto
qed

text \<open>
  65 frames of an earlier session in front of the banner end the handshake with the error
  that says so, and the host has sent nothing but its \<open>CNXN\<close>; up to 64 of them are skipped.
\<close>

lemma handshake_stale_limit:
  assumes "over_stream C key timeout R avail W out w"
    and "deframe_all INITIAL (avail r) = ms @ m # later" and "\<forall>x \<in> set ms. stale x"
    and "m_command m = Connect \<and> length ms \<le> 64 \<or> stale m \<and> length ms = 64"
  shows "\<exists>t'. handshake C key timeout wt (stream_transport_ops R W) (new_stream_transport r w)
       = Some (if m_command m = Connect then negotiate m else Inl (too_many_stale 65), t')
     \<and> stream_outbox out t' = [hello]"
proof -
  have "hs_run C key hs_init (deframe_all INITIAL (avail r))
      = Some (if m_command m = Connect then negotiate m else Inl (too_many_stale 65), [], later)"
    using assms(4)
  proof
    assume c: "m_command m = Connect \<and> length ms \<le> 64"
    then have "hs_run C key hs_init (ms @ m # later)
        = hs_run C key (hs_init\<lparr>skipped := length ms\<rparr>) (m # later)"
      using hs_run_stale [OF assms(3), of hs_init C key "m # later"] by (simp add: MAX_STALE_def)
    with c show ?thesis by (simp add: assms(2) hs_decide_def)
  next
    assume c: "stale m \<and> length ms = 64"
    then have "m_command m \<noteq> Connect" by (auto simp: stale_def)
    with c hs_run_too_many [of "ms @ [m]" C key later] assms(2,3) show ?thesis
      by (simp add: MAX_STALE_def)
  qed
  from stream_handshake_run [OF assms(1) this, of wt] show ?thesis by auto
qed

text \<open>
  Negotiation refuses exactly the versions below the minimum, and what it accepts is bounded
  by both sides: the version lies between the minimum and ours, the payload limit is positive,
  at most 1 MiB and at most what the device announced, where an announcement of zero stands for
  256 KiB.
\<close>

lemma negotiate_bounds:
  "case negotiate m of
     Inl e \<Rightarrow> m_arg0 m < VERSION_MIN
   | Inr n \<Rightarrow> VERSION_MIN \<le> n_version n \<and> n_version n \<le> VERSION \<and> n_version n \<le> m_arg0 m
       \<and> 0 < n_max_payload n \<and> n_max_payload n \<le> MAX_PAYLOAD
       \<and> n_max_payload n \<le> (if m_arg1 m = 0 then LEGACY_MAX_PAYLOAD else m_arg1 m)
       \<and> (VERSION_SKIP_CHECKSUM \<le> m_arg0 m \<longleftrightarrow>
            \<not> compute_checksum (negotiated_config (n_version n) (n_max_payload n)))"
  by (auto simp: negotiate_def Let_def VERSION_MIN_def VERSION_def LEGACY_MAX_PAYLOAD_def
      MAX_PAYLOAD_def VERSION_SKIP_CHECKSUM_def negotiated_config_def min_def word_neq_0_conv not_less)


end
