(* ===== verification/Registry.thy ===== *)
theory Registry
  imports Handshake "HOL-Library.AList"
begin

section \<open>Stream states and the registry\<close>

text \<open>
  \<open>src/session/registry.rs\<close>. An \<open>Arc<StreamState>\<close> is an index into \<open>states\<close>, the list of all
  stream states ever made; the registry maps local ids to such indices, as the code's \<open>HashMap\<close>
  maps them to the shared \<open>Arc\<close>s. A stream that was removed from the map is still reachable by its
  owner, which is what makes reads after \<open>CLSE\<close> work.

  The unbounded tokio channel between the reader task and the owner is the queue \<open>data_q\<close>:
  \<open>data_tx\<close> says that the sender is still in the state, \<open>rx_alive\<close> that the owner holds the
  receiver. \<open>wake\<close> is the stored permit of \<open>tokio::sync::Notify\<close>. Every atomic access or locked
  section of the code is one function here; poisoned locks are recovered by the code and never
  matter.
\<close>

subsection \<open>One stream\<close>

record stream_state =
  local_id :: u32
  remote_id :: u32
  closed :: bool
  acks :: u64
  wake :: bool
  data_tx :: bool
  data_q :: "bytes list"
  rx_alive :: bool

definition new_state :: "u32 \<Rightarrow> stream_state" where
  "new_state i = \<lparr>local_id = i, remote_id = 0, closed = False, acks = 0, wake = False,
     data_tx = True, data_q = [], rx_alive = True\<rparr>"

definition remote :: "stream_state \<Rightarrow> u32 option" where
  "remote st = (if remote_id st = 0 then None else Some (remote_id st))"

definition ack :: "u32 \<Rightarrow> stream_state \<Rightarrow> stream_state" where
  "ack r st =
     (let st1 = (if remote st = None then st\<lparr>remote_id := r\<rparr> else st) in
      st1\<lparr>acks := acks st1 + 1, wake := True\<rparr>)"

definition deliver :: "bytes \<Rightarrow> stream_state \<Rightarrow> bool \<times> stream_state" where
  "deliver data st =
     (if data_tx st \<and> rx_alive st then (True, st\<lparr>data_q := data_q st @ [data]\<rparr>) else (False, st))"

definition mark_closed :: "stream_state \<Rightarrow> stream_state" where
  "mark_closed st = st\<lparr>closed := True, data_tx := False, wake := True\<rparr>"

text \<open>One round of the loop in \<open>wait_ack\<close>: the answer, or \<open>None\<close> when it has to wait.\<close>

definition poll_ack :: "u64 \<Rightarrow> stream_state \<Rightarrow> bool option" where
  "poll_ack seen st =
     (if seen < acks st then Some True else if closed st then Some False else None)"

text \<open>\<open>notified().await\<close> completes when a permit is stored, and takes it.\<close>

definition take_permit :: "stream_state \<Rightarrow> bool \<times> stream_state" where
  "take_permit st = (wake st, st\<lparr>wake := False\<rparr>)"

text \<open>
  \<open>data_rx.recv()\<close>: the next chunk, the end of the channel, or still waiting. Chunks that were
  buffered before the sender went away are still received.
\<close>

datatype 'a polled = Ready 'a | Pending

definition take_data :: "stream_state \<Rightarrow> bytes option polled \<times> stream_state" where
  "take_data st =
     (case data_q st of
        c # cs \<Rightarrow> (Ready (Some c), st\<lparr>data_q := cs\<rparr>)
      | [] \<Rightarrow> (if data_tx st then Pending else Ready None, st))"

definition drop_rx :: "stream_state \<Rightarrow> stream_state" where
  "drop_rx st = st\<lparr>rx_alive := False, data_q := []\<rparr>"

subsection \<open>The registry\<close>

record registry =
  streams :: "(u32 \<times> nat) list"
  next_id :: u32
  states :: "stream_state list"

definition new_registry :: registry where
  "new_registry = \<lparr>streams = [], next_id = 1, states = []\<rparr>"

definition state_at :: "nat \<Rightarrow> registry \<Rightarrow> stream_state" where
  "state_at i r = states r ! i"

definition on_state :: "nat \<Rightarrow> (stream_state \<Rightarrow> stream_state) \<Rightarrow> registry \<Rightarrow> registry" where
  "on_state i f r = r\<lparr>states := (states r)[i := f (states r ! i)]\<rparr>"

text \<open>\<open>next_id.fetch_add(1)\<close>, repeated once when it gave the reserved id 0.\<close>

definition fresh_id :: "u32 \<Rightarrow> u32 \<times> u32" where
  "fresh_id n = (if n = 0 then (n + 1, n + 1 + 1) else (n, n + 1))"

definition register :: "registry \<Rightarrow> nat \<times> registry" where
  "register r =
     (let (lid, next) = fresh_id (next_id r); i = length (states r) in
      (i, r\<lparr>next_id := next, states := states r @ [new_state lid],
            streams := AList.update lid i (streams r)\<rparr>))"

definition get :: "u32 \<Rightarrow> registry \<Rightarrow> nat option" where
  "get lid r = map_of (streams r) lid"

definition remove :: "u32 \<Rightarrow> registry \<Rightarrow> nat option \<times> registry" where
  "remove lid r = (map_of (streams r) lid, r\<lparr>streams := AList.delete lid (streams r)\<rparr>)"

definition close_all :: "registry \<Rightarrow> registry" where
  "close_all r = foldl (\<lambda>r i. on_state i mark_closed r) (r\<lparr>streams := []\<rparr>) (map snd (streams r))"

definition live_streams :: "registry \<Rightarrow> nat" where
  "live_streams r = length (streams r)"

subsection \<open>Well-formed registries\<close>

text \<open>
  Ids are unique and never 0, every entry points to the state with its id, and a state without a
  sender is a closed one.
\<close>

definition state_wf :: "stream_state \<Rightarrow> bool" where
  "state_wf st \<longleftrightarrow> local_id st \<noteq> 0 \<and> (closed st \<longleftrightarrow> \<not> data_tx st) \<and> (rx_alive st \<or> data_q st = [])"

definition registry_wf :: "registry \<Rightarrow> bool" where
  "registry_wf r \<longleftrightarrow> distinct (map fst (streams r))
     \<and> (\<forall>(lid, i) \<in> set (streams r). i < length (states r) \<and> local_id (states r ! i) = lid)
     \<and> (\<forall>st \<in> set (states r). state_wf st)"

named_theorems state_simps \<open>effect of the stream operations on each field\<close>

lemma new_state_sel [state_simps]:
  "local_id (new_state i) = i" "remote_id (new_state i) = 0" "\<not> closed (new_state i)"
  "acks (new_state i) = 0" "\<not> wake (new_state i)" "data_tx (new_state i)"
  "data_q (new_state i) = []" "rx_alive (new_state i)"
  by (simp_all add: new_state_def)

lemma ack_sel [state_simps]:
  "local_id (ack k st) = local_id st" "closed (ack k st) = closed st"
  "acks (ack k st) = acks st + 1" "wake (ack k st)" "data_tx (ack k st) = data_tx st"
  "data_q (ack k st) = data_q st" "rx_alive (ack k st) = rx_alive st"
  "remote_id (ack k st) = (if remote_id st = 0 then k else remote_id st)"
  by (simp_all add: ack_def Let_def remote_def)

lemma mark_closed_sel [state_simps]:
  "local_id (mark_closed st) = local_id st" "closed (mark_closed st)"
  "acks (mark_closed st) = acks st" "wake (mark_closed st)" "\<not> data_tx (mark_closed st)"
  "data_q (mark_closed st) = data_q st" "rx_alive (mark_closed st) = rx_alive st"
  "remote_id (mark_closed st) = remote_id st"
  by (simp_all add: mark_closed_def)

lemma mark_closed_idem [simp]: "mark_closed (mark_closed st) = mark_closed st"
  by (simp add: mark_closed_def)

lemma deliver_sel [state_simps]:
  "fst (deliver d st) = (data_tx st \<and> rx_alive st)"
  "data_q (snd (deliver d st)) = data_q st @ (if data_tx st \<and> rx_alive st then [d] else [])"
  "local_id (snd (deliver d st)) = local_id st" "closed (snd (deliver d st)) = closed st"
  "acks (snd (deliver d st)) = acks st" "wake (snd (deliver d st)) = wake st"
  "data_tx (snd (deliver d st)) = data_tx st" "rx_alive (snd (deliver d st)) = rx_alive st"
  "remote_id (snd (deliver d st)) = remote_id st"
  by (simp_all add: deliver_def)

lemma take_data_sel [state_simps]:
  "local_id (snd (take_data st)) = local_id st" "closed (snd (take_data st)) = closed st"
  "acks (snd (take_data st)) = acks st" "wake (snd (take_data st)) = wake st"
  "data_tx (snd (take_data st)) = data_tx st" "rx_alive (snd (take_data st)) = rx_alive st"
  "remote_id (snd (take_data st)) = remote_id st" "data_q (snd (take_data st)) = tl (data_q st)"
  by (simp_all add: take_data_def split: list.splits)

lemma take_permit_sel [state_simps]:
  "fst (take_permit st) = wake st"
  "local_id (snd (take_permit st)) = local_id st" "closed (snd (take_permit st)) = closed st"
  "acks (snd (take_permit st)) = acks st" "\<not> wake (snd (take_permit st))"
  "data_tx (snd (take_permit st)) = data_tx st" "rx_alive (snd (take_permit st)) = rx_alive st"
  "remote_id (snd (take_permit st)) = remote_id st" "data_q (snd (take_permit st)) = data_q st"
  by (simp_all add: take_permit_def)

lemma drop_rx_sel [state_simps]:
  "local_id (drop_rx st) = local_id st" "closed (drop_rx st) = closed st"
  "acks (drop_rx st) = acks st" "wake (drop_rx st) = wake st" "data_tx (drop_rx st) = data_tx st"
  "\<not> rx_alive (drop_rx st)" "remote_id (drop_rx st) = remote_id st" "data_q (drop_rx st) = []"
  by (simp_all add: drop_rx_def)

lemma states_wf:
  "i \<noteq> 0 \<Longrightarrow> state_wf (new_state i)"
  "state_wf st \<Longrightarrow> state_wf (ack k st)"
  "state_wf st \<Longrightarrow> state_wf (mark_closed st)"
  "state_wf st \<Longrightarrow> state_wf (snd (deliver d st))"
  "state_wf st \<Longrightarrow> state_wf (snd (take_data st))"
  "state_wf st \<Longrightarrow> state_wf (snd (take_permit st))"
  "state_wf st \<Longrightarrow> state_wf (drop_rx st)"
  by (auto simp: state_wf_def state_simps)

lemma on_state_sel [simp]:
  "streams (on_state i f r) = streams r" "next_id (on_state i f r) = next_id r"
  "length (states (on_state i f r)) = length (states r)"
  "state_at j (on_state i f r) = (if j = i \<and> i < length (states r) then f (state_at i r) else state_at j r)"
  by (simp_all add: on_state_def state_at_def) (cases "i < length (states r)", auto simp: not_less list_update_beyond)

lemma registry_wfI:
  assumes "distinct (map fst (streams r))" and "\<And>st. st \<in> set (states r) \<Longrightarrow> state_wf st"
    and "\<And>lid i. (lid, i) \<in> set (streams r) \<Longrightarrow> i < length (states r) \<and> local_id (states r ! i) = lid"
  shows "registry_wf r"
  using assms by (auto simp: registry_wf_def)

lemma registry_wfD:
  assumes "registry_wf r"
  shows "distinct (map fst (streams r))" and "st \<in> set (states r) \<Longrightarrow> state_wf st"
    and "(lid, i) \<in> set (streams r) \<Longrightarrow> i < length (states r) \<and> local_id (states r ! i) = lid"
  using assms by (auto simp: registry_wf_def)

lemma state_at_wf: "registry_wf r \<Longrightarrow> i < length (states r) \<Longrightarrow> state_wf (state_at i r)"
  by (simp add: registry_wf_def state_at_def)

lemma on_state_wf:
  assumes "registry_wf r" and "\<And>st. state_wf st \<Longrightarrow> state_wf (f st)"
    and "\<And>st. local_id (f st) = local_id st"
  shows "registry_wf (on_state i f r)"
proof (rule registry_wfI)
  show "distinct (map fst (streams (on_state i f r)))" using registry_wfD(1) [OF assms(1)] by simp
  show "state_wf st" if "st \<in> set (states (on_state i f r))" for st
    using that registry_wfD(2) [OF assms(1)] assms(2)
    by (cases "i < length (states r)")
      (auto simp: on_state_def not_less list_update_beyond dest!: set_update_subset_insert [THEN subsetD])
  show "k < length (states (on_state i f r)) \<and> local_id (states (on_state i f r) ! k) = lid"
    if "(lid, k) \<in> set (streams (on_state i f r))" for lid k
    using that registry_wfD(3) [OF assms(1), of lid k] assms(3)
    by (cases "k = i") (auto simp: on_state_def)
qed

lemma fresh_id_pos: "fst (fresh_id n) \<noteq> 0"
  by (simp add: fresh_id_def)

lemma register_sel:
  assumes "register r = (i, r')"
  shows "i = length (states r)" and "states r' = states r @ [new_state (fst (fresh_id (next_id r)))]"
    and "streams r' = AList.update (fst (fresh_id (next_id r))) i (streams r)"
    and "next_id r' = snd (fresh_id (next_id r))"
  using assms by (auto simp: register_def Let_def split: prod.splits)

lemma register_wf:
  assumes "registry_wf r" and "register r = (i, r')"
  shows "registry_wf r'"
proof -
  note sel = register_sel [OF assms(2)]
  let ?lid = "fst (fresh_id (next_id r))"
  show ?thesis
  proof (rule registry_wfI)
    show d: "distinct (map fst (streams r'))"
      using registry_wfD(1) [OF assms(1)] by (simp add: sel distinct_update)
    show "state_wf st" if "st \<in> set (states r')" for st
      using that registry_wfD(2) [OF assms(1)] states_wf(1) [OF fresh_id_pos] by (auto simp: sel)
    show "k < length (states r') \<and> local_id (states r' ! k) = lid" if a: "(lid, k) \<in> set (streams r')" for lid k
    proof -
      have "map_of (streams r') lid = Some k" by (rule map_of_is_SomeI [OF d a])
      then have "lid = ?lid \<and> k = length (states r) \<or> (lid, k) \<in> set (streams r)"
        using map_of_SomeD [of "streams r" lid k] by (auto simp: sel update_conv split: if_splits)
      then show ?thesis
        using registry_wfD(3) [OF assms(1), of lid k] by (auto simp: sel nth_append state_simps)
    qed
  qed
qed

lemma get_wf: "registry_wf r \<Longrightarrow> get lid r = Some i \<Longrightarrow> i < length (states r) \<and> local_id (state_at i r) = lid"
  unfolding get_def by (drule map_of_SomeD) (auto simp: registry_wf_def state_at_def)

lemma remove_wf: "registry_wf r \<Longrightarrow> registry_wf (snd (remove lid r))"
  by (auto intro!: registry_wfI dest: registry_wfD simp: remove_def distinct_delete AList.delete_eq
      distinct_map_filter)

lemma states_on_state [simp]: "states (on_state i f r) = (states r)[i := f (states r ! i)]"
  by (simp add: on_state_def)

lemma mark_closed_update:
  "mark_closed (xs[i := mark_closed (xs ! i)] ! k) = mark_closed (xs ! k)"
  by (cases "i < length xs") (auto simp: nth_list_update not_less list_update_beyond)

lemma close_all_states:
  "states (foldl (\<lambda>r i. on_state i mark_closed r) r is)
     = map (\<lambda>k. if k \<in> set is then mark_closed (states r ! k) else states r ! k) [0..<length (states r)]"
proof (induction "is" arbitrary: r)
  case Nil
  then show ?case by (simp add: map_nth)
next
  case (Cons i js)
  show ?case
    by (auto simp: Cons.IH mark_closed_update intro!: nth_equalityI)
qed

lemma foldl_on_state_sel [simp]:
  "streams (foldl (\<lambda>r i. on_state i f r) r is) = streams r"
  "next_id (foldl (\<lambda>r i. on_state i f r) r is) = next_id r"
  "length (states (foldl (\<lambda>r i. on_state i f r) r is)) = length (states r)"
  by (induction "is" arbitrary: r) simp_all

lemma close_all_sel:
  "streams (close_all r) = []" "next_id (close_all r) = next_id r"
  "length (states (close_all r)) = length (states r)"
  "i < length (states r) \<Longrightarrow> state_at i (close_all r)
     = (if i \<in> snd ` set (streams r) then mark_closed (state_at i r) else state_at i r)"
  by (simp_all add: close_all_def close_all_states state_at_def)

lemma close_all_wf: "registry_wf r \<Longrightarrow> registry_wf (close_all r)"
  by (auto simp: registry_wf_def close_all_sel(1) close_all_def close_all_states intro!: states_wf(3))

lemma new_registry_wf: "registry_wf new_registry"
  by (simp add: registry_wf_def new_registry_def)

end
