(* ===== verification/Session.thy ===== *)
theory Session
  imports Registry "HOL-Library.Sublist"
begin

section \<open>Sessions: the reader, the writer and what the streams share\<close>

text \<open>
  \<open>src/session/reader.rs\<close> and the shared state of \<open>src/session/mod.rs\<close>. A session is the registry,
  the queue of messages for the writer task (\<open>outbox\<close>), and the two tasks, alive or finished. Each
  task and each owner of a stream acts by atomic events; \<open>session_step\<close> is their interleaving: one
  message dispatched or one receive failed by the reader, one message sent or one send failed by
  the writer, and the single accesses to shared state that \<open>Session\<close> and \<open>Stream\<close> make.

  \<open>history\<close> is not in the code: it records the order of the effects, for the statements.
\<close>

subsection \<open>State\<close>

datatype effect = Posted message | Acked nat | Delivered nat bytes | Taken nat bytes

record session =
  reg :: registry
  outbox :: "message list"
  writer_alive :: bool
  reader_alive :: bool
  on_wire :: "message list"
  agreed :: negotiated
  history :: "effect list"

text \<open>\<open>Session::start\<close>: an empty registry, an empty queue and both tasks running.\<close>

definition session_start :: "negotiated \<Rightarrow> session" where
  "session_start n = \<lparr>reg = new_registry, outbox = [], writer_alive = True, reader_alive = True,
     on_wire = [], agreed = n, history = []\<rparr>"

text \<open>\<open>Session::connect\<close>: the handshake, then the session over the halves of the transport.\<close>

definition session_connect ::
  "('sk, 'pk) crypto \<Rightarrow> ('sk, 'pk) host_key \<Rightarrow> 't timeout \<Rightarrow> nat \<Rightarrow> 't transport_ops
     \<Rightarrow> ('t, session) comp" where
  "session_connect C key timeout auth_wait T =
     and_then (handshake C key timeout auth_wait T) (\<lambda>n. ret (session_start n))"

definition session_banner :: "session \<Rightarrow> banner" where
  "session_banner s = n_banner (agreed s)"

definition session_max_payload :: "session \<Rightarrow> u32" where
  "session_max_payload s = n_max_payload (agreed s)"

definition session_features :: "session \<Rightarrow> str list" where
  "session_features s = features (n_banner (agreed s))"

definition session_is_alive :: "session \<Rightarrow> bool" where
  "session_is_alive s \<longleftrightarrow> reader_alive s \<and> writer_alive s"

definition session_close :: "session \<Rightarrow> session" where
  "session_close s =
     s\<lparr>reg := close_all (reg s), reader_alive := False, writer_alive := False, outbox := []\<rparr>"

definition note_effect :: "effect \<Rightarrow> session \<Rightarrow> session" where
  "note_effect x s = s\<lparr>history := history s @ [x]\<rparr>"

definition stream_of :: "session \<Rightarrow> nat \<Rightarrow> stream_state" where
  "stream_of s i = state_at i (reg s)"

definition update_stream :: "nat \<Rightarrow> (stream_state \<Rightarrow> stream_state) \<Rightarrow> session \<Rightarrow> session" where
  "update_stream i f s = s\<lparr>reg := on_state i f (reg s)\<rparr>"

text \<open>\<open>outbox.send(msg)\<close> with \<open>map_err(|_| Error::Disconnected)\<close>: it fails once the writer is gone.\<close>

definition post :: "message \<Rightarrow> session \<Rightarrow> unit result \<times> session" where
  "post m s =
     (if writer_alive s then (Inr (), note_effect (Posted m) (s\<lparr>outbox := outbox s @ [m]\<rparr>))
      else (Inl Disconnected, s))"

subsection \<open>The reader task\<close>

definition mid_session_tls :: error where
  "mid_session_tls = Unsupported (Lit ''device requested A_STLS mid-session'')"

definition device_open :: error where
  "device_open = Protocol (Lit ''device tried to open a stream towards the host'')"

definition dispatch :: "message \<Rightarrow> session \<Rightarrow> unit result \<times> session" where
  "dispatch msg s =
     (let remote_id = m_arg0 msg; lid = m_arg1 msg in
      case m_command msg of
        Okay \<Rightarrow>
          (case get lid (reg s) of
             Some i \<Rightarrow> (Inr (), note_effect (Acked i) (update_stream i (ack remote_id) s))
           | None \<Rightarrow> (Inr (), s))
      | Write \<Rightarrow>
          (case get lid (reg s) of
             Some i \<Rightarrow>
               (case deliver (payload msg) (stream_of s i) of
                  (True, st) \<Rightarrow>
                    (Inr (), note_effect (Delivered i (payload msg)) (update_stream i (\<lambda>_. st) s))
                | (False, _) \<Rightarrow> post (empty_message Close lid remote_id) s)
           | None \<Rightarrow> post (empty_message Close lid remote_id) s)
      | Close \<Rightarrow>
          (case remove lid (reg s) of
             (Some i, r) \<Rightarrow> (Inr (), update_stream i mark_closed (s\<lparr>reg := r\<rparr>))
           | (None, r) \<Rightarrow> (Inr (), s\<lparr>reg := r\<rparr>))
      | StartTls \<Rightarrow> (Inl mid_session_tls, s)
      | Open \<Rightarrow> (Inl device_open, s)
      | _ \<Rightarrow> (Inr (), s))"

text \<open>The end of \<open>read_loop\<close>, and one round of it: a message or an error from the transport.\<close>

definition reader_stop :: "session \<Rightarrow> session" where
  "reader_stop s = s\<lparr>reg := close_all (reg s), reader_alive := False\<rparr>"

definition read_step :: "message result \<Rightarrow> session \<Rightarrow> session" where
  "read_step r s =
     (case r of
        Inr msg \<Rightarrow> (case dispatch msg s of (Inr _, s') \<Rightarrow> s' | (Inl e, s') \<Rightarrow> reader_stop s')
      | Inl e \<Rightarrow> reader_stop s)"

subsection \<open>The writer task\<close>

text \<open>One round of \<open>write_loop\<close>: the next message goes out, or the sink fails and the queue is closed.\<close>

definition write_step :: "error option \<Rightarrow> session \<Rightarrow> session" where
  "write_step failure s =
     (case outbox s of
        [] \<Rightarrow> s
      | m # ms \<Rightarrow>
          (case failure of
             None \<Rightarrow> s\<lparr>outbox := ms, on_wire := on_wire s @ [m]\<rparr>
           | Some e \<Rightarrow> s\<lparr>outbox := [], writer_alive := False\<rparr>))"

subsection \<open>Events\<close>

datatype event =
    Received "message result"
  | Written "error option"
  | Session_closed
  | Registers
  | Posts message
  | Takes nat
  | Permits nat
  | Marks nat
  | Removes u32
  | Drops nat

definition take_chunk :: "nat \<Rightarrow> session \<Rightarrow> bytes option polled \<times> session" where
  "take_chunk i s =
     (case take_data (stream_of s i) of
        (Ready (Some c), st) \<Rightarrow> (Ready (Some c), note_effect (Taken i c) (update_stream i (\<lambda>_. st) s))
      | (p, st) \<Rightarrow> (p, s))"

definition register_stream :: "session \<Rightarrow> nat \<times> session" where
  "register_stream s = (case register (reg s) of (i, r) \<Rightarrow> (i, s\<lparr>reg := r\<rparr>))"

definition remove_stream :: "u32 \<Rightarrow> session \<Rightarrow> session" where
  "remove_stream lid s = s\<lparr>reg := snd (remove lid (reg s))\<rparr>"

fun enabled :: "event \<Rightarrow> session \<Rightarrow> bool" where
  "enabled (Received r) s \<longleftrightarrow> reader_alive s"
| "enabled (Written f) s \<longleftrightarrow> writer_alive s \<and> outbox s \<noteq> []"
| "enabled (Takes i) s \<longleftrightarrow> i < length (states (reg s))"
| "enabled (Permits i) s \<longleftrightarrow> i < length (states (reg s))"
| "enabled (Marks i) s \<longleftrightarrow> i < length (states (reg s))"
| "enabled (Drops i) s \<longleftrightarrow> i < length (states (reg s))"
| "enabled _ s \<longleftrightarrow> True"

fun happen :: "event \<Rightarrow> session \<Rightarrow> session" where
  "happen (Received r) s = read_step r s"
| "happen (Written f) s = write_step f s"
| "happen Session_closed s = session_close s"
| "happen Registers s = snd (register_stream s)"
| "happen (Posts m) s = snd (post m s)"
| "happen (Takes i) s = snd (take_chunk i s)"
| "happen (Permits i) s = update_stream i (\<lambda>st. snd (take_permit st)) s"
| "happen (Marks i) s = update_stream i mark_closed s"
| "happen (Removes lid) s = remove_stream lid s"
| "happen (Drops i) s = update_stream i drop_rx s"

inductive session_step :: "session \<Rightarrow> event \<Rightarrow> session \<Rightarrow> bool" where
  happened: "enabled e s \<Longrightarrow> session_step s e (happen e s)"

inductive reachable :: "negotiated \<Rightarrow> session \<Rightarrow> bool" for n :: negotiated where
  begun: "reachable n (session_start n)"
| moved: "reachable n s \<Longrightarrow> session_step s e s' \<Longrightarrow> reachable n s'"

inductive_cases session_stepE: "session_step s e s'"

inductive_simps session_step_simps [simp]: "session_step s e s'"

text \<open>What other tasks do while one is suspended: events in order, those that cannot happen skipped.\<close>

fun happens :: "event list \<Rightarrow> session \<Rightarrow> session" where
  "happens [] s = s"
| "happens (e # es) s = happens es (if enabled e s then happen e s else s)"

lemma happens_reachable: "reachable n s \<Longrightarrow> reachable n (happens es s)"
  by (induction es arbitrary: s) (auto intro: reachable.moved [OF _ session_step.happened])

lemma happens_append: "happens (es @ es') s = happens es' (happens es s)"
  by (induction es arbitrary: s) simp_all

subsection \<open>Effects\<close>

fun delivered :: "nat \<Rightarrow> effect list \<Rightarrow> bytes list" where
  "delivered i [] = []"
| "delivered i (Delivered j c # h) = (if j = i then c # delivered i h else delivered i h)"
| "delivered i (_ # h) = delivered i h"

fun taken :: "nat \<Rightarrow> effect list \<Rightarrow> bytes list" where
  "taken i [] = []"
| "taken i (Taken j c # h) = (if j = i then c # taken i h else taken i h)"
| "taken i (_ # h) = taken i h"

fun posted :: "effect list \<Rightarrow> message list" where
  "posted [] = []"
| "posted (Posted m # h) = m # posted h"
| "posted (_ # h) = posted h"

fun acked :: "nat \<Rightarrow> effect list \<Rightarrow> nat" where
  "acked i [] = 0"
| "acked i (Acked j # h) = (if j = i then Suc (acked i h) else acked i h)"
| "acked i (_ # h) = acked i h"

named_theorems effect_simps \<open>the views of a history\<close>

lemma delivered_append [effect_simps]: "delivered i (h @ h') = delivered i h @ delivered i h'"
  by (induction i h rule: delivered.induct) simp_all

lemma taken_append [effect_simps]: "taken i (h @ h') = taken i h @ taken i h'"
  by (induction i h rule: taken.induct) simp_all

lemma posted_append [effect_simps]: "posted (h @ h') = posted h @ posted h'"
  by (induction h rule: posted.induct) simp_all

lemma acked_append [effect_simps]: "acked i (h @ h') = acked i h + acked i h'"
  by (induction i h rule: acked.induct) simp_all

subsection \<open>The invariant\<close>

text \<open>
  What one stream's state says of its history: the number of acknowledgements, and that what was
  delivered is what the owner took followed by what is still queued.
\<close>

definition stream_inv :: "nat \<Rightarrow> stream_state \<Rightarrow> effect list \<Rightarrow> bool" where
  "stream_inv i st h \<longleftrightarrow> acks st = word_of_nat (acked i h) \<and> prefix (taken i h) (delivered i h)
     \<and> (rx_alive st \<longrightarrow> delivered i h = taken i h @ data_q st)"

definition unborn :: "nat \<Rightarrow> effect list \<Rightarrow> bool" where
  "unborn i h \<longleftrightarrow> acked i h = 0 \<and> delivered i h = [] \<and> taken i h = []"

definition writer_inv :: "session \<Rightarrow> bool" where
  "writer_inv s \<longleftrightarrow> prefix (on_wire s) (posted (history s))
     \<and> (writer_alive s \<longrightarrow> posted (history s) = on_wire s @ outbox s)"

definition session_inv :: "session \<Rightarrow> bool" where
  "session_inv s \<longleftrightarrow> registry_wf (reg s) \<and> writer_inv s
     \<and> (\<forall>i. if i < length (states (reg s)) then stream_inv i (stream_of s i) (history s)
            else unborn i (history s))"

lemma session_invI:
  assumes "registry_wf (reg s)" and "writer_inv s"
    and "\<And>i. i < length (states (reg s)) \<Longrightarrow> stream_inv i (stream_of s i) (history s)"
    and "\<And>i. length (states (reg s)) \<le> i \<Longrightarrow> unborn i (history s)"
  shows "session_inv s"
  using assms by (simp add: session_inv_def)

lemma session_invD:
  assumes "session_inv s"
  shows "registry_wf (reg s)" and "writer_inv s"
    and "i < length (states (reg s)) \<Longrightarrow> stream_inv i (stream_of s i) (history s)"
    and "length (states (reg s)) \<le> i \<Longrightarrow> unborn i (history s)"
  using assms by (auto simp: session_inv_def split: if_splits)

lemma note_effect_sel [simp]:
  "reg (note_effect x s) = reg s" "outbox (note_effect x s) = outbox s"
  "writer_alive (note_effect x s) = writer_alive s" "reader_alive (note_effect x s) = reader_alive s"
  "on_wire (note_effect x s) = on_wire s" "agreed (note_effect x s) = agreed s"
  "history (note_effect x s) = history s @ [x]" "stream_of (note_effect x s) i = stream_of s i"
  by (simp_all add: note_effect_def stream_of_def)

lemma update_stream_sel [simp]:
  "reg (update_stream i f s) = on_state i f (reg s)" "outbox (update_stream i f s) = outbox s"
  "writer_alive (update_stream i f s) = writer_alive s" "reader_alive (update_stream i f s) = reader_alive s"
  "on_wire (update_stream i f s) = on_wire s" "agreed (update_stream i f s) = agreed s"
  "history (update_stream i f s) = history s"
  "stream_of (update_stream i f s) j
     = (if j = i \<and> i < length (states (reg s)) then f (stream_of s i) else stream_of s j)"
  by (simp_all add: update_stream_def stream_of_def)

lemma session_start_inv: "session_inv (session_start n)"
  by (simp add: session_inv_def session_start_def new_registry_wf writer_inv_def unborn_def)
    (simp add: new_registry_def)

text \<open>An update of one stream that keeps its identity and agrees with the noted effect.\<close>

lemma update_inv:
  assumes "session_inv s" and "i < length (states (reg s))"
    and "\<And>st. state_wf st \<Longrightarrow> state_wf (f st)" and "\<And>st. local_id (f st) = local_id st"
    and "stream_inv i (f (stream_of s i)) (history s)"
  shows "session_inv (update_stream i f s)"
proof (rule session_invI)
  show "registry_wf (reg (update_stream i f s))"
    using on_state_wf [OF session_invD(1) [OF assms(1)] assms(3,4)] by simp
  show "writer_inv (update_stream i f s)"
    using session_invD(2) [OF assms(1)] by (simp add: writer_inv_def)
qed (use assms(2,5) session_invD(3,4) [OF assms(1)] in simp_all)

lemma update_note_inv:
  assumes "session_inv s" and "i < length (states (reg s))"
    and "\<And>st. state_wf st \<Longrightarrow> state_wf (f st)" and "\<And>st. local_id (f st) = local_id st"
    and "stream_inv i (f (stream_of s i)) (history s @ [x])"
    and "x = Acked i \<or> x = Delivered i c \<or> x = Taken i c"
  shows "session_inv (note_effect x (update_stream i f s))"
proof (rule session_invI)
  show "registry_wf (reg (note_effect x (update_stream i f s)))"
    using on_state_wf [OF session_invD(1) [OF assms(1)] assms(3,4)] by simp
  show "writer_inv (note_effect x (update_stream i f s))"
    using session_invD(2) [OF assms(1)] assms(6) by (auto simp: writer_inv_def effect_simps)
  show "stream_inv j (stream_of (note_effect x (update_stream i f s)) j)
      (history (note_effect x (update_stream i f s)))"
    if "j < length (states (reg (note_effect x (update_stream i f s))))" for j
    using that assms(2,5,6) session_invD(3) [OF assms(1), of j]
    by (auto simp: stream_inv_def effect_simps)
  show "unborn j (history (note_effect x (update_stream i f s)))"
    if "length (states (reg (note_effect x (update_stream i f s)))) \<le> j" for j
    using that assms(2,6) session_invD(4) [OF assms(1), of j]
    by (auto simp: unborn_def effect_simps)
qed

lemma post_sel [simp]:
  "reg (snd (post m s)) = reg s" "writer_alive (snd (post m s)) = writer_alive s"
  "reader_alive (snd (post m s)) = reader_alive s" "on_wire (snd (post m s)) = on_wire s"
  "agreed (snd (post m s)) = agreed s" "stream_of (snd (post m s)) i = stream_of s i"
  "outbox (snd (post m s)) = outbox s @ (if writer_alive s then [m] else [])"
  "history (snd (post m s)) = history s @ (if writer_alive s then [Posted m] else [])"
  "fst (post m s) = (if writer_alive s then Inr () else Inl Disconnected)"
  by (simp_all add: post_def stream_of_def)

lemma post_inv:
  assumes "session_inv s"
  shows "session_inv (snd (post m s))"
  using session_invD [OF assms]
  by (intro session_invI) (auto simp: writer_inv_def stream_inv_def unborn_def effect_simps)

lemma registry_only_inv:
  assumes "session_inv s" and "registry_wf r" and "length (states r) = length (states (reg s))"
    and "\<And>i. i < length (states r) \<Longrightarrow> acks (state_at i r) = acks (stream_of s i)
           \<and> data_q (state_at i r) = data_q (stream_of s i)
           \<and> rx_alive (state_at i r) = rx_alive (stream_of s i)"
  shows "session_inv (s\<lparr>reg := r\<rparr>)"
  using assms
  by (intro session_invI)
    (auto simp: writer_inv_def stream_inv_def stream_of_def dest: session_invD)

lemma remove_inv: "session_inv s \<Longrightarrow> session_inv (s\<lparr>reg := snd (remove lid (reg s))\<rparr>)"
  by (rule registry_only_inv)
    (auto simp: remove_def state_at_def stream_of_def intro: remove_wf [unfolded remove_def snd_conv]
      dest: session_invD(1))

lemma close_all_inv: "session_inv s \<Longrightarrow> session_inv (s\<lparr>reg := close_all (reg s)\<rparr>)"
  by (rule registry_only_inv)
    (auto simp: close_all_sel stream_of_def state_simps intro: close_all_wf dest: session_invD(1))

lemma dispatch_inv:
  assumes "session_inv s"
  shows "session_inv (snd (dispatch m s))"
proof (cases "m_command m")
  case Okay
  show ?thesis
  proof (cases "get (m_arg1 m) (reg s)")
    case (Some i)
    then have i: "i < length (states (reg s))" using get_wf session_invD(1) [OF assms] by blast
    have "session_inv (note_effect (Acked i) (update_stream i (ack (m_arg0 m)) s))"
      by (rule update_note_inv [OF assms i])
        (use session_invD(3) [OF assms i] in
          \<open>auto simp: states_wf state_simps stream_inv_def effect_simps\<close>)
    with Okay Some show ?thesis by (simp add: dispatch_def)
  qed (use assms Okay in \<open>simp add: dispatch_def\<close>)
next
  case Write
  show ?thesis
  proof (cases "get (m_arg1 m) (reg s)")
    case (Some i)
    then have i: "i < length (states (reg s))" using get_wf session_invD(1) [OF assms] by blast
    show ?thesis
    proof (cases "data_tx (stream_of s i) \<and> rx_alive (stream_of s i)")
      case True
      let ?f = "\<lambda>st. snd (deliver (payload m) st)"
      have "session_inv (note_effect (Delivered i (payload m)) (update_stream i ?f s))"
        by (rule update_note_inv [OF assms i])
          (use session_invD(3) [OF assms i] True in
            \<open>auto simp: states_wf state_simps stream_inv_def effect_simps\<close>)
      moreover have "snd (dispatch m s) = note_effect (Delivered i (payload m)) (update_stream i ?f s)"
        using Write Some True i
        by (simp add: dispatch_def deliver_def update_stream_def on_state_def stream_of_def state_at_def)
      ultimately show ?thesis by simp
    qed (use Write Some post_inv [OF assms] in \<open>auto simp: dispatch_def deliver_def\<close>)
  qed (use Write post_inv [OF assms] in \<open>simp add: dispatch_def\<close>)
next
  case Close
  note rem = remove_inv [OF assms, of "m_arg1 m"]
  show ?thesis
  proof (cases "map_of (streams (reg s)) (m_arg1 m)")
    case (Some i)
    then have i: "i < length (states (reg s))"
      using get_wf session_invD(1) [OF assms] by (auto simp: get_def)
    have "session_inv (update_stream i mark_closed (s\<lparr>reg := snd (remove (m_arg1 m) (reg s))\<rparr>))"
      by (rule update_inv [OF rem])
        (use session_invD(3) [OF assms i] i in
          \<open>auto simp: states_wf state_simps stream_inv_def remove_def stream_of_def state_at_def\<close>)
    with Close Some show ?thesis by (simp add: dispatch_def remove_def)
  qed (use Close rem in \<open>simp add: dispatch_def remove_def\<close>)
qed (use assms in \<open>simp_all add: dispatch_def\<close>)

lemma inv_cong:
  assumes "session_inv s" and "reg s' = reg s" and "history s' = history s"
    and "on_wire s' = on_wire s" and "writer_alive s' \<Longrightarrow> writer_alive s \<and> outbox s' = outbox s"
  shows "session_inv s'"
  using session_invD [OF assms(1)] assms(2-)
  by (intro session_invI) (auto simp: writer_inv_def stream_of_def)

lemma reader_stop_inv: "session_inv s \<Longrightarrow> session_inv (reader_stop s)"
  by (erule inv_cong [OF close_all_inv]) (simp_all add: reader_stop_def)

lemma read_step_inv: "session_inv s \<Longrightarrow> session_inv (read_step r s)"
  using dispatch_inv [of s] reader_stop_inv
  by (auto simp: read_step_def split: sum.splits prod.splits) (metis snd_conv)+

lemma write_step_inv:
  assumes "session_inv s" and "writer_alive s"
  shows "session_inv (write_step f s)"
  using session_invD [OF assms(1)] assms(2)
  by (intro session_invI)
    (auto simp: write_step_def writer_inv_def stream_of_def split: list.splits option.splits)

lemma session_close_inv: "session_inv s \<Longrightarrow> session_inv (session_close s)"
  by (erule inv_cong [OF close_all_inv]) (simp_all add: session_close_def)

lemma register_stream_inv: "session_inv s \<Longrightarrow> session_inv (snd (register_stream s))"
proof -
  assume inv: "session_inv s"
  obtain i r where reg: "register (reg s) = (i, r)" by fastforce
  note sel = register_sel [OF reg]
  have "stream_inv j (state_at j r) (history s)" if "j < length (states r)" for j
    using that session_invD(3,4) [OF inv, of j]
    by (cases "j < length (states (reg s))")
      (auto simp: sel state_at_def stream_of_def nth_append stream_inv_def unborn_def state_simps)
  moreover have "unborn j (history s)" if "length (states r) \<le> j" for j
    using that session_invD(4) [OF inv, of j] by (simp add: sel)
  moreover have "writer_inv (s\<lparr>reg := r\<rparr>)"
    using session_invD(2) [OF inv] by (simp add: writer_inv_def)
  ultimately show ?thesis
    using register_wf [OF session_invD(1) [OF inv] reg]
    by (intro session_invI) (simp_all add: register_stream_def reg stream_of_def)
qed

lemma take_chunk_inv:
  assumes "session_inv s" and i: "i < length (states (reg s))"
  shows "session_inv (snd (take_chunk i s))"
proof (cases "data_q (stream_of s i)")
  case (Cons c cs)
  let ?f = "\<lambda>st. snd (take_data st)"
  have wf: "state_wf (stream_of s i)"
    using state_at_wf [OF session_invD(1) [OF assms(1)] i] by (simp add: stream_of_def)
  then have alive: "rx_alive (stream_of s i)" using Cons by (auto simp: state_wf_def)
  have "session_inv (note_effect (Taken i c) (update_stream i ?f s))"
    by (rule update_note_inv [OF assms])
      (use session_invD(3) [OF assms] Cons alive in
        \<open>auto simp: states_wf state_simps stream_inv_def effect_simps\<close>)
  moreover have "snd (take_chunk i s) = note_effect (Taken i c) (update_stream i ?f s)"
    using Cons by (simp add: take_chunk_def take_data_def update_stream_def on_state_def
        stream_of_def state_at_def)
  ultimately show ?thesis by simp
qed (use assms in \<open>simp add: take_chunk_def take_data_def\<close>)

lemma happen_inv: "session_inv s \<Longrightarrow> enabled e s \<Longrightarrow> session_inv (happen e s)"
proof (cases e)
  case (Permits i)
  then show "session_inv s \<Longrightarrow> enabled e s \<Longrightarrow> ?thesis"
    by (auto intro!: update_inv simp: states_wf state_simps stream_inv_def dest: session_invD(3))
next
  case (Marks i)
  then show "session_inv s \<Longrightarrow> enabled e s \<Longrightarrow> ?thesis"
    by (auto intro!: update_inv simp: states_wf state_simps stream_inv_def dest: session_invD(3))
next
  case (Drops i)
  then show "session_inv s \<Longrightarrow> enabled e s \<Longrightarrow> ?thesis"
    by (auto intro!: update_inv simp: states_wf state_simps stream_inv_def dest: session_invD(3))
qed (simp_all add: read_step_inv write_step_inv session_close_inv register_stream_inv post_inv
    take_chunk_inv remove_stream_def remove_inv)

theorem reachable_inv: "reachable n s \<Longrightarrow> session_inv s"
  by (induction rule: reachable.induct) (auto simp: session_start_inv happen_inv)

subsection \<open>Properties\<close>

definition sample_agreed :: negotiated where
  "sample_agreed = \<lparr>n_banner = default_banner, n_version = VERSION, n_max_payload = 4096\<rparr>"

text \<open>
  A session with one open stream, id 1, that the device calls 7: two chunks have arrived, the
  owner took the first, the writer has sent one message and another one waits.
\<close>

definition sample_events :: "event list" where
  "sample_events = [Registers, Posts (new_message Open 1 0 [0x69, 0]), Received (Inr (empty_message Okay 7 1)),
     Written None, Received (Inr (new_message Write 7 1 [1, 2])), Takes 0,
     Posts (empty_message Okay 1 7), Received (Inr (new_message Write 7 1 [3]))]"

definition sample_session :: session where
  "sample_session = happens sample_events (session_start sample_agreed)"

lemmas session_eval = happen.simps happens.simps enabled.simps register_stream_def register_def fresh_id_def
  session_start_def new_registry_def post_def note_effect_def read_step_def write_step_def dispatch_def get_def
  update_stream_def on_state_def take_chunk_def take_data_def deliver_def ack_def remote_def
  stream_of_def state_at_def new_state_def remove_def mark_closed_def Let_def

lemma sample_session_val:
  "sample_session = \<lparr>reg = \<lparr>streams = [(1, 0)], next_id = 2, states = [\<lparr>local_id = 1, remote_id = 7,
       closed = False, acks = 1, wake = True, data_tx = True, data_q = [[3]], rx_alive = True\<rparr>]\<rparr>,
     outbox = [empty_message Okay 1 7], writer_alive = True, reader_alive = True,
     on_wire = [new_message Open 1 0 [0x69, 0]], agreed = sample_agreed,
     history = [Posted (new_message Open 1 0 [0x69, 0]), Acked 0, Delivered 0 [1, 2], Taken 0 [1, 2],
       Posted (empty_message Okay 1 7), Delivered 0 [3]]\<rparr>"
  by (simp add: sample_session_def sample_events_def session_eval)

lemma sample_reachable: "reachable sample_agreed sample_session"
  unfolding sample_session_def by (rule happens_reachable) (rule reachable.begun)

text \<open>Ids are handed out in order, so the first \<open>2 ^ 32 - 1\<close> streams have different ones.\<close>

definition ids_inv :: "registry \<Rightarrow> bool" where
  "ids_inv r \<longleftrightarrow> (length (states r) < 2 ^ 32 \<longrightarrow>
     map local_id (states r) = map (\<lambda>k. word_of_nat (Suc k)) [0..<length (states r)]
     \<and> next_id r = word_of_nat (Suc (length (states r))))"

lemma ids_inv_cong:
  assumes "ids_inv r" and "map local_id (states r') = map local_id (states r)" and "next_id r' = next_id r"
  shows "ids_inv r'"
proof -
  have "length (states r') = length (states r)" using assms(2) by (metis length_map)
  with assms show ?thesis by (simp add: ids_inv_def)
qed

lemma map_local_update:
  "local_id st = local_id (xs ! i) \<Longrightarrow> map local_id (xs[i := st]) = map local_id xs"
  by (metis list_update_id map_update)

lemma map_local_close_all: "map local_id (states (close_all r)) = map local_id (states r)"
  by (simp add: close_all_def close_all_states) (auto intro!: nth_equalityI simp: state_simps)

lemma dispatch_ids:
  "map local_id (states (reg (snd (dispatch m s)))) = map local_id (states (reg s))
   \<and> next_id (reg (snd (dispatch m s))) = next_id (reg s)"
  by (auto simp: dispatch_def Let_def remove_def state_simps stream_of_def state_at_def
      map_local_update deliver_def split: command.split option.split)

lemma read_step_ids:
  "map local_id (states (reg (read_step r s))) = map local_id (states (reg s))
   \<and> next_id (reg (read_step r s)) = next_id (reg s)"
proof (cases r)
  case (Inr m)
  with dispatch_ids [of m s] show ?thesis
    by (cases "dispatch m s")
      (auto simp: read_step_def reader_stop_def map_local_close_all close_all_sel split: sum.splits)
qed (simp add: read_step_def reader_stop_def map_local_close_all close_all_sel)

lemma ids_inv_happen:
  assumes "ids_inv (reg s)"
  shows "ids_inv (reg (happen e s))"
proof (cases "e = Registers")
  case True
  obtain i r where reg: "register (reg s) = (i, r)" by fastforce
  note sel = register_sel [OF reg]
  have "ids_inv r" unfolding ids_inv_def
  proof
    assume lt: "length (states r) < 2 ^ 32"
    let ?n = "length (states (reg s))"
    have n: "Suc ?n < 2 ^ 32" using lt by (simp add: sel)
    have "unat (word_of_nat (Suc ?n) :: u32) = Suc ?n" using n by (intro unat_u32_of_nat) simp
    then have "(word_of_nat (Suc ?n) :: u32) \<noteq> 0" by (metis nat.distinct(1) unat_0)
    with assms n show "map local_id (states r) = map (\<lambda>k. word_of_nat (Suc k)) [0..<length (states r)]
        \<and> next_id r = word_of_nat (Suc (length (states r)))"
      by (simp add: sel ids_inv_def fresh_id_def state_simps add.commute)
  qed
  with True reg show ?thesis by (simp add: register_stream_def)
next
  case False
  then have "map local_id (states (reg (happen e s))) = map local_id (states (reg s))
      \<and> next_id (reg (happen e s)) = next_id (reg s)"
    by (cases e)
      (auto simp: read_step_ids write_step_def session_close_def map_local_close_all close_all_sel
        take_chunk_def take_data_def remove_stream_def remove_def state_simps stream_of_def state_at_def
        map_local_update split: list.splits option.splits)
  with assms ids_inv_cong show ?thesis by blast
qed

lemma reachable_ids: "reachable n s \<Longrightarrow> ids_inv (reg s)"
proof (induction rule: reachable.induct)
  case begun
  then show ?case by (simp add: ids_inv_def session_start_def new_registry_def)
next
  case (moved s e s')
  then show ?case by (simp add: ids_inv_happen)
qed

text \<open>
  C25: in every reachable session, whatever the device sends and the tasks do in whatever order,
  the registry is well formed: an id is never 0, leads to the state that carries it, and a stream
  without a sender is a closed one.
\<close>

theorem registry_invariant:
  assumes "reachable n s"
  shows "registry_wf (reg s) \<and> (\<forall>lid i. get lid (reg s) = Some i \<longrightarrow>
     lid \<noteq> 0 \<and> i < length (states (reg s)) \<and> local_id (stream_of s i) = lid)"
proof (intro conjI allI impI)
  show wf: "registry_wf (reg s)" using session_invD(1) reachable_inv [OF assms] by blast
  fix lid i assume "get lid (reg s) = Some i"
  from get_wf [OF wf this] have i: "i < length (states (reg s))" "local_id (state_at i (reg s)) = lid" by blast+
  with state_at_wf [OF wf i(1)] show "lid \<noteq> 0" "i < length (states (reg s))" "local_id (stream_of s i) = lid"
    by (auto simp: state_wf_def stream_of_def)
qed

theorem registry_invariant_witness:
  "get 1 (reg sample_session) = Some 0 \<and> registry_wf (reg sample_session)"
  using registry_invariant [OF sample_reachable] by (simp add: sample_session_val get_def)

text \<open>
  C2: in every reachable session, each stream's data is in order: what the owner took followed by
  what is queued is exactly what the device's \<open>WRTE\<close>s delivered, nothing lost or repeated, also
  after the stream was closed; and \<open>acks\<close> is the number of \<open>OKAY\<close>s for it.
\<close>

theorem stream_data_in_order:
  assumes "reachable n s" and "i < length (states (reg s))"
  shows "prefix (taken i (history s)) (delivered i (history s))
     \<and> (rx_alive (stream_of s i) \<longrightarrow>
          delivered i (history s) = taken i (history s) @ data_q (stream_of s i))
     \<and> acks (stream_of s i) = word_of_nat (acked i (history s))"
  using session_invD(3) [OF reachable_inv [OF assms(1)] assms(2)] by (simp add: stream_inv_def)

theorem stream_data_in_order_witness:
  "delivered 0 (history sample_session) = [[1, 2], [3]] \<and> taken 0 (history sample_session) = [[1, 2]]
   \<and> delivered 0 (history sample_session)
       = taken 0 (history sample_session) @ data_q (stream_of sample_session 0)"
  using stream_data_in_order [OF sample_reachable, of 0]
  by (simp add: sample_session_val stream_of_def state_at_def)

text \<open>
  The writer sends messages in the order they were queued, each once: what is on the wire is
  a prefix of what was posted, and while the writer lives the rest is still queued.
\<close>

lemma writer_in_order:
  assumes "reachable n s"
  shows "prefix (on_wire s) (posted (history s))
     \<and> (writer_alive s \<longrightarrow> posted (history s) = on_wire s @ outbox s)"
  using session_invD(2) [OF reachable_inv [OF assms]] by (simp add: writer_inv_def)

text \<open>
  Local ids are unique over the whole life of a session, closed streams included, until
  \<open>2 ^ 32 - 1\<close> streams have been opened.
\<close>

lemma local_ids_unique:
  assumes "reachable n s" and "length (states (reg s)) < 2 ^ 32"
  shows "distinct (map local_id (states (reg s)))"
proof -
  let ?f = "\<lambda>k. word_of_nat (Suc k) :: u32"
  have "unat (?f k) = Suc k" if "k < length (states (reg s))" for k
    using that assms(2) by (intro unat_u32_of_nat) simp
  then have "inj_on ?f (set [0..<length (states (reg s))])"
    by (intro inj_onI) (metis atLeastLessThan_iff nat.inject set_upt)
  then show ?thesis using reachable_ids [OF assms(1)] assms(2) by (simp add: ids_inv_def distinct_map)
qed

text \<open>
  Dispatching a message changes no stream but the one it is addressed to, and posts at most
  one message: a \<open>CLSE\<close> with the ids swapped, exactly when a \<open>WRTE\<close> finds nobody listening.
\<close>

lemma dispatch_local:
  "(get (m_arg1 m) (reg s) = Some j \<or> stream_of (snd (dispatch m s)) j = stream_of s j)
   \<and> outbox (snd (dispatch m s)) = outbox s @
        (if m_command m = Write \<and> writer_alive s
            \<and> (case get (m_arg1 m) (reg s) of None \<Rightarrow> True
               | Some i \<Rightarrow> \<not> (data_tx (stream_of s i) \<and> rx_alive (stream_of s i)))
         then [empty_message Close (m_arg1 m) (m_arg0 m)] else [])"
proof (cases "m_command m")
  case Close
  have "(states (reg s))[a := mark_closed (states (reg s) ! a)] ! j = states (reg s) ! j \<or> a = j" for a
    by (cases "a = j") simp_all
  with Close show ?thesis
    by (cases "map_of (streams (reg s)) (m_arg1 m)")
      (auto simp: dispatch_def remove_def get_def stream_of_def state_at_def)
qed (auto simp: dispatch_def deliver_def split: option.split)

text \<open>
  A \<open>CLSE\<close> for a stream closes it and takes it out of the registry, and keeps what was
  received; a second one changes nothing, and a later \<open>WRTE\<close> is answered with a \<open>CLSE\<close>.
\<close>

lemma device_close:
  assumes "registry_wf (reg s)" and "get lid (reg s) = Some i"
    and "dispatch (new_message Close r lid p) s = (res, s')"
  shows "res = Inr () \<and> closed (stream_of s' i) \<and> \<not> data_tx (stream_of s' i)
     \<and> data_q (stream_of s' i) = data_q (stream_of s i) \<and> get lid (reg s') = None
     \<and> dispatch (new_message Close r' lid p') s' = (Inr (), s')
     \<and> dispatch (new_message Write r'' lid p'') s' = post (empty_message Close lid r'') s'"
proof -
  have i: "i < length (states (reg s))" using get_wf [OF assms(1,2)] by blast
  have s': "res = Inr ()" "s' = update_stream i mark_closed (s\<lparr>reg := snd (remove lid (reg s))\<rparr>)"
    using assms(2,3) by (auto simp: dispatch_def remove_def get_def)
  then have g: "get lid (reg s') = None" and d: "AList.delete lid (streams (reg s')) = streams (reg s')"
    by (simp_all add: get_def remove_def delete_conv AList.delete_idem)
  have "stream_of s' i = mark_closed (stream_of s i)"
    using s' i by (simp add: remove_def stream_of_def state_at_def)
  moreover have "dispatch (new_message Close r' lid p') s' = (Inr (), s')"
    using g d by (simp add: dispatch_def remove_def get_def)
  ultimately show ?thesis
    using s'(1) g by (simp add: state_simps dispatch_def)
qed

text \<open>
  C26: the reader stops exactly when a receive fails, when the device sends \<open>STLS\<close> or \<open>OPEN\<close>, or when
  a \<open>WRTE\<close> that nobody takes has to be answered with a \<open>CLSE\<close> and the writer is gone. Every registered
  stream is closed then; any other message leaves the reader running.
\<close>

theorem reader_stops:
  assumes "registry_wf (reg s)" and "reader_alive s"
  shows "(reader_alive (read_step r s) \<longleftrightarrow>
       \<not> (case r of
            Inl e \<Rightarrow> True
          | Inr m \<Rightarrow> m_command m = StartTls \<or> m_command m = Open
              \<or> m_command m = Write \<and> \<not> writer_alive s
                \<and> (case get (m_arg1 m) (reg s) of None \<Rightarrow> True
                   | Some i \<Rightarrow> \<not> (data_tx (stream_of s i) \<and> rx_alive (stream_of s i)))))
     \<and> (\<not> reader_alive (read_step r s) \<longrightarrow> streams (reg (read_step r s)) = []
       \<and> (\<forall>lid i. get lid (reg s) = Some i \<longrightarrow> stream_of (read_step r s) i = mark_closed (stream_of s i)))"
proof -
  have stop: "\<not> reader_alive (reader_stop s) \<and> streams (reg (reader_stop s)) = []
      \<and> (\<forall>lid i. get lid (reg s) = Some i \<longrightarrow> stream_of (reader_stop s) i = mark_closed (stream_of s i))"
    using get_wf [OF assms(1)]
    by (force simp: reader_stop_def close_all_sel stream_of_def get_def dest: map_of_SomeD)
  show ?thesis
  proof (cases r)
    case (Inl e)
    with stop show ?thesis by (simp add: read_step_def)
  next
    case (Inr m)
    have "dispatch m s = (Inl Disconnected, s)"
      if "m_command m = Write" "\<not> writer_alive s"
        "case get (m_arg1 m) (reg s) of None \<Rightarrow> True | Some i \<Rightarrow> \<not> (data_tx (stream_of s i) \<and> rx_alive (stream_of s i))"
      using that by (auto simp: dispatch_def deliver_def post_def split: option.splits)
    with Inr stop assms(2) show ?thesis
      by (cases "m_command m")
        (auto simp: read_step_def dispatch_def deliver_def post_def Let_def split: option.split prod.splits)
  qed
qed

theorem reader_stops_witness:
  "reader_alive (read_step (Inr (empty_message Open 9 0)) sample_session) = False
   \<and> stream_of (read_step (Inr (empty_message Open 9 0)) sample_session) 0 = mark_closed (stream_of sample_session 0)"
proof -
  have wf: "registry_wf (reg sample_session)" using session_invD(1) reachable_inv [OF sample_reachable] by blast
  have "get 1 (reg sample_session) = Some 0" by (simp add: sample_session_val get_def)
  moreover have "reader_alive sample_session" by (simp add: sample_session_val)
  ultimately show ?thesis using reader_stops [OF wf, of "Inr (empty_message Open 9 0)"] by simp
qed

end
