(* ===== verification/Stream.thy ===== *)
theory Stream
  imports Session
begin

section \<open>Streams: the operations of one owner\<close>

text \<open>
  \<open>src/session/stream.rs\<close> and \<open>Session::open_stream\<close>. The owner of a stream runs while the reader,
  the writer and the owners of other streams do, so every operation is a computation over a
  \<open>world\<close>: the session and a schedule. At every point where the owner can be suspended, and
  between its accesses to shared state, \<open>pause\<close> asks the environment which events happen first;
  \<open>None\<close> means that the owner never runs again. The environment is a parameter, so what is proved
  holds for every interleaving. A wait that no event ends is \<open>None\<close> too.
\<close>

subsection \<open>The environment\<close>

record 'd world =
  sess :: session
  sched :: 'd

type_synonym 'd env = "'d \<Rightarrow> session \<Rightarrow> (event list \<times> 'd) option"

definition pause :: "'d env \<Rightarrow> ('d world, unit) comp" where
  "pause E w =
     (case E (sched w) (sess w) of
        None \<Rightarrow> None
      | Some (es, d) \<Rightarrow> Some (Inr (), \<lparr>sess = happens es (sess w), sched = d\<rparr>))"

definition atomic :: "(session \<Rightarrow> 'a \<times> session) \<Rightarrow> ('d world, 'a) comp" where
  "atomic f w = (case f (sess w) of (x, s) \<Rightarrow> Some (Inr x, w\<lparr>sess := s\<rparr>))"

definition look :: "nat \<Rightarrow> (stream_state \<Rightarrow> 'a) \<Rightarrow> ('d world, 'a) comp" where
  "look i f w = Some (Inr (f (stream_of (sess w) i)), w)"

definition modify :: "nat \<Rightarrow> (stream_state \<Rightarrow> stream_state) \<Rightarrow> ('d world, unit) comp" where
  "modify i f w = Some (Inr (), w\<lparr>sess := update_stream i f (sess w)\<rparr>)"

definition post_message :: "message \<Rightarrow> ('d world, unit) comp" where
  "post_message m w = (case post m (sess w) of (r, s) \<Rightarrow> Some (r, w\<lparr>sess := s\<rparr>))"

subsection \<open>Waiting\<close>

text \<open>\<open>wake.notified().await\<close> and \<open>StreamState::wait_ack\<close>.\<close>

partial_function (option) notified :: "'d env \<Rightarrow> nat \<Rightarrow> 'd world \<Rightarrow> (unit result \<times> 'd world) option" where
  "notified E i w =
     (if wake (stream_of (sess w) i)
      then Some (Inr (), w\<lparr>sess := update_stream i (\<lambda>st. snd (take_permit st)) (sess w)\<rparr>)
      else case E (sched w) (sess w) of
             None \<Rightarrow> None
           | Some (es, d) \<Rightarrow> notified E i \<lparr>sess = happens es (sess w), sched = d\<rparr>)"

partial_function (option) wait_ack ::
  "'d env \<Rightarrow> nat \<Rightarrow> u64 \<Rightarrow> 'd world \<Rightarrow> (bool result \<times> 'd world) option" where
  "wait_ack E i seen w =
     (case poll_ack seen (stream_of (sess w) i) of
        Some b \<Rightarrow> Some (Inr b, w)
      | None \<Rightarrow>
          (case notified E i w of
             None \<Rightarrow> None
           | Some (_, w') \<Rightarrow> wait_ack E i seen w'))"

text \<open>\<open>data_rx.recv().await\<close>.\<close>

partial_function (option) recv_data ::
  "'d env \<Rightarrow> nat \<Rightarrow> 'd world \<Rightarrow> (bytes option result \<times> 'd world) option" where
  "recv_data E i w =
     (case take_chunk i (sess w) of
        (Ready x, s) \<Rightarrow> Some (Inr x, w\<lparr>sess := s\<rparr>)
      | (Pending, s) \<Rightarrow>
          (case E (sched w) s of
             None \<Rightarrow> None
           | Some (es, d) \<Rightarrow> recv_data E i \<lparr>sess = happens es s, sched = d\<rparr>))"

subsection \<open>The stream\<close>

record stream =
  state_ix :: nat
  max_chunk :: nat

definition new_stream :: "nat \<Rightarrow> session \<Rightarrow> stream" where
  [simp]: "new_stream i s = \<lparr>state_ix = i, max_chunk = unat (n_max_payload (agreed s))\<rparr>"

definition ids :: "'d env \<Rightarrow> nat \<Rightarrow> ('d world, u32 \<times> u32) comp" where
  "ids E i =
     and_then (look i closed) (\<lambda>is_closed.
       if is_closed then throw StreamClosed
       else and_then (pause E) (\<lambda>_.
         and_then (look i (\<lambda>st. (local_id st, remote st))) (\<lambda>(l, r).
           case r of None \<Rightarrow> throw StreamClosed | Some rid \<Rightarrow> ret (l, rid))))"

definition write_chunk :: "'d env \<Rightarrow> nat \<Rightarrow> bytes \<Rightarrow> ('d world, unit) comp" where
  "write_chunk E i chunk =
     and_then (ids E i) (\<lambda>(l, r).
     and_then (pause E) (\<lambda>_.
     and_then (look i acks) (\<lambda>seen.
     and_then (pause E) (\<lambda>_.
     and_then (post_message (new_message Write l r chunk)) (\<lambda>_.
     and_then (pause E) (\<lambda>_.
     and_then (wait_ack E i seen) (\<lambda>ok.
     if ok then ret () else throw StreamClosed)))))))"

partial_function (option) send_rest ::
  "'d env \<Rightarrow> nat \<Rightarrow> nat \<Rightarrow> bytes \<Rightarrow> 'd world \<Rightarrow> (unit result \<times> 'd world) option" where
  "send_rest E i limit rest w =
     (if rest = [] then Some (Inr (), w)
      else and_then (write_chunk E i (take limit rest)) (\<lambda>_. send_rest E i limit (drop limit rest)) w)"

definition stream_send :: "'d env \<Rightarrow> stream \<Rightarrow> bytes \<Rightarrow> ('d world, unit) comp" where
  "stream_send E st data = send_rest E (state_ix st) (max_chunk st) data"

definition stream_recv :: "'d env \<Rightarrow> stream \<Rightarrow> ('d world, bytes option) comp" where
  "stream_recv E st =
     (let i = state_ix st in
      and_then (recv_data E i) (\<lambda>got.
        case got of
          None \<Rightarrow> ret None
        | Some chunk \<Rightarrow>
            and_then (pause E) (\<lambda>_.
            handle (ids E i) (\<lambda>r.
              case r of
                Inr (l, rid) \<Rightarrow>
                  and_then (post_message (empty_message Okay l rid)) (\<lambda>_. ret (Some chunk))
              | Inl _ \<Rightarrow> ret (Some chunk)))))"

definition close_now :: "'d env \<Rightarrow> stream \<Rightarrow> ('d world, unit) comp" where
  "close_now E st =
     (let i = state_ix st in
      and_then (look i closed) (\<lambda>is_closed.
        if is_closed then ret ()
        else
          and_then (pause E) (\<lambda>_.
          and_then (look i (\<lambda>s. (local_id s, case remote s of None \<Rightarrow> 0 | Some r \<Rightarrow> r))) (\<lambda>(l, r).
          and_then (pause E) (\<lambda>_.
          and_then (modify i mark_closed) (\<lambda>_.
          and_then (pause E) (\<lambda>_.
          and_then (atomic (\<lambda>s. ((), remove_stream l s))) (\<lambda>_.
          and_then (pause E) (\<lambda>_.
          handle (post_message (empty_message Close l r)) (\<lambda>_. ret ())))))))))) "

text \<open>\<open>Channel::close\<close>, and \<open>Drop\<close>: the receiver goes away with the stream.\<close>

definition stream_close :: "'d env \<Rightarrow> stream \<Rightarrow> ('d world, unit) comp" where
  "stream_close E st = close_now E st"

definition stream_drop :: "'d env \<Rightarrow> stream \<Rightarrow> ('d world, unit) comp" where
  "stream_drop E st = and_then (close_now E st) (\<lambda>_. modify (state_ix st) drop_rx)"

subsection \<open>Opening\<close>

definition nul_in_service :: error where
  "nul_in_service = InvalidArgument (Lit ''service name contains NUL'')"

text \<open>
  An early return drops the state's \<open>Arc\<close> and the receiver; only the refusal takes the entry out
  of the registry first.
\<close>

definition open_stream :: "'d env \<Rightarrow> str \<Rightarrow> ('d world, stream) comp" where
  "open_stream E service =
     (if CHR 0x00 \<in> set service then throw nul_in_service
      else
        and_then (atomic register_stream) (\<lambda>i.
        and_then (pause E) (\<lambda>_.
        and_then (look i local_id) (\<lambda>l.
        handle (post_message (new_message Open l 0 (as_bytes service @ [0]))) (\<lambda>sent.
          case sent of
            Inl e \<Rightarrow> and_then (modify i drop_rx) (\<lambda>_. throw e)
          | Inr _ \<Rightarrow>
              and_then (pause E) (\<lambda>_.
              and_then (wait_ack E i 0) (\<lambda>ok.
              and_then (pause E) (\<lambda>_.
              and_then (look i remote) (\<lambda>r.
                if \<not> ok \<or> r = None then
                  and_then (atomic (\<lambda>s. ((), remove_stream l s))) (\<lambda>_.
                  and_then (modify i drop_rx) (\<lambda>_.
                  throw (ServiceRefused service)))
                else
                  atomic (\<lambda>s. (new_stream i s, s)))))))))))"

end
