(* ===== verification/Stream_Env.thy ===== *)
theory Stream_Env
  imports Stream
begin

section \<open>What an owner may assume of the other tasks\<close>

text \<open>
  The other tasks leave a stream to its owner: they do not take from its queue, close or drop it,
  nor post messages in its name (a \<open>CLSE\<close> that answers a stray \<open>WRTE\<close> apart). \<open>progress\<close> describes what can change for the owner while they run:
  the stream gains acknowledgements and data, can be closed by the device, and keeps its ids. It
  is a transitive relation, indexed by the effects that happened in between.
\<close>

definition own_posts :: "u32 \<Rightarrow> effect list \<Rightarrow> message list" where
  "own_posts l h = filter (\<lambda>m. m_arg0 m = l \<and> m_command m \<noteq> Close) (posted h)"

definition own_writes :: "u32 \<Rightarrow> effect list \<Rightarrow> bytes list" where
  "own_writes l h = map payload (filter (\<lambda>m. m_command m = Write) (own_posts l h))"

definition own_okays :: "u32 \<Rightarrow> effect list \<Rightarrow> message list" where
  "own_okays l h = filter (\<lambda>m. m_command m = Okay) (own_posts l h)"

fun alien :: "nat \<Rightarrow> u32 \<Rightarrow> event \<Rightarrow> bool" where
  "alien i l (Posts m) \<longleftrightarrow> m_arg0 m \<noteq> l"
| "alien i l (Takes j) \<longleftrightarrow> j \<noteq> i"
| "alien i l (Permits j) \<longleftrightarrow> j \<noteq> i"
| "alien i l (Drops j) \<longleftrightarrow> j \<noteq> i"
| "alien i l _ \<longleftrightarrow> True"

definition leaves_alone :: "'d env \<Rightarrow> nat \<Rightarrow> u32 \<Rightarrow> bool" where
  "leaves_alone E i l \<longleftrightarrow> (\<forall>d s es d'. E d s = Some (es, d') \<longrightarrow> list_all (alien i l) es)"

definition progress :: "nat \<Rightarrow> u32 \<Rightarrow> session \<Rightarrow> session \<Rightarrow> effect list \<Rightarrow> bool" where
  "progress i l s s' h \<longleftrightarrow>
     history s' = history s @ h \<and> own_posts l h = [] \<and> taken i h = []
     \<and> length (states (reg s)) \<le> length (states (reg s'))
     \<and> acks (stream_of s' i) = acks (stream_of s i) + word_of_nat (acked i h)
     \<and> local_id (stream_of s' i) = local_id (stream_of s i)
     \<and> rx_alive (stream_of s' i) = rx_alive (stream_of s i)
     \<and> data_q (stream_of s' i) = data_q (stream_of s i) @ delivered i h
     \<and> (closed (stream_of s i) \<longrightarrow> closed (stream_of s' i))
     \<and> (\<not> data_tx (stream_of s i) \<longrightarrow> \<not> data_tx (stream_of s' i) \<and> delivered i h = [])
     \<and> (remote_id (stream_of s i) \<noteq> 0 \<longrightarrow> remote_id (stream_of s' i) = remote_id (stream_of s i))
     \<and> (writer_alive s' \<longrightarrow> writer_alive s) \<and> agreed s' = agreed s"

lemma own_append [effect_simps]:
  "own_posts l (h @ h') = own_posts l h @ own_posts l h'"
  "own_writes l (h @ h') = own_writes l h @ own_writes l h'"
  "own_okays l (h @ h') = own_okays l h @ own_okays l h'"
  by (simp_all add: own_posts_def own_writes_def own_okays_def effect_simps)

lemma own_Nil [simp]: "own_posts l [] = []" "own_writes l [] = []" "own_okays l [] = []"
  by (simp_all add: own_posts_def own_writes_def own_okays_def)

lemma own_Cons [simp]:
  "own_posts l (Acked j # h) = own_posts l h" "own_posts l (Delivered j c # h) = own_posts l h"
  "own_posts l (Taken j c # h) = own_posts l h"
  "own_posts l (Posted m # h) = (if m_arg0 m = l \<and> m_command m \<noteq> Close then [m] else []) @ own_posts l h"
  by (simp_all add: own_posts_def)

lemma own_views_Cons [simp]:
  "own_writes l (Acked j # h) = own_writes l h" "own_writes l (Delivered j c # h) = own_writes l h"
  "own_writes l (Taken j c # h) = own_writes l h" "own_okays l (Acked j # h) = own_okays l h"
  "own_okays l (Delivered j c # h) = own_okays l h" "own_okays l (Taken j c # h) = own_okays l h"
  "own_writes l (Posted m # h) = (if m_arg0 m = l \<and> m_command m = Write then [payload m] else []) @ own_writes l h"
  "own_okays l (Posted m # h) = (if m_arg0 m = l \<and> m_command m = Okay then [m] else []) @ own_okays l h"
  by (simp_all add: own_writes_def own_okays_def)

lemma no_own_posts: "own_posts l h = [] \<Longrightarrow> own_writes l h = [] \<and> own_okays l h = []"
  by (simp add: own_writes_def own_okays_def)

lemma progress_refl [simp]: "progress i l s s []"
  by (simp add: progress_def)

lemma progress_self [simp]: "Ex (progress i l s s)"
  by (rule exI) (rule progress_refl)

lemma progress_trans:
  "progress i l s s1 h \<Longrightarrow> progress i l s1 s2 h' \<Longrightarrow> progress i l s s2 (h @ h')"
  by (auto simp: progress_def effect_simps)

lemma progress_len: "progress i l s s' h \<Longrightarrow> i < length (states (reg s)) \<Longrightarrow> i < length (states (reg s'))"
  by (simp add: progress_def)

lemma progress_post:
  assumes "m_arg0 m = l \<longrightarrow> m_command m = Close"
  shows "\<exists>h. progress i l s (snd (post m s)) h"
  using assms by (intro exI [of _ "if writer_alive s then [Posted m] else []"])
    (auto simp: progress_def)

lemma progress_close_all: 
  assumes "i < length (states (reg s))"
  shows "progress i l s (s\<lparr>reg := close_all (reg s)\<rparr>) []"
  using assms by (auto simp: progress_def stream_of_def close_all_sel state_simps)

lemma progress_dispatch:
  assumes "i < length (states (reg s))"
  shows "\<exists>h. progress i l s (snd (dispatch m s)) h"
proof (cases "m_command m")
  case Okay
  with assms show ?thesis
    by (cases "get (m_arg1 m) (reg s)")
      (auto simp: dispatch_def progress_def state_simps intro: exI [of _ "[]"] exI [of _ "[Acked j]" for j])
next
  case Write
  have refuse: "\<exists>h. progress i l s (snd (post (empty_message Close (m_arg1 m) (m_arg0 m)) s)) h"
    by (rule progress_post) simp
  show ?thesis
  proof (cases "get (m_arg1 m) (reg s)")
    case (Some j)
    with Write refuse assms show ?thesis
      by (cases "data_tx (stream_of s j) \<and> rx_alive (stream_of s j)")
        (auto simp: dispatch_def deliver_def progress_def intro: exI [of _ "[Delivered j (payload m)]"])
  qed (use Write refuse in \<open>simp add: dispatch_def\<close>)
next
  case Close
  let ?s = "s\<lparr>reg := snd (remove (m_arg1 m) (reg s))\<rparr>"
  have rem: "progress i l s ?s []"
    by (simp add: progress_def remove_def stream_of_def state_at_def)
  have mark: "progress i l ?s (update_stream j mark_closed ?s) []" if "j < length (states (reg s))" for j
    using assms that by (auto simp: progress_def state_simps remove_def)
  show ?thesis
  proof (cases "map_of (streams (reg s)) (m_arg1 m)")
    case None
    with Close rem show ?thesis by (auto simp: dispatch_def remove_def)
  next
    case (Some j)
    have "progress i l s (update_stream j mark_closed ?s) []"
      using progress_trans [OF rem, of "update_stream j mark_closed ?s" "[]"] mark [of j] rem
      by (cases "j < length (states (reg s))")
        (simp_all add: update_stream_def on_state_def remove_def list_update_beyond)
    with Close Some show ?thesis by (auto simp: dispatch_def remove_def)
  qed
qed (auto simp: dispatch_def intro: exI [of _ "[]"])

lemma progress_stop:
  assumes "i < length (states (reg s))"
  shows "progress i l s (reader_stop s) []"
  using assms by (auto simp: progress_def reader_stop_def stream_of_def close_all_sel state_simps)

lemma progress_happen:
  assumes "alien i l e" and "enabled e s" and i: "i < length (states (reg s))"
  shows "\<exists>h. progress i l s (happen e s) h"
proof (cases e)
  case (Received r)
  show ?thesis
  proof (cases r)
    case (Inr m)
    obtain h where h: "progress i l s (snd (dispatch m s)) h" using progress_dispatch [OF i] by blast
    from progress_len [OF h i] have "progress i l s (reader_stop (snd (dispatch m s))) (h @ [])"
      by (intro progress_trans [OF h] progress_stop)
    with h Received Inr show ?thesis
      by (cases "dispatch m s") (auto simp: read_step_def split: sum.splits)
  qed (use Received progress_stop [OF i] in \<open>auto simp: read_step_def\<close>)
next
  case (Written f)
  with assms show ?thesis
    by (intro exI [of _ "[]"])
      (auto simp: progress_def write_step_def stream_of_def split: list.splits option.splits)
next
  case Session_closed
  have "progress i l s (session_close s) []"
    using progress_close_all [OF i, of l] by (auto simp: progress_def session_close_def stream_of_def)
  with Session_closed show ?thesis by auto
next
  case Registers
  obtain j r where reg: "register (reg s) = (j, r)" by fastforce
  from register_sel [OF reg] i have "progress i l s (s\<lparr>reg := r\<rparr>) []"
    by (simp add: progress_def stream_of_def state_at_def nth_append)
  with Registers reg show ?thesis by (auto simp: register_stream_def)
next
  case (Posts m)
  with assms show ?thesis using progress_post [of m l i s] by auto
next
  case (Takes j)
  with assms show ?thesis
    by (auto simp: take_chunk_def take_data_def progress_def intro: exI [of _ "[]"] exI [of _ "[Taken j c]" for c]
        split: list.splits)
next
  case (Permits j)
  with assms show ?thesis by (auto simp: progress_def intro: exI [of _ "[]"])
next
  case (Marks j)
  with assms show ?thesis by (auto simp: progress_def state_simps intro: exI [of _ "[]"])
next
  case (Removes lid)
  then show ?thesis
    by (auto simp: progress_def remove_stream_def remove_def stream_of_def state_at_def intro: exI [of _ "[]"])
next
  case (Drops j)
  with assms show ?thesis by (auto simp: progress_def intro: exI [of _ "[]"])
qed

lemma progress_happens:
  assumes "list_all (alien i l) es" and "i < length (states (reg s))"
  shows "\<exists>h. progress i l s (happens es s) h"
  using assms
proof (induction es arbitrary: s)
  case Nil
  then show ?case by (auto intro: exI [of _ "[]"])
next
  case (Cons e es)
  have "\<exists>h. progress i l s (if enabled e s then happen e s else s) h"
    using progress_happen [of i l e s] Cons.prems by (cases "enabled e s") auto
  then obtain h where h: "progress i l s (if enabled e s then happen e s else s) h" ..
  with Cons.IH [of "if enabled e s then happen e s else s"] Cons.prems progress_len [OF h]
  obtain h' where "progress i l (if enabled e s then happen e s else s)
      (happens es (if enabled e s then happen e s else s)) h'" by auto
  from progress_trans [OF h this] show ?case by auto
qed

text \<open>A pause, and the two waits, as progress.\<close>

lemma pause_progress:
  assumes "leaves_alone E i l" and "i < length (states (reg (sess w)))" and "pause E w = Some (r, w')"
  shows "r = Inr () \<and> (\<exists>h. progress i l (sess w) (sess w') h)"
  using assms progress_happens
  by (fastforce simp: pause_def leaves_alone_def split: option.splits)

lemma env_progress:
  assumes "leaves_alone E i l" and "i < length (states (reg s))" and "E d s = Some (es, d')"
  shows "\<exists>h. progress i l s (happens es s) h"
  using assms progress_happens unfolding leaves_alone_def by blast

lemma notified_progress:
  assumes ret: "notified E i w = Some p"
    and alone: "leaves_alone E i l" and len: "i < length (states (reg (sess w)))"
  shows "\<exists>h. progress i l (sess w) (sess (snd p)) h"
proof -
  let ?P = "\<lambda>E i w p. leaves_alone E i l \<longrightarrow> i < length (states (reg (sess w)))
      \<longrightarrow> (\<exists>h. progress i l (sess w) (sess (snd p)) h)"
  have "?P E i w p"
  proof (rule notified.raw_induct [where P = ?P, OF _ ret], intro impI)
    fix f and E :: "'a env" and i w p
    assume IH: "\<And>E i w p. f E i w = Some p \<Longrightarrow> ?P E i w p"
      and eq: "(if wake (stream_of (sess w) i)
        then Some (Inr (), w\<lparr>sess := update_stream i (\<lambda>st. snd (take_permit st)) (sess w)\<rparr>)
        else case E (sched w) (sess w) of None \<Rightarrow> None
          | Some (es, d) \<Rightarrow> f E i \<lparr>sess = happens es (sess w), sched = d\<rparr>) = Some p"
      and alone: "leaves_alone E i l" and len: "i < length (states (reg (sess w)))"
    show "\<exists>h. progress i l (sess w) (sess (snd p)) h"
    proof (cases "wake (stream_of (sess w) i)")
      case True
      with eq len show ?thesis by (auto simp: progress_def state_simps intro!: exI [of _ "[]"])
    next
      case False
      with eq obtain es d where E: "E (sched w) (sess w) = Some (es, d)"
        and f: "f E i \<lparr>sess = happens es (sess w), sched = d\<rparr> = Some p"
        by (auto split: option.splits)
      obtain h where h: "progress i l (sess w) (happens es (sess w)) h"
        using env_progress [OF alone len E] by blast
      with IH [OF f] alone progress_len [OF h len] show ?thesis
        by (auto intro: progress_trans [OF h])
    qed
  qed
  with alone len show ?thesis by blast
qed

lemma wait_ack_progress:
  assumes ret: "wait_ack E i seen w = Some p"
    and alone: "leaves_alone E i l" and len: "i < length (states (reg (sess w)))"
  shows "\<exists>b h. fst p = Inr b \<and> progress i l (sess w) (sess (snd p)) h
     \<and> poll_ack seen (stream_of (sess (snd p)) i) = Some b"
proof -
  let ?Q = "\<lambda>E i seen w p. \<exists>b h. fst p = Inr b \<and> progress i l (sess w) (sess (snd p)) h
      \<and> poll_ack seen (stream_of (sess (snd p)) i) = Some b"
  let ?P = "\<lambda>E i seen w p. leaves_alone E i l \<longrightarrow> i < length (states (reg (sess w))) \<longrightarrow> ?Q E i seen w p"
  have "?P E i seen w p"
  proof (rule wait_ack.raw_induct [where P = ?P, OF _ ret], intro impI)
    fix f and E :: "'a env" and i seen w p
    assume IH: "\<And>E i seen w p. f E i seen w = Some p \<Longrightarrow> ?P E i seen w p"
      and eq: "(case poll_ack seen (stream_of (sess w) i) of Some b \<Rightarrow> Some (Inr b, w)
        | None \<Rightarrow> (case notified E i w of None \<Rightarrow> None | Some (_, w') \<Rightarrow> f E i seen w')) = Some p"
      and alone: "leaves_alone E i l" and len: "i < length (states (reg (sess w)))"
    show "?Q E i seen w p"
    proof (cases "poll_ack seen (stream_of (sess w) i)")
      case (Some b)
      with eq show ?thesis by auto
    next
      case None
      with eq obtain r w' where n: "notified E i w = Some (r, w')" and f: "f E i seen w' = Some p"
        by (auto split: option.splits)
      obtain h where h: "progress i l (sess w) (sess w') h"
        using notified_progress [OF n alone len] by auto
      with IH [OF f] alone progress_len [OF h len] show ?thesis
        by (auto intro: progress_trans [OF h])
    qed
  qed
  with alone len show ?thesis by blast
qed

lemma recv_data_progress:
  assumes ret: "recv_data E i w = Some p"
    and alone: "leaves_alone E i l" and len: "i < length (states (reg (sess w)))"
  shows "\<exists>x s h. fst p = Inr x \<and> progress i l (sess w) s h \<and> take_chunk i s = (Ready x, sess (snd p))"
proof -
  let ?Q = "\<lambda>i w p. \<exists>x s h. fst p = Inr x \<and> progress i l (sess w) s h
      \<and> take_chunk i s = (Ready x, sess (snd p))"
  let ?P = "\<lambda>E i w p. leaves_alone E i l \<longrightarrow> i < length (states (reg (sess w))) \<longrightarrow> ?Q i w p"
  have "?P E i w p"
  proof (rule recv_data.raw_induct [where P = ?P, OF _ ret], intro impI)
    fix f and E :: "'a env" and i w p
    assume IH: "\<And>E i w p. f E i w = Some p \<Longrightarrow> ?P E i w p"
      and eq: "(case take_chunk i (sess w) of (Ready x, s) \<Rightarrow> Some (Inr x, w\<lparr>sess := s\<rparr>)
        | (Pending, s) \<Rightarrow> (case E (sched w) s of None \<Rightarrow> None
           | Some (es, d) \<Rightarrow> f E i \<lparr>sess = happens es s, sched = d\<rparr>)) = Some p"
      and alone: "leaves_alone E i l" and len: "i < length (states (reg (sess w)))"
    obtain y s where t: "take_chunk i (sess w) = (y, s)" by fastforce
    show "?Q i w p"
    proof (cases y)
      case (Ready x)
      with eq t show ?thesis by (intro exI [of _ x] exI [of _ "sess w"] exI [of _ "[]"]) auto
    next
      case Pending
      then have s: "s = sess w" using t
        by (auto simp: take_chunk_def take_data_def split: list.splits if_splits)
      with eq t Pending obtain es d where E: "E (sched w) (sess w) = Some (es, d)"
        and f: "f E i \<lparr>sess = happens es (sess w), sched = d\<rparr> = Some p"
        by (auto split: option.splits)
      obtain h where h: "progress i l (sess w) (happens es (sess w)) h"
        using env_progress [OF alone len E] by blast
      with IH [OF f] alone progress_len [OF h len] show ?thesis
        by (auto intro: progress_trans [OF h])
    qed
  qed
  with alone len show ?thesis by blast
qed

end
