(* ===== verification/Stream_Flow.thy ===== *)
theory Stream_Flow
  imports Stream_Env
begin

section \<open>Flow control and the data of a stream\<close>

text \<open>
  The lemmas follow one owner through \<open>write_chunk\<close>, \<open>send\<close> and \<open>recv\<close> while the environment
  does anything that is not the owner's business, and describe the effects that happened until
  each of them returns.
\<close>

definition follows :: "nat \<Rightarrow> session \<Rightarrow> session \<Rightarrow> effect list \<Rightarrow> bool" where
  "follows i s s' h \<longleftrightarrow>
     history s' = history s @ h
     \<and> length (states (reg s)) \<le> length (states (reg s'))
     \<and> acks (stream_of s' i) = acks (stream_of s i) + word_of_nat (acked i h)
     \<and> local_id (stream_of s' i) = local_id (stream_of s i)
     \<and> (closed (stream_of s i) \<longrightarrow> closed (stream_of s' i))
     \<and> (remote_id (stream_of s i) \<noteq> 0 \<longrightarrow> remote_id (stream_of s' i) = remote_id (stream_of s i))
     \<and> data_q (stream_of s i) @ delivered i h = taken i h @ data_q (stream_of s' i)
     \<and> (writer_alive s' \<longrightarrow> writer_alive s)"

lemma progress_follows: "progress i l s s' h \<Longrightarrow> follows i s s' h"
  by (simp add: progress_def follows_def)

lemma progress_silent:
  "progress i l s s' h \<Longrightarrow> own_posts l h = [] \<and> own_writes l h = [] \<and> own_okays l h = [] \<and> taken i h = []"
  using no_own_posts [of l h] by (simp add: progress_def)

lemma follows_refl [simp]: "follows i s s []"
  by (simp add: follows_def)

lemma follows_trans:
  assumes "follows i s s1 h" and "follows i s1 s2 h'"
  shows "follows i s s2 (h @ h')"
proof -
  have "data_q (stream_of s i) @ delivered i (h @ h') = taken i (h @ h') @ data_q (stream_of s2 i)"
    using assms by (simp add: follows_def effect_simps) (metis append.assoc)
  with assms show ?thesis by (auto simp: follows_def effect_simps)
qed

lemma follows_len: "follows i s s' h \<Longrightarrow> i < length (states (reg s)) \<Longrightarrow> i < length (states (reg s'))"
  by (simp add: follows_def)

lemma follows_post:
  assumes "post m s = (r, s')"
  shows "follows i s s' (if r = Inr () then [Posted m] else [])"
proof -
  from assms have "r = fst (post m s)" and "s' = snd (post m s)" by simp_all
  then show ?thesis by (simp add: follows_def)
qed

text \<open>At no time do the writes exceed the acknowledgements by more than \<open>k\<close>.\<close>

definition flow_ok :: "nat \<Rightarrow> u32 \<Rightarrow> nat \<Rightarrow> effect list \<Rightarrow> bool" where
  "flow_ok i l k h \<longleftrightarrow> (\<forall>p. prefix p h \<longrightarrow> length (own_writes l p) \<le> acked i p + k)"

lemma flow_ok_silent: "own_writes l h = [] \<Longrightarrow> flow_ok i l k h"
  by (auto simp: flow_ok_def prefix_def effect_simps)

lemma flow_ok_append:
  assumes "flow_ok i l k h" and "length (own_writes l h) + k' \<le> acked i h + k" and "flow_ok i l k' h'"
  shows "flow_ok i l k (h @ h')"
  unfolding flow_ok_def
proof (intro allI impI)
  fix p
  assume "prefix p (h @ h')"
  then consider "prefix p h" | p' where "p = h @ p'" "prefix p' h'"
    by (auto simp: prefix_append)
  then show "length (own_writes l p) \<le> acked i p + k"
    using assms unfolding flow_ok_def
  proof cases
    case 2
    then have "length (own_writes l p') \<le> acked i p' + k'" using assms(3) by (simp add: flow_ok_def)
    with 2 assms(2) show ?thesis by (simp add: effect_simps)
  qed simp
qed

lemma flow_ok_one: "length (own_writes l [x]) \<le> k \<Longrightarrow> flow_ok i l k [x]"
  by (auto simp: flow_ok_def prefix_Cons)

subsection \<open>The parts of an operation\<close>

lemma ids_result:
  assumes "leaves_alone E i l" and len: "i < length (states (reg (sess w)))" and "ids E i w = Some (r, w')"
  shows "\<exists>h. progress i l (sess w) (sess w') h
     \<and> (case r of Inl e \<Rightarrow> e = StreamClosed \<and> (closed (stream_of (sess w) i) \<or> remote (stream_of (sess w') i) = None)
        | Inr (a, b) \<Rightarrow> a = local_id (stream_of (sess w) i) \<and> remote (stream_of (sess w') i) = Some b
            \<and> \<not> closed (stream_of (sess w) i))"
proof (cases "closed (stream_of (sess w) i)")
  case True
  with assms(3) show ?thesis
    by (auto simp: ids_def look_def and_then_def intro: exI [of _ "[]"])
next
  case False
  with assms(3) obtain r1 w1 where p: "pause E w = Some (r1, w1)"
    by (cases "pause E w") (auto simp: ids_def look_def and_then_def)
  from pause_progress [OF assms(1) len p] obtain h where
    r1: "r1 = Inr ()" and h: "progress i l (sess w) (sess w1) h" by blast
  then have "local_id (stream_of (sess w1) i) = local_id (stream_of (sess w) i)"
    by (simp add: progress_def)
  with False p r1 assms(3) h show ?thesis
    by (auto simp: ids_def look_def and_then_def split: option.splits)
qed

text \<open>The second half of \<open>write_chunk\<close>: one \<open>WRTE\<close>, and at least one acknowledgement before success.\<close>

definition post_and_wait :: "'d env \<Rightarrow> nat \<Rightarrow> u64 \<Rightarrow> message \<Rightarrow> ('d world, unit) comp" where
  "post_and_wait E i seen m =
     and_then (post_message m) (\<lambda>_. and_then (pause E) (\<lambda>_. and_then (wait_ack E i seen) (\<lambda>ok.
       if ok then ret () else throw StreamClosed)))"

lemma wait_result:
  assumes alone: "leaves_alone E i l" and len: "i < length (states (reg (sess w)))"
    and ret: "and_then (pause E) (\<lambda>_. and_then (wait_ack E i seen) (\<lambda>ok.
       if ok then ret () else throw StreamClosed)) w = Some (r, w')"
  shows "\<exists>h. progress i l (sess w) (sess w') h
     \<and> (r = Inr () \<and> seen < acks (stream_of (sess w') i) \<or> r = Inl StreamClosed \<and> closed (stream_of (sess w') i))"
  using ret
proof (cases rule: and_then_SomeE)
  case (err e)
  then show ?thesis using pause_progress [OF alone len] by blast
next
  case (ok x w1)
  from pause_progress [OF alone len ok(1)] obtain h1 where
    h1: "progress i l (sess w) (sess w1) h1" by blast
  from ok(2) obtain p w2 where wait: "wait_ack E i seen w1 = Some (p, w2)"
    by (auto simp: and_then_def split: option.splits)
  from wait_ack_progress [OF wait alone progress_len [OF h1 len]] obtain b h2 where
    "p = Inr b" and h2: "progress i l (sess w1) (sess w2) h2"
    and "poll_ack seen (stream_of (sess w2) i) = Some b" by auto
  with ok(2) wait progress_trans [OF h1 h2] show ?thesis
    by (intro exI [of _ "h1 @ h2"]) (auto simp: and_then_def poll_ack_def split: if_splits)
qed

lemma post_and_wait_result:
  assumes alone: "leaves_alone E i l" and len: "i < length (states (reg (sess w)))"
    and ret: "post_and_wait E i seen (new_message Write l b chunk) w = Some (r, w')"
  shows "r = Inl Disconnected \<and> w' = w
     \<or> (\<exists>h. follows i (sess w) (sess w') (Posted (new_message Write l b chunk) # h)
          \<and> own_writes l h = [] \<and> taken i h = []
          \<and> (r = Inr () \<and> seen < acks (stream_of (sess w') i)
             \<or> r = Inl StreamClosed \<and> closed (stream_of (sess w') i)))"
proof (cases "writer_alive (sess w)")
  case False
  with ret show ?thesis
    by (auto simp: post_and_wait_def post_message_def post_def and_then_def)
next
  case True
  let ?m = "new_message Write l b chunk"
  obtain s1 where post: "post ?m (sess w) = (Inr (), s1)" using True by (simp add: post_def)
  let ?w1 = "w\<lparr>sess := s1\<rparr>"
  have f1: "follows i (sess w) s1 [Posted ?m]" using follows_post [OF post, of i] by simp
  have "and_then (pause E) (\<lambda>_. and_then (wait_ack E i seen) (\<lambda>ok.
       if ok then ret () else throw StreamClosed)) ?w1 = Some (r, w')"
    using ret post by (simp add: post_and_wait_def post_message_def and_then_def)
  from wait_result [OF alone _ this] follows_len [OF f1 len] obtain h where
    h: "progress i l s1 (sess w') h"
    and "r = Inr () \<and> seen < acks (stream_of (sess w') i)
      \<or> r = Inl StreamClosed \<and> closed (stream_of (sess w') i)" by auto
  moreover have "follows i (sess w) (sess w') (Posted ?m # h)"
    using follows_trans [OF f1 progress_follows [OF h]] by simp
  ultimately show ?thesis using progress_silent [OF h] by auto
qed

text \<open>The first half: the ids, and the count of acknowledgements before the \<open>WRTE\<close>.\<close>

lemma write_chunk_split:
  assumes alone: "leaves_alone E i l" and len: "i < length (states (reg (sess w)))"
    and l: "l = local_id (stream_of (sess w) i)" and ret: "write_chunk E i chunk w = Some (r, w')"
  shows "r = Inl StreamClosed \<and> (\<exists>h. progress i l (sess w) (sess w') h)
     \<or> (\<exists>b seen w1 h h'. progress i l (sess w) (sess w1) (h @ h')
          \<and> acks (stream_of (sess w1) i) = seen + word_of_nat (acked i h')
          \<and> post_and_wait E i seen (new_message Write l b chunk) w1 = Some (r, w'))"
  using ret unfolding write_chunk_def post_and_wait_def [symmetric]
proof (cases rule: and_then_SomeE)
  case (err e)
  from ids_result [OF alone len err(1)] err(2) show ?thesis by auto
next
  case (ok ab w1)
  obtain a b where ab: "ab = (a, b)" by (cases ab)
  from ids_result [OF alone len ok(1)] ab obtain h1 where
    h1: "progress i l (sess w) (sess w1) h1" and a: "a = l" by (auto simp: l)
  note len1 = progress_len [OF h1 len]
  from ok(2) obtain r2 w2 where p2: "pause E w1 = Some (r2, w2)"
    by (cases "pause E w1") (auto simp: ab and_then_def)
  from pause_progress [OF alone len1 p2] obtain h2 where
    r2: "r2 = Inr ()" and h2: "progress i l (sess w1) (sess w2) h2" by blast
  note len2 = progress_len [OF h2 len1]
  from ok(2) obtain r3 w3 where p3: "pause E w2 = Some (r3, w3)"
    by (cases "pause E w2") (auto simp: ab and_then_def p2 r2 look_def)
  from pause_progress [OF alone len2 p3] obtain h3 where
    r3: "r3 = Inr ()" and h3: "progress i l (sess w2) (sess w3) h3" by blast
  from ok(2) have "post_and_wait E i (acks (stream_of (sess w2) i)) (new_message Write l b chunk) w3 = Some (r, w')"
    by (simp add: ab and_then_def p2 r2 p3 r3 look_def a)
  moreover have "progress i l (sess w) (sess w3) ((h1 @ h2) @ h3)"
    by (rule progress_trans [OF progress_trans [OF h1 h2] h3])
  moreover have "acks (stream_of (sess w3) i) = acks (stream_of (sess w2) i) + word_of_nat (acked i h3)"
    using h3 by (simp add: progress_def)
  ultimately show ?thesis by blast
qed

lemma write_chunk_result:
  assumes alone: "leaves_alone E i l" and len: "i < length (states (reg (sess w)))"
    and l: "l = local_id (stream_of (sess w) i)" and ret: "write_chunk E i chunk w = Some (r, w')"
  shows "\<exists>h. follows i (sess w) (sess w') h \<and> taken i h = [] \<and> flow_ok i l 1 h
     \<and> (r = Inr () \<and> own_writes l h = [chunk] \<and> 0 < acked i h
        \<or> (r = Inl StreamClosed \<or> r = Inl Disconnected) \<and> own_writes l h \<in> {[], [chunk]})"
  using write_chunk_split [OF assms]
proof (elim disjE exE conjE)
  fix h assume r: "r = Inl StreamClosed" and h: "progress i l (sess w) (sess w') h"
  then show ?thesis
    by (intro exI [of _ h]) (use progress_follows [OF h] progress_silent [OF h] in \<open>simp add: flow_ok_silent\<close>)
next
  fix b seen w1 h h'
  let ?m = "new_message Write l b chunk"
  assume h: "progress i l (sess w) (sess w1) (h @ h')"
    and seen: "acks (stream_of (sess w1) i) = seen + word_of_nat (acked i h')"
    and post: "post_and_wait E i seen ?m w1 = Some (r, w')"
  have silent: "own_writes l h = []" "own_writes l h' = []" "taken i h = []" "taken i h' = []"
    using progress_silent [OF h] by (simp_all add: effect_simps)
  from post_and_wait_result [OF alone progress_len [OF h len] post] consider
    (gone) "r = Inl Disconnected" "w' = w1"
    | (sent) h2 where "follows i (sess w1) (sess w') (Posted ?m # h2)" "own_writes l h2 = []" "taken i h2 = []"
      "r = Inr () \<and> seen < acks (stream_of (sess w') i)
        \<or> r = Inl StreamClosed \<and> closed (stream_of (sess w') i)" by blast
  then show ?thesis
  proof cases
    case gone
    then show ?thesis using progress_follows [OF h] silent
      by (intro exI [of _ "h @ h'"]) (simp add: flow_ok_silent effect_simps)
  next
    case sent
    note f2 = sent(1) and h2 = sent(2,3) and out = sent(4)
    let ?h = "(h @ h') @ [Posted ?m] @ h2"
    have "flow_ok i l 1 ?h" using silent h2
      by (intro flow_ok_append [of i l 1 "h @ h'" 1] flow_ok_append [of i l 1 "[Posted ?m]" 0])
        (simp_all add: flow_ok_silent flow_ok_one effect_simps)
    moreover have "follows i (sess w) (sess w') ?h"
      using follows_trans [OF progress_follows [OF h] f2] by simp
    moreover have "0 < acked i ?h" if "r = Inr ()"
    proof (rule ccontr)
      assume "\<not> 0 < acked i ?h"
      then have "acks (stream_of (sess w') i) = seen"
        using f2 seen by (simp add: follows_def effect_simps)
      with out that show False by simp
    qed
    moreover have "own_writes l ?h = [chunk]" "taken i ?h = []"
      using silent h2 by (simp_all only: effect_simps) simp_all
    ultimately show ?thesis using out by (intro exI [of _ ?h]) blast
  qed
qed

subsection \<open>Sending\<close>

text \<open>The pieces \<open>send\<close> is meant to cut its data into.\<close>

function chunks :: "nat \<Rightarrow> 'a list \<Rightarrow> 'a list list" where
  "chunks n xs = (if n = 0 \<or> xs = [] then [] else take n xs # chunks n (drop n xs))"
  by pat_completeness auto
termination by (relation "measure (\<lambda>(n, xs). length xs)") auto

declare chunks.simps [simp del]

lemma chunks_props:
  assumes "0 < n"
  shows "concat (chunks n xs) = xs \<and> (\<forall>c \<in> set (chunks n xs). c \<noteq> [] \<and> length c \<le> n)"
  using assms
proof (induction n xs rule: chunks.induct)
  case (1 n xs)
  then show ?case by (cases "xs = []") (simp_all add: chunks.simps [of n xs] chunks.simps [of n "[]"])
qed

lemma send_rest_result:
  assumes ret: "send_rest E i limit data w = Some p" and "leaves_alone E i l"
    and "i < length (states (reg (sess w)))" and "l = local_id (stream_of (sess w) i)" and "0 < limit"
  shows "\<exists>h. follows i (sess w) (sess (snd p)) h \<and> taken i h = [] \<and> flow_ok i l 1 h
     \<and> (fst p = Inr () \<and> own_writes l h = chunks limit data \<and> length (own_writes l h) \<le> acked i h
        \<or> (fst p = Inl StreamClosed \<or> fst p = Inl Disconnected) \<and> prefix (own_writes l h) (chunks limit data))"
proof -
  let ?Q = "\<lambda>i limit data w p. \<exists>h. follows i (sess w) (sess (snd p)) h \<and> taken i h = [] \<and> flow_ok i l 1 h
     \<and> (fst p = Inr () \<and> own_writes l h = chunks limit data \<and> length (own_writes l h) \<le> acked i h
        \<or> (fst p = Inl StreamClosed \<or> fst p = Inl Disconnected) \<and> prefix (own_writes l h) (chunks limit data))"
  let ?P = "\<lambda>E i limit data w p. leaves_alone E i l \<longrightarrow> i < length (states (reg (sess w)))
     \<longrightarrow> l = local_id (stream_of (sess w) i) \<longrightarrow> 0 < limit \<longrightarrow> ?Q i limit data w p"
  have "?P E i limit data w p"
  proof (rule send_rest.raw_induct [where P = ?P, OF _ ret], intro impI)
    fix f and E :: "'a env" and i limit data w p
    assume IH: "\<And>E i limit data w p. f E i limit data w = Some p \<Longrightarrow> ?P E i limit data w p"
      and eq: "(if data = [] then Some (Inr (), w)
        else and_then (write_chunk E i (take limit data)) (\<lambda>_. f E i limit (drop limit data)) w) = Some p"
      and alone: "leaves_alone E i l" and len: "i < length (states (reg (sess w)))"
      and l: "l = local_id (stream_of (sess w) i)" and pos: "0 < limit"
    show "?Q i limit data w p"
    proof (cases "data = []")
      case True
      with eq show ?thesis
        by (intro exI [of _ "[]"]) (auto simp: flow_ok_silent chunks.simps)
    next
      case False
      then have ch: "chunks limit data = take limit data # chunks limit (drop limit data)"
        using pos by (subst chunks.simps) simp
      from eq False obtain r w1 where wc: "write_chunk E i (take limit data) w = Some (r, w1)"
        by (auto simp: and_then_def split: option.splits)
      from write_chunk_result [OF alone len l wc] obtain h where
        h: "follows i (sess w) (sess w1) h" "taken i h = []" "flow_ok i l 1 h"
        and out: "r = Inr () \<and> own_writes l h = [take limit data] \<and> 0 < acked i h
          \<or> (r = Inl StreamClosed \<or> r = Inl Disconnected) \<and> own_writes l h \<in> {[], [take limit data]}" by blast
      show ?thesis
      proof (cases r)
        case (Inl e)
        with eq False wc have "p = (Inl e, w1)" by (simp add: and_then_def)
        with h out Inl ch show ?thesis by (intro exI [of _ h]) auto
      next
        case (Inr u)
        with eq False wc have "f E i limit (drop limit data) w1 = Some p" by (simp add: and_then_def)
        from IH [OF this] alone follows_len [OF h(1) len] pos h(1) l obtain h' where
          h': "follows i (sess w1) (sess (snd p)) h'" "taken i h' = []" "flow_ok i l 1 h'"
          and rest: "fst p = Inr () \<and> own_writes l h' = chunks limit (drop limit data) \<and> length (own_writes l h') \<le> acked i h'
            \<or> (fst p = Inl StreamClosed \<or> fst p = Inl Disconnected) \<and> prefix (own_writes l h') (chunks limit (drop limit data))"
          by (auto simp: follows_def)
        have "flow_ok i l 1 (h @ h')"
          using out Inr h h' by (intro flow_ok_append [of i l 1 h 1]) auto
        with follows_trans [OF h(1) h'(1)] h h' out rest Inr ch show ?thesis
          by (intro exI [of _ "h @ h'"]) (auto simp: effect_simps)
      qed
    qed
  qed
  with assms(2-) show ?thesis by blast
qed

subsection \<open>Receiving\<close>

lemma take_chunk_follows:
  assumes "take_chunk i s = (Ready x, s')" and "i < length (states (reg s))"
  shows "follows i s s' (case x of None \<Rightarrow> [] | Some c \<Rightarrow> [Taken i c])
     \<and> (x = None \<longrightarrow> s' = s \<and> data_q (stream_of s i) = [] \<and> \<not> data_tx (stream_of s i))"
  using assms
  by (auto simp: take_chunk_def take_data_def follows_def split: list.splits if_splits)

lemma stream_recv_result:
  assumes alone: "leaves_alone E (state_ix st) l" and len: "state_ix st < length (states (reg (sess w)))"
    and l: "l = local_id (stream_of (sess w) (state_ix st))" and ret: "stream_recv E st w = Some (r, w')"
  shows "\<exists>h. follows (state_ix st) (sess w) (sess w') h \<and> own_writes l h = []
     \<and> (case r of
          Inr None \<Rightarrow> taken (state_ix st) h = [] \<and> own_posts l h = []
            \<and> data_q (stream_of (sess w') (state_ix st)) = [] \<and> \<not> data_tx (stream_of (sess w') (state_ix st))
        | Inr (Some c) \<Rightarrow> taken (state_ix st) h = [c]
            \<and> (\<exists>b. own_posts l h = [empty_message Okay l b] \<and> remote (stream_of (sess w') (state_ix st)) = Some b
               \<or> own_posts l h = [] \<and> (closed (stream_of (sess w') (state_ix st))
                    \<or> remote (stream_of (sess w') (state_ix st)) = None))
        | Inl e \<Rightarrow> e = Disconnected \<and> own_posts l h = [] \<and> \<not> writer_alive (sess w'))"
proof -
  let ?i = "state_ix st"
  from ret obtain p1 w1 where rd: "recv_data E ?i w = Some (p1, w1)"
    by (cases "recv_data E ?i w") (auto simp: stream_recv_def and_then_def Let_def)
  from recv_data_progress [OF rd alone len] obtain x s1 h1 where
    p1: "p1 = Inr x" and h1: "progress ?i l (sess w) s1 h1" and tk: "take_chunk ?i s1 = (Ready x, sess w1)"
    by auto
  note len1 = progress_len [OF h1 len]
  note f1 = take_chunk_follows [OF tk len1]
  show ?thesis
  proof (cases x)
    case None
    with ret rd p1 have "r = Inr None" "w' = w1" by (auto simp: stream_recv_def and_then_def Let_def)
    with None f1 progress_follows [OF h1] progress_silent [OF h1] show ?thesis
      by (intro exI [of _ h1]) auto
  next
    case (Some c)
    have f2: "follows ?i (sess w) (sess w1) (h1 @ [Taken ?i c])"
      using follows_trans [OF progress_follows [OF h1]] f1 Some by simp
    note len2 = follows_len [OF f2 len]
    have cont: "and_then (pause E) (\<lambda>_. handle (ids E ?i) (\<lambda>r. case r of
          Inr (l, rid) \<Rightarrow> and_then (post_message (empty_message Okay l rid)) (\<lambda>_. ret (Some c))
        | Inl _ \<Rightarrow> ret (Some c))) w1 = Some (r, w')"
      using ret rd p1 Some by (simp add: stream_recv_def and_then_def Let_def)
    then obtain r2 w2 where p2: "pause E w1 = Some (r2, w2)"
      by (cases "pause E w1") (auto simp: and_then_def)
    from pause_progress [OF alone len2 p2] obtain h2 where
      r2: "r2 = Inr ()" and h2: "progress ?i l (sess w1) (sess w2) h2" by blast
    note len3 = progress_len [OF h2 len2]
    from cont p2 r2 obtain r3 w3 where i3: "ids E ?i w2 = Some (r3, w3)"
      by (cases "ids E ?i w2") (auto simp: and_then_def handle_def)
    from ids_result [OF alone len3 i3] obtain h3 where h3: "progress ?i l (sess w2) (sess w3) h3"
      and res: "case r3 of Inl e \<Rightarrow> e = StreamClosed \<and> (closed (stream_of (sess w2) ?i) \<or> remote (stream_of (sess w3) ?i) = None)
        | Inr (a, b) \<Rightarrow> a = local_id (stream_of (sess w2) ?i) \<and> remote (stream_of (sess w3) ?i) = Some b
            \<and> \<not> closed (stream_of (sess w2) ?i)" by blast
    let ?h = "(h1 @ [Taken ?i c]) @ h2 @ h3"
    have f3: "follows ?i (sess w) (sess w3) ?h"
      by (rule follows_trans [OF f2 progress_follows [OF progress_trans [OF h2 h3]]])
    have quiet: "own_posts l ?h = []" "own_writes l ?h = []" "taken ?i ?h = [c]"
      using progress_silent [OF h1] progress_silent [OF h2] progress_silent [OF h3]
      by (simp_all add: effect_simps)
    show ?thesis
    proof (cases r3)
      case (Inl e)
      with cont p2 r2 i3 have "r = Inr (Some c)" "w' = w3" by (auto simp: and_then_def handle_def)
      with Inl f3 quiet res h3 show ?thesis
        by (intro exI [of _ ?h]) (auto simp: progress_def)
    next
      case (Inr ab)
      then obtain a b where ab: "ab = (a, b)" by (cases ab)
      have a: "a = l" using res Inr ab f2 h2 l by (simp add: follows_def progress_def)
      obtain q s4 where post: "post (empty_message Okay l b) (sess w3) = (q, s4)" by fastforce
      from cont p2 r2 i3 Inr ab a post have out: "r = (case q of Inl e \<Rightarrow> Inl e | Inr _ \<Rightarrow> Inr (Some c))"
        "sess w' = s4" by (auto simp: and_then_def handle_def post_message_def split: sum.splits)
      have f4: "follows ?i (sess w) s4 (?h @ (if q = Inr () then [Posted (empty_message Okay l b)] else []))"
        by (rule follows_trans [OF f3 follows_post [OF post]])
      have q: "q = (if writer_alive (sess w3) then Inr () else Inl Disconnected)" "s4 = snd (post (empty_message Okay l b) (sess w3))"
        using post post_sel(9) [of "empty_message Okay l b" "sess w3"] by (metis fst_conv, simp)
      show ?thesis
        using f4 out quiet res Inr ab q
        by (intro exI [of _ "?h @ (if q = Inr () then [Posted (empty_message Okay l b)] else [])"])
          (auto simp: effect_simps)
    qed
  qed
qed

subsection \<open>Properties\<close>

text \<open>
  A schedule for the witnesses: the events of each pause in order, less those that are the
  owner's business; when it is used up, the owner is suspended for ever.
\<close>

fun script :: "nat \<Rightarrow> u32 \<Rightarrow> event list list env" where
  "script i l [] s = None"
| "script i l (es # rest) s = Some (filter (alien i l) es, rest)"

lemma script_alone: "leaves_alone (script i l) i l"
  unfolding leaves_alone_def
proof (intro allI impI)
  fix d s es d'
  assume "script i l d s = Some (es, d')"
  then show "list_all (alien i l) es" by (cases d) (auto simp: list_all_iff)
qed

lemmas stream_eval = and_then_def pause_def look_def post_message_def write_chunk_def ids_def
  poll_ack_def handle_def session_eval sample_session_val

lemma wait_ack_ready: "poll_ack seen (stream_of (sess w) i) = Some b \<Longrightarrow> wait_ack E i seen w = Some (Inr b, w)"
  by (simp add: wait_ack.simps)

definition sample_stream :: stream where
  "sample_stream = \<lparr>state_ix = 0, max_chunk = 2\<rparr>"

lemma sample_alone: "leaves_alone (script 0 1) (state_ix sample_stream) 1"
  by (simp add: sample_stream_def script_alone)

definition sample_okay :: event where
  "sample_okay = Received (Inr (empty_message Okay 7 1))"

text \<open>
  C1: \<open>send\<close>, under any interleaving with the other tasks, cuts its data into the maximal pieces
  the payload limit allows and posts them in order, one \<open>WRTE\<close> each; at no point do the \<open>WRTE\<close>s
  it has posted exceed the \<open>OKAY\<close>s received for the stream by more than one. Success means that
  all of the data was posted and acknowledged; the only errors are \<open>StreamClosed\<close> and
  \<open>Disconnected\<close>, and then a prefix of the pieces was posted.
\<close>

theorem send_flow_control:
  assumes "leaves_alone E (state_ix st) l" and "state_ix st < length (states (reg (sess w)))"
    and "l = local_id (stream_of (sess w) (state_ix st))" and "0 < max_chunk st"
    and "stream_send E st data w = Some (r, w')"
  shows "\<exists>h. history (sess w') = history (sess w) @ h \<and> flow_ok (state_ix st) l 1 h
     \<and> concat (chunks (max_chunk st) data) = data
     \<and> (\<forall>c \<in> set (chunks (max_chunk st) data). c \<noteq> [] \<and> length c \<le> max_chunk st)
     \<and> (r = Inr () \<and> own_writes l h = chunks (max_chunk st) data
          \<and> length (own_writes l h) \<le> acked (state_ix st) h
        \<or> (r = Inl StreamClosed \<or> r = Inl Disconnected)
          \<and> prefix (own_writes l h) (chunks (max_chunk st) data))"
  using send_rest_result [OF assms(5) [unfolded stream_send_def] assms(1-4)]
    chunks_props [OF assms(4), of data]
  by (auto simp: follows_def)

theorem send_flow_control_witness:
  "\<exists>w' h. stream_send (script 0 1) sample_stream [10, 11, 12]
       \<lparr>sess = sample_session, sched = [[], [], [], [sample_okay], [], [], [Registers], [sample_okay]]\<rparr> = Some (Inr (), w')
     \<and> history (sess w') = history sample_session @ h \<and> own_writes 1 h = [[10, 11], [12]] \<and> flow_ok 0 1 1 h"
proof -
  let ?w = "\<lparr>sess = sample_session, sched = [[], [], [], [sample_okay], [], [], [Registers], [sample_okay]]\<rparr>"
  have "\<exists>w'. stream_send (script 0 1) sample_stream [10, 11, 12] ?w = Some (Inr (), w')"
    by (simp add: stream_send_def sample_stream_def sample_okay_def send_rest.simps [of _ _ _ "[10, 11, 12]"]
        send_rest.simps [of _ _ _ "[12]"] send_rest.simps [of _ _ _ "[]"] wait_ack_ready stream_eval)
  then obtain w' where ret: "stream_send (script 0 1) sample_stream [10, 11, 12] ?w = Some (Inr (), w')" ..
  have "chunks 2 [10, 11, 12] = [[10, 11], [12 :: u8]]" by (simp add: chunks.simps)
  with send_flow_control [OF sample_alone _ _ _ ret] ret show ?thesis
    by (fastforce simp: sample_stream_def sample_session_val stream_of_def state_at_def)
qed

text \<open>
  C3: \<open>recv\<close>, under any interleaving, returns the oldest chunk that was not yet taken and posts
  exactly one \<open>OKAY\<close> for it when the stream is still open, none otherwise; it reports the end only
  when the stream is closed and everything was taken, and fails only when the writer is gone.
\<close>

theorem recv_in_order:
  assumes "leaves_alone E (state_ix st) l" and "state_ix st < length (states (reg (sess w)))"
    and "l = local_id (stream_of (sess w) (state_ix st))" and "stream_recv E st w = Some (r, w')"
  shows "\<exists>h. history (sess w') = history (sess w) @ h
     \<and> data_q (stream_of (sess w) (state_ix st)) @ delivered (state_ix st) h
         = taken (state_ix st) h @ data_q (stream_of (sess w') (state_ix st))
     \<and> (case r of
          Inr None \<Rightarrow> taken (state_ix st) h = [] \<and> own_posts l h = []
            \<and> data_q (stream_of (sess w') (state_ix st)) = [] \<and> \<not> data_tx (stream_of (sess w') (state_ix st))
        | Inr (Some c) \<Rightarrow> taken (state_ix st) h = [c]
            \<and> (\<exists>b. own_posts l h = [empty_message Okay l b] \<and> remote (stream_of (sess w') (state_ix st)) = Some b
               \<or> own_posts l h = [] \<and> (closed (stream_of (sess w') (state_ix st))
                    \<or> remote (stream_of (sess w') (state_ix st)) = None))
        | Inl e \<Rightarrow> e = Disconnected \<and> own_posts l h = [] \<and> \<not> writer_alive (sess w'))"
proof -
  from stream_recv_result [OF assms] obtain h where
    "follows (state_ix st) (sess w) (sess w') h" and "case r of
          Inr None \<Rightarrow> taken (state_ix st) h = [] \<and> own_posts l h = []
            \<and> data_q (stream_of (sess w') (state_ix st)) = [] \<and> \<not> data_tx (stream_of (sess w') (state_ix st))
        | Inr (Some c) \<Rightarrow> taken (state_ix st) h = [c]
            \<and> (\<exists>b. own_posts l h = [empty_message Okay l b] \<and> remote (stream_of (sess w') (state_ix st)) = Some b
               \<or> own_posts l h = [] \<and> (closed (stream_of (sess w') (state_ix st))
                    \<or> remote (stream_of (sess w') (state_ix st)) = None))
        | Inl e \<Rightarrow> e = Disconnected \<and> own_posts l h = [] \<and> \<not> writer_alive (sess w')" by blast
  then show ?thesis unfolding follows_def by blast
qed

theorem recv_in_order_witness:
  "\<exists>w' h. stream_recv (script 0 1) sample_stream \<lparr>sess = sample_session, sched = [[], []]\<rparr> = Some (Inr (Some [3]), w')
     \<and> history (sess w') = history sample_session @ h \<and> taken 0 h = [[3]]"
proof -
  let ?w = "\<lparr>sess = sample_session, sched = [[], []]\<rparr>"
  have "\<exists>w'. stream_recv (script 0 1) sample_stream ?w = Some (Inr (Some [3]), w')"
    by (simp add: stream_recv_def sample_stream_def recv_data.simps [of _ 0] stream_eval)
  then obtain w' where ret: "stream_recv (script 0 1) sample_stream ?w = Some (Inr (Some [3]), w')" ..
  with recv_in_order [OF sample_alone _ _ ret] show ?thesis
    by (fastforce simp: sample_stream_def sample_session_val stream_of_def state_at_def)
qed

end
