(* ===== verification/Stream_Life.thy ===== *)
theory Stream_Life
  imports Stream_Flow
begin

section \<open>Opening and closing streams\<close>

text \<open>
  What \<open>open_stream\<close> has done when it returns, what closing leaves behind, and the case where
  \<open>open_stream\<close> never returns: after the reader task has stopped nothing answers an \<open>OPEN\<close> and
  nothing will ever wake the caller, as long as the writer still accepts messages.
\<close>

subsection \<open>Closed streams\<close>

lemma close_now_closed: "closed (stream_of (sess w) (state_ix st)) \<Longrightarrow> close_now E st w = Some (Inr (), w)"
  by (simp add: close_now_def look_def and_then_def Let_def)

lemma ids_closed: "closed (stream_of (sess w) i) \<Longrightarrow> ids E i w = Some (Inl StreamClosed, w)"
  by (simp add: ids_def look_def and_then_def)

lemma write_chunk_closed:
  "closed (stream_of (sess w) i) \<Longrightarrow> write_chunk E i c w = Some (Inl StreamClosed, w)"
  by (simp add: write_chunk_def and_then_err ids_closed)

lemma stream_send_closed:
  "closed (stream_of (sess w) (state_ix st)) \<Longrightarrow>
     stream_send E st data w = Some (if data = [] then Inr () else Inl StreamClosed, w)"
  by (simp add: stream_send_def send_rest.simps and_then_err write_chunk_closed)

lemma stream_recv_drained:
  "data_q (stream_of (sess w) (state_ix st)) = [] \<Longrightarrow> \<not> data_tx (stream_of (sess w) (state_ix st)) \<Longrightarrow>
     stream_recv E st w = Some (Inr None, w)"
  by (simp add: stream_recv_def recv_data.simps [of E _ w] take_chunk_def take_data_def and_then_ok Let_def)

lemma stream_recv_buffered:
  assumes "closed (stream_of (sess w) (state_ix st))" and "state_ix st < length (states (reg (sess w)))"
    and "data_q (stream_of (sess w) (state_ix st)) = c # cs"
    and "leaves_alone E (state_ix st) l" and "\<And>d s. E d s \<noteq> None"
  shows "\<exists>w'. stream_recv E st w = Some (Inr (Some c), w')
     \<and> closed (stream_of (sess w') (state_ix st)) \<and> state_ix st < length (states (reg (sess w')))
     \<and> (\<exists>ds. data_q (stream_of (sess w') (state_ix st)) = cs @ ds)
     \<and> (\<not> data_tx (stream_of (sess w) (state_ix st)) \<longrightarrow> data_q (stream_of (sess w') (state_ix st)) = cs
          \<and> \<not> data_tx (stream_of (sess w') (state_ix st)))"
proof -
  let ?i = "state_ix st"
  obtain s1 where tk: "take_chunk ?i (sess w) = (Ready (Some c), s1)"
    and s1: "closed (stream_of s1 ?i)" "data_q (stream_of s1 ?i) = cs" "?i < length (states (reg s1))"
      "data_tx (stream_of s1 ?i) = data_tx (stream_of (sess w) ?i)"
    using assms(1-3) by (auto simp: take_chunk_def take_data_def)
  obtain es d where E: "E (sched w) s1 = Some (es, d)" using assms(5) [of "sched w" s1] by auto
  obtain h where h: "progress ?i l s1 (happens es s1) h"
    using env_progress [OF assms(4) s1(3) E] by blast
  let ?w2 = "\<lparr>sess = happens es s1, sched = d\<rparr>"
  have closed2: "closed (stream_of (sess ?w2) ?i)" using h s1(1) by (simp add: progress_def)
  have "stream_recv E st w = Some (Inr (Some c), ?w2)"
    using tk E ids_closed [OF closed2, of E]
    by (simp add: stream_recv_def recv_data.simps [of E _ w] and_then_def pause_def handle_def Let_def)
  with closed2 h s1 show ?thesis by (auto simp: progress_def)
qed

text \<open>What closing does to an open stream, whatever happens meanwhile.\<close>

lemma pause_follows:
  assumes "leaves_alone E i l" and "i < length (states (reg (sess w)))" and "pause E w = Some (r, w')"
  shows "r = Inr () \<and> (\<exists>h. follows i (sess w) (sess w') h) \<and> i < length (states (reg (sess w')))"
  using pause_progress [OF assms] progress_len assms(2) progress_follows by blast

lemma closed_after:
  "closed (stream_of s i) \<Longrightarrow> follows i s s' h \<Longrightarrow> closed (stream_of s' i)"
  by (simp add: follows_def)

lemma close_now_result:
  assumes alone: "leaves_alone E (state_ix st) l" and len: "state_ix st < length (states (reg (sess w)))"
    and ret: "close_now E st w = Some (r, w')"
  shows "r = Inr () \<and> closed (stream_of (sess w') (state_ix st))"
proof (cases "closed (stream_of (sess w) (state_ix st))")
  case True
  with ret show ?thesis by (simp add: close_now_closed)
next
  case open1: False
  let ?i = "state_ix st"
  from ret obtain r1 w1 where p1: "pause E w = Some (r1, w1)"
    using open1 by (cases "pause E w") (auto simp: close_now_def and_then_def look_def Let_def)
  from pause_follows [OF alone len p1] have r1: "r1 = Inr ()" and len1: "?i < length (states (reg (sess w1)))" by auto
  from ret obtain r2 w2 where p2: "pause E w1 = Some (r2, w2)"
    using open1 p1 r1 by (cases "pause E w1") (auto simp: close_now_def and_then_def look_def Let_def)
  from pause_follows [OF alone len1 p2] have r2: "r2 = Inr ()" and len2: "?i < length (states (reg (sess w2)))" by auto
  let ?w3 = "w2\<lparr>sess := update_stream ?i mark_closed (sess w2)\<rparr>"
  have c3: "closed (stream_of (sess ?w3) ?i)" and len3: "?i < length (states (reg (sess ?w3)))"
    using len2 by (simp_all add: state_simps)
  from ret obtain r4 w4 where p4: "pause E ?w3 = Some (r4, w4)"
    using open1 p1 r1 p2 r2
    by (cases "pause E ?w3") (auto simp: close_now_def and_then_def look_def modify_def Let_def)
  from pause_follows [OF alone len3 p4] have r4: "r4 = Inr ()" and c4: "closed (stream_of (sess w4) ?i)"
    and len4: "?i < length (states (reg (sess w4)))" using closed_after [OF c3] by blast+
  define l0 where "l0 = local_id (stream_of (sess w1) ?i)"
  let ?w5 = "w4\<lparr>sess := remove_stream l0 (sess w4)\<rparr>"
  have c5: "closed (stream_of (sess ?w5) ?i)" and len5: "?i < length (states (reg (sess ?w5)))"
    using c4 len4 by (simp_all add: remove_stream_def remove_def stream_of_def state_at_def)
  from ret obtain r6 w6 where p6: "pause E ?w5 = Some (r6, w6)"
    using open1 p1 r1 p2 r2 p4 r4
    by (cases "pause E ?w5")
      (auto simp: close_now_def and_then_def look_def modify_def atomic_def l0_def Let_def)
  from pause_follows [OF alone len5 p6] c5 have r6: "r6 = Inr ()" and c6: "closed (stream_of (sess w6) ?i)"
    by (auto dest: closed_after)
  let ?m = "empty_message Close l0 (case remote (stream_of (sess w1) ?i) of None \<Rightarrow> 0 | Some r \<Rightarrow> r)"
  from ret have "r = Inr () \<and> sess w' = snd (post ?m (sess w6))"
    using open1 p1 r1 p2 r2 p4 r4 p6 r6
    by (auto simp: close_now_def and_then_def look_def modify_def atomic_def l0_def Let_def handle_def
        post_message_def split: prod.splits)
  with c6 show ?thesis by simp
qed

subsection \<open>An opened stream\<close>

lemma register_stream_sel:
  assumes "register_stream s = (i, s')"
  shows "i = length (states (reg s))" and "length (states (reg s')) = Suc i"
    and "stream_of s' i = new_state (fst (fresh_id (next_id (reg s))))"
    and "history s' = history s" and "writer_alive s' = writer_alive s"
    and "reader_alive s' = reader_alive s" and "agreed s' = agreed s"
    and "get (fst (fresh_id (next_id (reg s)))) (reg s') = Some i"
    and "j < i \<Longrightarrow> stream_of s' j = stream_of s j"
proof -
  obtain k r where reg: "register (reg s) = (k, r)" by fastforce
  from assms have "i = k" and s': "s' = s\<lparr>reg := r\<rparr>" by (simp_all add: register_stream_def reg)
  note sel = register_sel [OF reg]
  show i: "i = length (states (reg s))" using \<open>i = k\<close> sel(1) by simp
  show "length (states (reg s')) = Suc i" "history s' = history s" "writer_alive s' = writer_alive s"
    "reader_alive s' = reader_alive s" "agreed s' = agreed s"
    using i by (simp_all add: s' sel)
  show "stream_of s' i = new_state (fst (fresh_id (next_id (reg s))))"
    using i by (simp add: s' sel stream_of_def state_at_def)
  show "get (fst (fresh_id (next_id (reg s)))) (reg s') = Some i"
    using i sel(1) by (simp add: s' sel get_def update_conv)
  show "j < i \<Longrightarrow> stream_of s' j = stream_of s j"
    using i by (simp add: s' sel stream_of_def state_at_def nth_append)
qed

text \<open>The rest of \<open>open_stream\<close> after the registration.\<close>

definition await_open :: "'d env \<Rightarrow> str \<Rightarrow> nat \<Rightarrow> u32 \<Rightarrow> ('d world, stream) comp" where
  "await_open E service i l =
     and_then (pause E) (\<lambda>_.
     and_then (wait_ack E i 0) (\<lambda>ok.
     and_then (pause E) (\<lambda>_.
     and_then (look i remote) (\<lambda>r.
       if \<not> ok \<or> r = None then
         and_then (atomic (\<lambda>s. ((), remove_stream l s))) (\<lambda>_.
         and_then (modify i drop_rx) (\<lambda>_.
         throw (ServiceRefused service)))
       else
         atomic (\<lambda>s. (new_stream i s, s))))))"

definition open_request :: "u32 \<Rightarrow> str \<Rightarrow> message" where
  "open_request l service = new_message Open l 0 (as_bytes service @ [0])"

lemma open_stream_eq:
  "open_stream E service =
     (if CHR 0x00 \<in> set service then throw nul_in_service
      else
        and_then (atomic register_stream) (\<lambda>i.
        and_then (pause E) (\<lambda>_.
        and_then (look i local_id) (\<lambda>l.
        handle (post_message (open_request l service)) (\<lambda>sent.
          case sent of
            Inl e \<Rightarrow> and_then (modify i drop_rx) (\<lambda>_. throw e)
          | Inr _ \<Rightarrow> await_open E service i l)))))"
  unfolding open_stream_def await_open_def open_request_def by (rule refl)

lemma await_open_result:
  assumes alone: "leaves_alone E i l" and len: "i < length (states (reg (sess w)))"
    and ret: "await_open E service i l w = Some (r, w')"
  shows "\<exists>h s. progress i l (sess w) s h
     \<and> history (sess w') = history s \<and> (case r of
          Inr st \<Rightarrow> sess w' = s \<and> st = \<lparr>state_ix = i, max_chunk = unat (n_max_payload (agreed (sess w)))\<rparr>
            \<and> remote (stream_of s i) \<noteq> None \<and> (acks (stream_of (sess w) i) = 0 \<longrightarrow> 0 < acked i h)
        | Inl e \<Rightarrow> e = ServiceRefused service \<and> get l (reg (sess w')) = None
            \<and> (closed (stream_of s i) \<or> remote (stream_of s i) = None))"
proof -
  from ret obtain r1 w1 where p1: "pause E w = Some (r1, w1)"
    by (cases "pause E w") (auto simp: await_open_def and_then_def)
  from pause_progress [OF alone len p1] obtain h1 where
    r1: "r1 = Inr ()" and h1: "progress i l (sess w) (sess w1) h1" by blast
  note len1 = progress_len [OF h1 len]
  from ret obtain r2 w2 where wait: "wait_ack E i 0 w1 = Some (r2, w2)"
    using p1 r1 by (cases "wait_ack E i 0 w1") (auto simp: await_open_def and_then_def)
  from wait_ack_progress [OF wait alone len1] obtain ok h2 where
    r2: "r2 = Inr ok" and h2: "progress i l (sess w1) (sess w2) h2"
    and poll: "poll_ack 0 (stream_of (sess w2) i) = Some ok" by auto
  note len2 = progress_len [OF h2 len1]
  from ret obtain r3 w3 where p3: "pause E w2 = Some (r3, w3)"
    using p1 r1 wait r2 by (cases "pause E w2") (auto simp: await_open_def and_then_def)
  from pause_progress [OF alone len2 p3] obtain h3 where
    r3: "r3 = Inr ()" and h3: "progress i l (sess w2) (sess w3) h3" by blast
  note h12 = progress_trans [OF h1 h2]
  have h: "progress i l (sess w) (sess w3) ((h1 @ h2) @ h3)" by (rule progress_trans [OF h12 h3])
  have counted: "0 < acked i ((h1 @ h2) @ h3)" if ok "acks (stream_of (sess w) i) = 0"
  proof (rule ccontr)
    assume "\<not> 0 < acked i ((h1 @ h2) @ h3)"
    then have "acks (stream_of (sess w2) i) = 0" using h12 that(2) by (simp add: progress_def effect_simps)
    with poll that(1) show False by (simp add: poll_ack_def split: if_splits)
  qed
  have "agreed (sess w3) = agreed (sess w)" using h by (simp add: progress_def)
  moreover have "closed (stream_of (sess w3) i)" if "\<not> ok"
    using poll that h3 by (auto simp: poll_ack_def progress_def split: if_splits)
  ultimately show ?thesis
    using ret p1 r1 wait r2 p3 r3 h counted
    by (intro exI [of _ "(h1 @ h2) @ h3"] exI [of _ "sess w3"])
      (auto simp: await_open_def and_then_def look_def atomic_def modify_def remove_stream_def get_def
        remove_def delete_conv split: if_splits)
qed

text \<open>
  Every way \<open>open_stream\<close> ends: the writer is gone and nothing was posted, or exactly one \<open>OPEN\<close> was
  posted and the device acknowledged it or the request was refused and the entry removed.
\<close>

lemma open_stream_result:
  assumes ret: "open_stream E service w = Some (r, w')" and nul: "CHR 0x00 \<notin> set service"
    and i: "i = length (states (reg (sess w)))" and l: "l = fst (fresh_id (next_id (reg (sess w))))"
    and alone: "leaves_alone E i l"
  shows "(\<exists>h. r = Inl Disconnected \<and> history (sess w') = history (sess w) @ h \<and> own_posts l h = []
            \<and> \<not> writer_alive (sess w'))
     \<or> (\<exists>h h'. history (sess w') = history (sess w) @ h @ [Posted (open_request l service)] @ h'
         \<and> own_posts l h = [] \<and> own_posts l h' = []
         \<and> (case r of
              Inr st \<Rightarrow> st = \<lparr>state_ix = i, max_chunk = unat (n_max_payload (agreed (sess w)))\<rparr>
                \<and> remote (stream_of (sess w') i) \<noteq> None \<and> local_id (stream_of (sess w') i) = l \<and> 0 < acked i (h @ h')
            | Inl e \<Rightarrow> e = ServiceRefused service \<and> get l (reg (sess w')) = None))"
proof -
  obtain s1 where reg: "register_stream (sess w) = (i, s1)"
    using register_stream_sel(1) [of "sess w"] i by (cases "register_stream (sess w)") auto
  note sel = register_stream_sel [OF reg]
  let ?w1 = "w\<lparr>sess := s1\<rparr>"
  have len1: "i < length (states (reg (sess ?w1)))" using sel by simp
  have st1: "local_id (stream_of s1 i) = l" "acks (stream_of s1 i) = 0"
    using sel(3) l by (simp_all add: state_simps)
  from ret obtain r2 w2 where p: "pause E ?w1 = Some (r2, w2)"
    using nul reg by (cases "pause E ?w1") (auto simp: open_stream_eq and_then_def atomic_def)
  from pause_progress [OF alone len1 p] obtain h where
    r2: "r2 = Inr ()" and h: "progress i l s1 (sess w2) h" by auto
  note len2 = progress_len [OF h] len1
  have l2: "local_id (stream_of (sess w2) i) = l" using h st1 by (simp add: progress_def)
  obtain q s3 where post: "post (open_request l service) (sess w2) = (q, s3)" by fastforce
  then have q: "q = (if writer_alive (sess w2) then Inr () else Inl Disconnected)"
    and s3: "s3 = snd (post (open_request l service) (sess w2))" using post_sel(9) by (metis fst_conv, simp)
  have cont: "(case q of Inl e \<Rightarrow> and_then (modify i drop_rx) (\<lambda>_. throw e)
      | Inr _ \<Rightarrow> await_open E service i l) (w2\<lparr>sess := s3\<rparr>) = Some (r, w')"
    using ret nul reg p r2 l2 post
    by (auto simp: open_stream_eq and_then_def atomic_def look_def handle_def post_message_def)
  show ?thesis
  proof (cases "writer_alive (sess w2)")
    case False
    with cont q s3 have "r = Inl Disconnected" "sess w' = update_stream i drop_rx (sess w2)"
      by (auto simp: and_then_def modify_def post_def)
    with False h sel(4) show ?thesis
      by (intro disjI1 exI [of _ h]) (simp add: progress_def)
  next
    case True
    let ?w3 = "w2\<lparr>sess := s3\<rparr>"
    have aw: "await_open E service i l ?w3 = Some (r, w')" using True cont q by simp
    have len3: "i < length (states (reg (sess ?w3)))" using len2 s3 by simp
    from await_open_result [OF alone len3 aw] obtain h' s where
      h': "progress i l (sess ?w3) s h'"
      and same: "history (sess w') = history s"
      and out: "case r of
          Inr st \<Rightarrow> sess w' = s \<and> st = \<lparr>state_ix = i, max_chunk = unat (n_max_payload (agreed (sess ?w3)))\<rparr>
            \<and> remote (stream_of s i) \<noteq> None \<and> (acks (stream_of (sess ?w3) i) = 0 \<longrightarrow> 0 < acked i h')
        | Inl e \<Rightarrow> e = ServiceRefused service \<and> get l (reg (sess w')) = None
            \<and> (closed (stream_of s i) \<or> remote (stream_of s i) = None)" by blast
    have "acks (stream_of s3 i) = word_of_nat (acked i h)"
      using h s3 st1 by (simp add: progress_def)
    then have "acks (stream_of s3 i) = 0 \<or> 0 < acked i h" by (cases "acked i h") auto
    moreover have "history (sess w') = history (sess w) @ h @ [Posted (open_request l service)] @ h'"
      using same h h' s3 True sel(4) by (simp add: progress_def)
    moreover have "local_id (stream_of s i) = l" "agreed s3 = agreed (sess w)"
      using h' h s3 l2 sel(7) by (simp_all add: progress_def)
    ultimately show ?thesis
      using out progress_silent [OF h] progress_silent [OF h']
      by (intro disjI2 exI [of _ h] exI [of _ h']) (auto simp: effect_simps split: sum.splits)
  qed
qed

subsection \<open>Opening after the reader has stopped\<close>

text \<open>
  The reader stops at the first error or at a message it does not accept; \<open>close_all\<close> runs then, and
  a stream that is registered later is neither acknowledged nor closed by anyone.
\<close>

definition forsaken :: "nat \<Rightarrow> session \<Rightarrow> bool" where
  "forsaken i s \<longleftrightarrow> \<not> reader_alive s \<and> writer_alive s \<and> i < length (states (reg s))
     \<and> acks (stream_of s i) = 0 \<and> \<not> closed (stream_of s i)"

text \<open>Anything may happen but closing the session, a failure of the writer or a close of stream \<open>i\<close>.\<close>

fun idle :: "nat \<Rightarrow> event \<Rightarrow> bool" where
  "idle i Session_closed \<longleftrightarrow> False"
| "idle i (Written (Some e)) \<longleftrightarrow> False"
| "idle i (Marks j) \<longleftrightarrow> j \<noteq> i"
| "idle i _ \<longleftrightarrow> True"

definition idles :: "'d env \<Rightarrow> nat \<Rightarrow> bool" where
  "idles E i \<longleftrightarrow> (\<forall>d s es d'. E d s = Some (es, d') \<longrightarrow> list_all (idle i) es)"

lemma forsaken_happen:
  assumes f: "forsaken i s" and "idle i e" and "enabled e s"
  shows "forsaken i (happen e s)"
proof (cases e)
  case Registers
  obtain k s' where "register_stream s = (k, s')" by fastforce
  from register_stream_sel [OF this] f Registers \<open>register_stream s = (k, s')\<close> show ?thesis
    by (auto simp: forsaken_def)
next
  case (Written x)
  with assms show ?thesis
    by (cases x) (auto simp: forsaken_def write_step_def stream_of_def split: list.splits)
next
  case (Takes j)
  with f show ?thesis
    by (auto simp: forsaken_def take_chunk_def take_data_def split: list.splits)
next
  case (Removes k)
  with f show ?thesis
    by (simp add: forsaken_def remove_stream_def remove_def stream_of_def state_at_def)
qed (use assms in \<open>auto simp: forsaken_def state_simps\<close>)

lemma forsaken_happens:
  "forsaken i s \<Longrightarrow> list_all (idle i) es \<Longrightarrow> forsaken i (happens es s)"
  by (induction es arbitrary: s) (auto simp: forsaken_happen)

lemma pause_forsaken:
  assumes "idles E i" and "forsaken i (sess w)"
  shows "case pause E w of None \<Rightarrow> True | Some (r, w') \<Rightarrow> r = Inr () \<and> forsaken i (sess w')"
  using assms forsaken_happens by (auto simp: pause_def idles_def split: option.splits)

lemma notified_forsaken:
  assumes ret: "notified E i w = Some p" and "idles E i" and "forsaken i (sess w)"
  shows "forsaken i (sess (snd p))"
proof -
  let ?P = "\<lambda>E i w p. idles E i \<longrightarrow> forsaken i (sess w) \<longrightarrow> forsaken i (sess (snd p))"
  have "?P E i w p"
  proof (rule notified.raw_induct [where P = ?P, OF _ ret], intro impI)
    fix f and E :: "'a env" and i w p
    assume IH: "\<And>E i w p. f E i w = Some p \<Longrightarrow> ?P E i w p"
      and eq: "(if wake (stream_of (sess w) i)
        then Some (Inr (), w\<lparr>sess := update_stream i (\<lambda>st. snd (take_permit st)) (sess w)\<rparr>)
        else case E (sched w) (sess w) of None \<Rightarrow> None
          | Some (es, d) \<Rightarrow> f E i \<lparr>sess = happens es (sess w), sched = d\<rparr>) = Some p"
      and E: "idles E i" and f: "forsaken i (sess w)"
    show "forsaken i (sess (snd p))"
    proof (cases "wake (stream_of (sess w) i)")
      case True
      with eq f show ?thesis by (auto simp: forsaken_def state_simps)
    next
      case False
      with eq obtain es d where es: "E (sched w) (sess w) = Some (es, d)"
        and p: "f E i \<lparr>sess = happens es (sess w), sched = d\<rparr> = Some p" by (auto split: option.splits)
      have "forsaken i (happens es (sess w))"
        using E es forsaken_happens [OF f] unfolding idles_def by blast
      with IH [OF p] E show ?thesis by simp
    qed
  qed
  with assms(2,3) show ?thesis by blast
qed

lemma wait_ack_forsaken:
  assumes "idles E i" and "forsaken i (sess w)"
  shows "wait_ack E i 0 w = None"
proof (rule ccontr)
  assume "wait_ack E i 0 w \<noteq> None"
  then obtain p where ret: "wait_ack E i 0 w = Some p" by blast
  let ?P = "\<lambda>E i seen w p. idles E i \<longrightarrow> forsaken i (sess w) \<longrightarrow> seen = (0 :: u64) \<longrightarrow> False"
  have "?P E i 0 w p"
  proof (rule wait_ack.raw_induct [where P = ?P, OF _ ret], intro impI)
    fix f and E :: "'a env" and i seen w p
    assume IH: "\<And>E i seen w p. f E i seen w = Some p \<Longrightarrow> ?P E i seen w p"
      and eq: "(case poll_ack seen (stream_of (sess w) i) of Some b \<Rightarrow> Some (Inr b, w)
        | None \<Rightarrow> (case notified E i w of None \<Rightarrow> None | Some (_, w') \<Rightarrow> f E i seen w')) = Some p"
      and E: "idles E i" and f: "forsaken i (sess w)" and seen: "seen = 0"
    from f seen have "poll_ack seen (stream_of (sess w) i) = None" by (simp add: poll_ack_def forsaken_def)
    with eq obtain r w' where n: "notified E i w = Some (r, w')" and p: "f E i seen w' = Some p"
      by (auto split: option.splits)
    from notified_forsaken [OF n E f] IH [OF p] E seen show False by simp
  qed
  with assms show False by blast
qed

lemma open_forsaken:
  assumes "\<not> reader_alive (sess w)" and "writer_alive (sess w)" and "CHR 0x00 \<notin> set service"
    and E: "idles E (length (states (reg (sess w))))"
  shows "open_stream E service w = None"
proof -
  let ?i = "length (states (reg (sess w)))"
  obtain s1 where reg: "register_stream (sess w) = (?i, s1)"
    using register_stream_sel(1) [of "sess w"] by (cases "register_stream (sess w)") auto
  note sel = register_stream_sel [OF reg]
  have f1: "forsaken ?i (sess (w\<lparr>sess := s1\<rparr>))" using sel assms(1,2) by (simp add: forsaken_def state_simps)
  show ?thesis
  proof (cases "pause E (w\<lparr>sess := s1\<rparr>)")
    case None
    with assms(3) reg show ?thesis by (simp add: open_stream_eq and_then_def atomic_def)
  next
    case (Some p)
    then obtain w2 where p2: "pause E (w\<lparr>sess := s1\<rparr>) = Some (Inr (), w2)" and f2: "forsaken ?i (sess w2)"
      using pause_forsaken [OF E f1] by (cases p) auto
    obtain l where l: "local_id (stream_of (sess w2) ?i) = l" by simp
    let ?w3 = "w2\<lparr>sess := snd (post (open_request l service) (sess w2))\<rparr>"
    have f3: "forsaken ?i (sess ?w3)" using f2 by (simp add: forsaken_def)
    have alive: "writer_alive (sess w2)" using f2 by (simp add: forsaken_def)
    have "await_open E service ?i l ?w3 = None"
    proof (cases "pause E ?w3")
      case None
      then show ?thesis by (simp add: await_open_def and_then_def)
    next
      case (Some p)
      then obtain w4 where "pause E ?w3 = Some (Inr (), w4)" and "forsaken ?i (sess w4)"
        using pause_forsaken [OF E f3] by (cases p) auto
      with wait_ack_forsaken [OF E] show ?thesis by (simp add: await_open_def and_then_def)
    qed
    with assms(3) reg p2 l alive show ?thesis
      by (simp add: open_stream_eq and_then_def atomic_def look_def handle_def post_message_def post_def)
  qed
qed

subsection \<open>Properties\<close>

text \<open>
  C4: \<open>open_stream\<close> refuses a service name with a NUL without touching the session. Otherwise, when
  it returns, it has posted exactly one \<open>OPEN\<close> with a fresh id and the NUL-terminated name, whether
  it succeeds or is refused, or nothing because the writer was gone; it gives a stream only after an \<open>OKAY\<close> that brought the
  device's id, and a refusal leaves no entry under the stream's id in the registry.
\<close>

theorem open_stream_outcome:
  assumes "i = length (states (reg (sess w)))" and "l = fst (fresh_id (next_id (reg (sess w))))"
    and "leaves_alone E i l" and "open_stream E service w = Some (r, w')"
  shows "if CHR 0x00 \<in> set service then r = Inl nul_in_service \<and> w' = w
     else (\<exists>h. r = Inl Disconnected \<and> history (sess w') = history (sess w) @ h \<and> own_posts l h = []
            \<and> \<not> writer_alive (sess w'))
        \<or> (\<exists>h h'. history (sess w') = history (sess w) @ h @ [Posted (open_request l service)] @ h'
            \<and> own_posts l h = [] \<and> own_posts l h' = []
            \<and> (case r of
                 Inr st \<Rightarrow> st = \<lparr>state_ix = i, max_chunk = unat (n_max_payload (agreed (sess w)))\<rparr>
                   \<and> remote (stream_of (sess w') i) \<noteq> None \<and> local_id (stream_of (sess w') i) = l \<and> 0 < acked i (h @ h')
               | Inl e \<Rightarrow> e = ServiceRefused service \<and> get l (reg (sess w')) = None))"
proof (cases "CHR 0x00 \<in> set service")
  case True
  with assms(4) show ?thesis by (simp add: open_stream_eq)
next
  case False
  from open_stream_result [OF assms(4) False assms(1-3)] False show ?thesis by simp
qed

theorem open_stream_outcome_witness:
  "\<exists>w' h h'. open_stream (script 1 2) ''id'' \<lparr>sess = sample_session, sched = [[], [Received (Inr (empty_message Okay 9 2))], []]\<rparr>
       = Some (Inr \<lparr>state_ix = 1, max_chunk = 4096\<rparr>, w')
     \<and> history (sess w') = history sample_session @ h @ [Posted (open_request 2 ''id'')] @ h'
     \<and> own_posts 2 h = [] \<and> own_posts 2 h' = []"
proof -
  let ?w = "\<lparr>sess = sample_session, sched = [[], [Received (Inr (empty_message Okay 9 2))], []]\<rparr>"
  have "\<exists>w'. open_stream (script 1 2) ''id'' ?w = Some (Inr \<lparr>state_ix = 1, max_chunk = 4096\<rparr>, w')"
    by (simp add: open_stream_def wait_ack_ready atomic_def stream_eval sample_agreed_def)
  then obtain w' where ret: "open_stream (script 1 2) ''id'' ?w = Some (Inr \<lparr>state_ix = 1, max_chunk = 4096\<rparr>, w')" ..
  have "1 = length (states (reg (sess ?w)))" "2 = fst (fresh_id (next_id (reg (sess ?w))))"
    by (simp_all add: sample_session_val fresh_id_def)
  from open_stream_outcome [OF this script_alone ret] ret show ?thesis by auto
qed

text \<open>
  C24: once the reader task has stopped, \<open>open_stream\<close> never returns as long as the writer still
  takes messages and nobody closes the session: the \<open>OPEN\<close> goes out, and the stream is neither
  acknowledged nor closed, whatever else happens.
\<close>

theorem open_after_reader_stopped:
  assumes "\<not> reader_alive (sess w)" and "writer_alive (sess w)" and "CHR 0x00 \<notin> set service"
    and "idles E (length (states (reg (sess w))))"
  shows "open_stream E service w = None"
  by (rule open_forsaken [OF assms])

text \<open>The writer keeps sending for ever; nothing else happens.\<close>

definition writer_only :: "unit env" where
  "writer_only d s = Some ([Written None], ())"

theorem open_after_reader_stopped_witness:
  "open_stream writer_only ''shell:id''
     \<lparr>sess = read_step (Inr (empty_message Open 9 0)) sample_session, sched = ()\<rparr> = None"
  by (rule open_after_reader_stopped)
    (simp_all add: read_step_def dispatch_def reader_stop_def sample_session_val idles_def writer_only_def)

text \<open>
  C7: \<open>close\<close> closes the stream under every interleaving and is idempotent; on a closed stream
  \<open>send\<close> fails with \<open>StreamClosed\<close> without posting anything, and \<open>recv\<close> still returns a chunk that was
  buffered, and reports the end when there is none.
\<close>

theorem closed_stream:
  assumes "leaves_alone E (state_ix st) l" and "state_ix st < length (states (reg (sess w)))"
    and "registry_wf (reg (sess w'))" and "stream_close E st w = Some (r, w')" and "\<And>d s. E d s \<noteq> None"
  shows "r = Inr () \<and> closed (stream_of (sess w') (state_ix st))
     \<and> stream_close E st w' = Some (Inr (), w')
     \<and> stream_send E st data w' = Some (if data = [] then Inr () else Inl StreamClosed, w')
     \<and> (state_ix st < length (states (reg (sess w'))) \<longrightarrow>
         map_option fst (stream_recv E st w') = Some (Inr (case data_q (stream_of (sess w') (state_ix st)) of
            [] \<Rightarrow> None | c # cs \<Rightarrow> Some c)))"
proof -
  from close_now_result [OF assms(1,2)] assms(4) have r: "r = Inr ()"
    and c: "closed (stream_of (sess w') (state_ix st))" by (auto simp: stream_close_def)
  have "map_option fst (stream_recv E st w') = Some (Inr (case data_q (stream_of (sess w') (state_ix st)) of
            [] \<Rightarrow> None | c # cs \<Rightarrow> Some c))" if len: "state_ix st < length (states (reg (sess w')))"
  proof (cases "data_q (stream_of (sess w') (state_ix st))")
    case Nil
    have "\<not> data_tx (stream_of (sess w') (state_ix st))"
      using c state_at_wf [OF assms(3) len] by (simp add: state_wf_def stream_of_def)
    with stream_recv_drained [OF Nil, of E] Nil show ?thesis by simp
  next
    case (Cons d ds)
    with stream_recv_buffered [OF c len Cons assms(1,5)] show ?thesis by auto
  qed
  with r c show ?thesis
    by (simp add: stream_close_def close_now_closed stream_send_closed)
qed

text \<open>Nothing happens at any pause.\<close>

definition calm :: "unit env" where
  "calm d s = Some ([], ())"

theorem closed_stream_witness:
  "\<exists>w'. stream_close calm sample_stream \<lparr>sess = sample_session, sched = ()\<rparr> = Some (Inr (), w')
     \<and> stream_close calm sample_stream w' = Some (Inr (), w')
     \<and> map_option fst (stream_recv calm sample_stream w') = Some (Inr (Some [3]))"
proof -
  let ?w = "\<lparr>sess = sample_session, sched = ()\<rparr>"
  obtain w' where ret: "stream_close calm sample_stream ?w = Some (Inr (), w')"
    and wf: "registry_wf (reg (sess w'))" and val: "data_q (stream_of (sess w') 0) = [[3]]"
      "0 < length (states (reg (sess w')))"
    by (auto simp: stream_close_def close_now_def sample_stream_def calm_def modify_def atomic_def remove_stream_def
        registry_wf_def state_wf_def stream_eval)
  have "leaves_alone calm (state_ix sample_stream) 1" by (simp add: leaves_alone_def calm_def)
  from closed_stream [OF this _ wf ret, of "[]"] ret val show ?thesis
    by (auto simp: calm_def sample_stream_def sample_session_val)
qed

end
