(* ===== verification/Wakeup.thy ===== *)
theory Wakeup
  imports Stream_Life
begin

section \<open>No wake-up is lost\<close>

text \<open>
  \<open>StreamState::wait_ack\<close> against \<open>ack\<close> and \<open>mark_closed\<close> (\<open>src/session/registry.rs\<close>), one atomic access
  at a time: any number of threads acknowledge or close while one waiter checks the counter,
  checks the flag and waits for a permit. Here the counter does not wrap. A tokio \<open>Notify\<close> holds
  at most one permit; \<open>notify_one\<close> stores it and the waiter takes it.
\<close>

datatype micro = Add_ack | Set_closed | Drop_sender | Notify_one

datatype waiter = Check_acks | Check_closed | Await | Got bool

record race =
  ack_count :: nat
  closed_flag :: bool
  sender :: bool
  permit :: bool
  waiter :: waiter
  pending :: "nat \<Rightarrow> micro list"

text \<open>What is left to do for a thread that enters \<open>ack\<close> or \<open>mark_closed\<close>.\<close>

definition ack_steps :: "micro list" where
  "ack_steps = [Add_ack, Notify_one]"

definition close_steps :: "micro list" where
  "close_steps = [Set_closed, Drop_sender, Notify_one]"

fun run_micro :: "micro \<Rightarrow> race \<Rightarrow> race" where
  "run_micro Add_ack s = s\<lparr>ack_count := ack_count s + 1\<rparr>"
| "run_micro Set_closed s = s\<lparr>closed_flag := True\<rparr>"
| "run_micro Drop_sender s = s\<lparr>sender := False\<rparr>"
| "run_micro Notify_one s = s\<lparr>permit := True\<rparr>"

text \<open>One access of the waiter; a waiter without a permit stays where it is.\<close>

definition waiter_step :: "nat \<Rightarrow> race \<Rightarrow> race" where
  "waiter_step seen s =
     (case waiter s of
        Check_acks \<Rightarrow> s\<lparr>waiter := (if seen < ack_count s then Got True else Check_closed)\<rparr>
      | Check_closed \<Rightarrow> s\<lparr>waiter := (if closed_flag s then Got False else Await)\<rparr>
      | Await \<Rightarrow> (if permit s then s\<lparr>permit := False, waiter := Check_acks\<rparr> else s)
      | Got b \<Rightarrow> s)"

inductive race_step :: "nat \<Rightarrow> race \<Rightarrow> race \<Rightarrow> bool" for seen :: nat where
  enters: "pending s t = [] \<Longrightarrow> todo = ack_steps \<or> todo = close_steps \<Longrightarrow>
     race_step seen s (s\<lparr>pending := (pending s)(t := todo)\<rparr>)"
| runs: "pending s t = m # ms \<Longrightarrow>
     race_step seen s (run_micro m (s\<lparr>pending := (pending s)(t := ms)\<rparr>))"
| waits: "race_step seen s (waiter_step seen s)"

definition race_start :: "nat \<Rightarrow> bool \<Rightarrow> race" where
  "race_start n p = \<lparr>ack_count = n, closed_flag = False, sender = True, permit = p,
     waiter = Check_acks, pending = (\<lambda>_. [])\<rparr>"

inductive race_reachable :: "nat \<Rightarrow> race \<Rightarrow> bool" for seen :: nat where
  race_begun: "race_reachable seen (race_start n p)"
| race_moved: "race_reachable seen s \<Longrightarrow> race_step seen s s' \<Longrightarrow> race_reachable seen s'"

lemma race_runsI:
  "pending s t = m # ms \<Longrightarrow> s' = run_micro m (s\<lparr>pending := (pending s)(t := ms)\<rparr>) \<Longrightarrow> race_step seen s s'"
  by (simp add: runs)

text \<open>
  A thread that has changed something still has its notification in front of it, and a waiter
  that has passed a check which would succeed now finds a permit or a notification to come.
\<close>

definition notified_soon :: "race \<Rightarrow> bool" where
  "notified_soon s \<longleftrightarrow> permit s \<or> (\<exists>t. Notify_one \<in> set (pending s t))"

definition race_inv :: "nat \<Rightarrow> race \<Rightarrow> bool" where
  "race_inv seen s \<longleftrightarrow>
     (\<forall>t. pending s t \<noteq> [] \<longrightarrow> last (pending s t) = Notify_one)
     \<and> (waiter s = Check_closed \<and> seen < ack_count s \<longrightarrow> notified_soon s)
     \<and> (waiter s = Await \<and> (seen < ack_count s \<or> closed_flag s) \<longrightarrow> notified_soon s)
     \<and> (\<forall>b. waiter s = Got b \<longrightarrow> (if b then seen < ack_count s else closed_flag s))"

lemma micro_notifies:
  assumes "pending s t = m # ms" and "race_inv seen s" and "m \<noteq> Notify_one"
  shows "notified_soon (run_micro m (s\<lparr>pending := (pending s)(t := ms)\<rparr>))"
proof -
  from assms(2) have "pending s t \<noteq> [] \<longrightarrow> last (pending s t) = Notify_one" by (simp add: race_inv_def)
  then have "last (m # ms) = Notify_one" by (simp add: assms(1))
  with assms(3) have "Notify_one \<in> set ms" by (metis last.simps last_in_set)
  then show ?thesis by (cases m) (auto simp: notified_soon_def intro: exI [of _ t])
qed

lemma race_inv_runs:
  assumes "race_inv seen s" and "pending s t = m # ms"
  shows "race_inv seen (run_micro m (s\<lparr>pending := (pending s)(t := ms)\<rparr>))" (is "race_inv seen ?s'")
proof -
  have last: "\<forall>u. pending ?s' u \<noteq> [] \<longrightarrow> last (pending ?s' u) = Notify_one"
    using assms unfolding race_inv_def by (cases m) (auto, (metis last_ConsR list.distinct(1))+)
  have "notified_soon ?s'"
    using micro_notifies [OF assms(2,1)] by (cases "m = Notify_one") (auto simp: notified_soon_def)
  with last assms(1) show ?thesis
    by (cases m) (auto simp: race_inv_def)
qed

lemma race_inv_step:
  assumes "race_inv seen s" and "race_step seen s s'"
  shows "race_inv seen s'"
  using assms(2)
proof (cases rule: race_step.cases)
  case (enters t todo)
  then have "last todo = Notify_one" "todo \<noteq> []" by (auto simp: ack_steps_def close_steps_def)
  with enters assms(1) show ?thesis
    by (auto simp: race_inv_def notified_soon_def) (metis empty_iff empty_set)+
next
  case (runs t m ms)
  with race_inv_runs [OF assms(1) runs(2)] show ?thesis by simp
next
  case waits
  with assms(1) show ?thesis
    by (auto simp: race_inv_def waiter_step_def notified_soon_def split: waiter.splits if_splits)
qed

lemma race_reachable_inv: "race_reachable seen s \<Longrightarrow> race_inv seen s"
proof (induction rule: race_reachable.induct)
  case race_begun
  then show ?case by (simp add: race_inv_def race_start_def)
next
  case (race_moved s s')
  then show ?case using race_inv_step by blast
qed

text \<open>Rounds of the waiter alone.\<close>

fun waiter_run :: "nat \<Rightarrow> nat \<Rightarrow> race \<Rightarrow> race" where
  "waiter_run seen 0 s = s"
| "waiter_run seen (Suc k) s = waiter_run seen k (waiter_step seen s)"

subsection \<open>Properties\<close>

text \<open>
  C6: however the accesses of \<open>wait_ack\<close>, \<open>ack\<close> and \<open>mark_closed\<close> interleave, no wake-up is lost: a
  waiter that sleeps without a permit while no notification is under way has nothing to wake up
  for, and an answer is right when it is given.
\<close>

theorem no_lost_wakeup:
  assumes "race_reachable seen s"
  shows "(if waiter s = Await \<and> \<not> permit s \<and> (\<forall>t. pending s t = [])
      then ack_count s \<le> seen \<and> \<not> closed_flag s else True)
     \<and> (case waiter s of Got True \<Rightarrow> seen < ack_count s | Got False \<Rightarrow> closed_flag s | _ \<Rightarrow> True)"
  using race_reachable_inv [OF assms]
  by (auto simp: race_inv_def notified_soon_def split: waiter.split bool.split)

definition sample_race :: race where
  "sample_race = waiter_step 0 (waiter_step 0 (race_start 0 False))"

lemma sample_race_reachable: "race_reachable 0 sample_race"
  unfolding sample_race_def
  by (rule race_moved [OF race_moved [OF race_begun waits] waits])

theorem no_lost_wakeup_witness: "waiter sample_race = Await \<and> ack_count sample_race \<le> 0"
  using no_lost_wakeup [OF sample_race_reachable]
  by (simp add: sample_race_def waiter_step_def race_start_def)

text \<open>
  Once an acknowledgement or a close is complete, so that no thread is inside \<open>ack\<close> or
  \<open>mark_closed\<close>, the waiter answers after at most four accesses of its own, with \<open>True\<close> when there
  was an acknowledgement.
\<close>

lemma waiter_answers:
  assumes "race_reachable seen s" and "\<forall>t. pending s t = []" and "seen < ack_count s \<or> closed_flag s"
    and "\<And>b. waiter s \<noteq> Got b"
  shows "waiter (waiter_run seen 4 s) = Got True \<and> seen < ack_count s
     \<or> waiter (waiter_run seen 4 s) = Got False \<and> closed_flag s"
proof -
  have perm: "permit s" if "waiter s = Await \<or> waiter s = Check_closed \<and> seen < ack_count s"
    using race_reachable_inv [OF assms(1)] assms(2,3) that by (auto simp: race_inv_def notified_soon_def)
  show ?thesis
    using assms(3,4) perm
    by (cases "waiter s"; cases "seen < ack_count s"; cases "closed_flag s")
      (simp_all add: eval_nat_numeral waiter_step_def)
qed

text \<open>The waiter sleeps; another thread acknowledges completely.\<close>

definition sample_woken :: race where
  "sample_woken = run_micro Notify_one (run_micro Add_ack sample_race)"

lemma sample_woken_reachable: "race_reachable 0 sample_woken"
proof -
  let ?p = "pending sample_race"
  have p: "?p = (\<lambda>_. [])" by (simp add: sample_race_def waiter_step_def race_start_def)
  have "race_reachable 0 (sample_race\<lparr>pending := ?p(0 := ack_steps)\<rparr>)"
    by (rule race_moved [OF sample_race_reachable enters]) (simp_all add: p)
  then have "race_reachable 0 (run_micro Add_ack (sample_race\<lparr>pending := ?p(0 := [Notify_one])\<rparr>))"
    by (rule race_moved) (rule race_runsI [of _ 0 Add_ack "[Notify_one]"], simp_all add: ack_steps_def)
  then have "race_reachable 0 (run_micro Notify_one (run_micro Add_ack (sample_race\<lparr>pending := ?p(0 := [])\<rparr>)))"
    by (rule race_moved) (rule race_runsI [of _ 0 Notify_one "[]"], simp_all)
  moreover have "sample_race\<lparr>pending := ?p(0 := [])\<rparr> = sample_race"
    by (simp add: sample_race_def waiter_step_def race_start_def fun_upd_idem)
  ultimately show ?thesis by (simp add: sample_woken_def)
qed

end
