(* ===== verification/Channel.thy ===== *)
theory Channel
  imports Wakeup
begin

section \<open>Channels and buffered reading\<close>

text \<open>
  \<open>src/channel.rs\<close> and \<open>src/host/channel.rs\<close>. A channel is a handle into a world and the record of
  the \<open>Channel\<close> trait's operations; a connection opens channels. \<open>ChannelReader\<close> is a buffer in
  front of a channel, so its operations run on the buffer and the world together.

  The locale \<open>channel\<close> is the contract the services rely on: a receive takes a piece of the bytes
  that are still to come or, if the device ends the stream, reports their end; a send succeeds while
  the device takes that much. \<open>HostChannel\<close> provides it over any byte stream, a session's \<open>Stream\<close>
  under the contract of the theory \<open>Direct\<close>. Inside the locale, reading exactly \<open>n\<close> bytes depends
  only on the bytes that remain, not on how they are cut into chunks.
\<close>

subsection \<open>The traits\<close>

record ('w, 'h) channel_ops =
  ch_recv :: "'h \<Rightarrow> ('w, bytes option) comp"
  ch_send :: "'h \<Rightarrow> bytes \<Rightarrow> ('w, unit) comp"
  ch_close :: "'h \<Rightarrow> ('w, unit) comp"

record ('w, 'h) connection =
  cn_channel :: "('w, 'h) channel_ops"
  cn_open :: "str \<Rightarrow> ('w, 'h) comp"
  cn_features :: "('w, str list) comp"

subsection \<open>The buffered reader\<close>

record 'w reading =
  buffer :: bytes
  world :: 'w

definition on_world :: "('w, 'a) comp \<Rightarrow> ('w reading, 'a) comp" where
  "on_world = on_part world (\<lambda>w s. s\<lparr>world := w\<rparr>)"

partial_function (option) read_exact ::
  "('w, 'h) channel_ops \<Rightarrow> 'h \<Rightarrow> nat \<Rightarrow> 'w reading \<Rightarrow> (bytes result \<times> 'w reading) option" where
  "read_exact C h len s =
     (if length (buffer s) < len then
        (case ch_recv C h (world s) of
           None \<Rightarrow> None
         | Some (Inl e, w) \<Rightarrow> Some (Inl e, s\<lparr>world := w\<rparr>)
         | Some (Inr None, w) \<Rightarrow> Some (Inl StreamClosed, s\<lparr>world := w\<rparr>)
         | Some (Inr (Some chunk), w) \<Rightarrow>
             read_exact C h len (s\<lparr>world := w, buffer := buffer s @ chunk\<rparr>))
      else Some (Inr (take len (buffer s)), s\<lparr>buffer := drop len (buffer s)\<rparr>))"

definition read_u32 :: "('w, 'h) channel_ops \<Rightarrow> 'h \<Rightarrow> ('w reading, u32) comp" where
  "read_u32 C h = and_then (read_exact C h 4) (\<lambda>b. ret (u32_from_le b))"

definition next_chunk :: "('w, 'h) channel_ops \<Rightarrow> 'h \<Rightarrow> ('w reading, bytes option) comp" where
  "next_chunk C h s =
     (if buffer s \<noteq> [] then Some (Inr (Some (buffer s)), s\<lparr>buffer := []\<rparr>)
      else on_world (ch_recv C h) s)"

partial_function (option) read_to_end ::
  "('w, 'h) channel_ops \<Rightarrow> 'h \<Rightarrow> 'w reading \<Rightarrow> (bytes result \<times> 'w reading) option" where
  "read_to_end C h s =
     (case ch_recv C h (world s) of
        None \<Rightarrow> None
      | Some (Inl e, w) \<Rightarrow> Some (Inl e, s\<lparr>world := w\<rparr>)
      | Some (Inr None, w) \<Rightarrow> Some (Inr (buffer s), s\<lparr>world := w, buffer := []\<rparr>)
      | Some (Inr (Some chunk), w) \<Rightarrow>
          read_to_end C h (s\<lparr>world := w, buffer := buffer s @ chunk\<rparr>))"

text \<open>\<open>ChannelReader::new\<close> and \<open>into_parts\<close>: run a computation on a fresh buffer, and what is left.\<close>

definition with_reader :: "('w reading, 'a) comp \<Rightarrow> ('w, 'a) comp" where
  "with_reader m w =
     (case m \<lparr>buffer = [], world = w\<rparr> of None \<Rightarrow> None | Some (r, s) \<Rightarrow> Some (r, world s))"

definition into_parts :: "'w reading \<Rightarrow> 'w \<times> bytes" where
  "into_parts s = (world s, buffer s)"

definition drain :: "('w, 'h) channel_ops \<Rightarrow> 'h \<Rightarrow> ('w, bytes) comp" where
  "drain C h =
     with_reader
       (and_then (read_to_end C h) (\<lambda>out.
        and_then (on_world (ch_close C h)) (\<lambda>_.
        ret out)))"

subsection \<open>The contract\<close>

locale channel =
  fixes C :: "('w, 'h) channel_ops" and h :: 'h
    and avail :: "'w \<Rightarrow> bytes"  \<comment> \<open>what the device still sends\<close>
    and pending :: "'w \<Rightarrow> nat"  \<comment> \<open>a bound on the chunks it comes in\<close>
    and ends :: bool  \<comment> \<open>the device ends the stream after that, rather than keep it open\<close>
    and sent :: "'w \<Rightarrow> bytes"
    and takes :: "'w \<Rightarrow> nat \<Rightarrow> bool"  \<comment> \<open>the device still takes so many bytes\<close>
    and invar :: "'w \<Rightarrow> bool"
  assumes recv: "invar w \<Longrightarrow> avail w \<noteq> [] \<or> ends \<Longrightarrow>
      \<exists>r w'. ch_recv C h w = Some (Inr r, w') \<and> invar w' \<and> sent w' = sent w
      \<and> (case r of None \<Rightarrow> avail w = [] \<and> avail w' = []
         | Some c \<Rightarrow> avail w = c @ avail w' \<and> pending w' < pending w \<and> takes w' = takes w)"
    and send: "invar w \<Longrightarrow> takes w (length bs + n) \<Longrightarrow> \<exists>w'. ch_send C h bs w = Some (Inr (), w') \<and> invar w'
      \<and> takes w' n \<and> sent w' = sent w @ bs \<and> avail w' = avail w"
    and close: "invar w \<Longrightarrow> \<exists>w'. ch_close C h w = Some (Inr (), w') \<and> sent w' = sent w"
    and takes_less: "takes w m \<Longrightarrow> n \<le> m \<Longrightarrow> takes w n"
begin

text \<open>The bytes a reader can still give.\<close>

definition ahead :: "'w reading \<Rightarrow> bytes" where
  "ahead s = buffer s @ avail (world s)"

lemma read_exact_enough:
  "invar (world s) \<Longrightarrow> len \<le> length (ahead s) \<Longrightarrow>
     \<exists>s'. read_exact C h len s = Some (Inr (take len (ahead s)), s') \<and> ahead s' = drop len (ahead s)
       \<and> invar (world s') \<and> sent (world s') = sent (world s) \<and> takes (world s') = takes (world s)"
proof (induction "pending (world s)" arbitrary: s rule: less_induct)
  case less
  show ?case
  proof (cases "length (buffer s) < len")
    case False
    then show ?thesis using less.prems by (simp add: read_exact.simps ahead_def)
  next
    case True
    with less.prems(2) have "avail (world s) \<noteq> [] \<or> ends" by (auto simp: ahead_def)
    from recv [OF less.prems(1) this] obtain r w' where
      r: "ch_recv C h (world s) = Some (Inr r, w')" "invar w'" "sent w' = sent (world s)"
        "case r of None \<Rightarrow> avail (world s) = [] \<and> avail w' = []
         | Some c \<Rightarrow> avail (world s) = c @ avail w' \<and> pending w' < pending (world s)
           \<and> takes w' = takes (world s)" by blast
    with True less.prems(2) obtain c where c: "r = Some c" by (cases r) (auto simp: ahead_def)
    let ?s = "s\<lparr>world := w', buffer := buffer s @ c\<rparr>"
    have "ahead ?s = ahead s" using r c by (simp add: ahead_def)
    with less.hyps [of ?s] r c less.prems(2) True show ?thesis
      by (auto simp: read_exact.simps [of C h len s])
  qed
qed

lemma read_exact_short:
  assumes ends
  shows "invar (world s) \<Longrightarrow> length (ahead s) < len \<Longrightarrow>
     \<exists>s'. read_exact C h len s = Some (Inl StreamClosed, s') \<and> ahead s' = ahead s
       \<and> invar (world s') \<and> sent (world s') = sent (world s)"
proof (induction "pending (world s)" arbitrary: s rule: less_induct)
  case less
  then have short: "length (buffer s) < len" by (simp add: ahead_def)
  from recv [OF less.prems(1) disjI2 [OF assms]] obtain r w' where
    r: "ch_recv C h (world s) = Some (Inr r, w')" "invar w'" "sent w' = sent (world s)"
      "case r of None \<Rightarrow> avail (world s) = [] \<and> avail w' = []
       | Some c \<Rightarrow> avail (world s) = c @ avail w' \<and> pending w' < pending (world s)
           \<and> takes w' = takes (world s)" by blast
  show ?case
  proof (cases r)
    case None
    with r short show ?thesis by (simp add: read_exact.simps ahead_def)
  next
    case (Some c)
    let ?s = "s\<lparr>world := w', buffer := buffer s @ c\<rparr>"
    have "ahead ?s = ahead s" using r Some by (simp add: ahead_def)
    with less.hyps [of ?s] r Some less.prems(2) short show ?thesis
      by (auto simp: read_exact.simps [of C h len s])
  qed
qed

lemma read_to_end_all:
  assumes ends
  shows "invar (world s) \<Longrightarrow>
     \<exists>s'. read_to_end C h s = Some (Inr (ahead s), s') \<and> ahead s' = [] \<and> invar (world s')
       \<and> sent (world s') = sent (world s)"
proof (induction "pending (world s)" arbitrary: s rule: less_induct)
  case less
  from recv [OF less.prems disjI2 [OF assms]] obtain r w' where
    r: "ch_recv C h (world s) = Some (Inr r, w')" "invar w'" "sent w' = sent (world s)"
      "case r of None \<Rightarrow> avail (world s) = [] \<and> avail w' = []
       | Some c \<Rightarrow> avail (world s) = c @ avail w' \<and> pending w' < pending (world s)
           \<and> takes w' = takes (world s)" by blast
  show ?case
  proof (cases r)
    case None
    with r show ?thesis by (simp add: read_to_end.simps ahead_def)
  next
    case (Some c)
    let ?s = "s\<lparr>world := w', buffer := buffer s @ c\<rparr>"
    have "ahead ?s = ahead s" using r Some by (simp add: ahead_def)
    with less.hyps [of ?s] r Some show ?thesis
      by (auto simp: read_to_end.simps [of C h s])
  qed
qed

lemma next_chunk_some:
  assumes "invar (world s)" and ends
  shows "\<exists>r s'. next_chunk C h s = Some (Inr r, s') \<and> invar (world s') \<and> sent (world s') = sent (world s)
     \<and> (case r of None \<Rightarrow> ahead s = [] \<and> ahead s' = []
        | Some c \<Rightarrow> ahead s = c @ ahead s' \<and> buffer s' = [] \<and>
            (buffer s = [] \<longrightarrow> pending (world s') < pending (world s)))"
proof (cases "buffer s = []")
  case False
  with assms show ?thesis by (simp add: next_chunk_def ahead_def)
next
  case True
  from recv [OF assms(1) disjI2 [OF assms(2)]] obtain r w' where
    "ch_recv C h (world s) = Some (Inr r, w')" "invar w'" "sent w' = sent (world s)"
      "case r of None \<Rightarrow> avail (world s) = [] \<and> avail w' = []
       | Some c \<Rightarrow> avail (world s) = c @ avail w' \<and> pending w' < pending (world s)
           \<and> takes w' = takes (world s)" by blast
  with True show ?thesis
    by (intro exI [of _ r] exI [of _ "s\<lparr>world := w'\<rparr>"])
      (auto simp: next_chunk_def on_world_def on_part_def ahead_def split: option.splits)
qed

text \<open>
  A computation that, with \<open>a\<close> ahead, ends in \<open>r\<close> with \<open>b\<close> ahead, having sent \<open>out\<close>: the triples
  the clients of a channel are verified with. What the device takes is what is sent and a rest.
\<close>

definition does :: "('w reading, 'a) comp \<Rightarrow> bytes \<Rightarrow> 'a result \<Rightarrow> bytes \<Rightarrow> bytes \<Rightarrow> bool" where
  "does m a r b out \<longleftrightarrow>
     (\<forall>s n. invar (world s) \<and> takes (world s) (length out + n) \<and> ahead s = a \<longrightarrow>
        (\<exists>s'. m s = Some (r, s') \<and> invar (world s') \<and> ahead s' = b \<and> sent (world s') = sent (world s) @ out
            \<and> (\<not> isl r \<longrightarrow> takes (world s') n)))"

lemma does_ret: "does (ret x) a (Inr x) a []"
  by (simp add: does_def)

lemma does_throw: "does (throw e) a (Inl e) a []"
  by (simp add: does_def)

lemma does_result: "does (of_result r) a r a []"
  by (simp add: does_def)

lemma does_then:
  assumes "does m a (Inr x) b out" and "does (k x) b r c out'"
  shows "does (and_then m k) a r c (out @ out')"
  unfolding does_def
proof (intro allI impI)
  fix s n
  assume s: "invar (world s) \<and> takes (world s) (length (out @ out') + n) \<and> ahead s = a"
  then have "takes (world s) (length out + (length out' + n))" by (simp add: add.assoc)
  with s assms(1) obtain s1 where s1: "m s = Some (Inr x, s1)" "invar (world s1)" "ahead s1 = b"
    "takes (world s1) (length out' + n)" "sent (world s1) = sent (world s) @ out"
    unfolding does_def by fastforce
  with assms(2) obtain s2 where "k x s1 = Some (r, s2)" "invar (world s2)" "ahead s2 = c"
    "sent (world s2) = sent (world s1) @ out'" "\<not> isl r \<longrightarrow> takes (world s2) n"
    unfolding does_def by blast
  with s1 show "\<exists>s'. and_then m k s = Some (r, s') \<and> invar (world s') \<and> ahead s' = c
      \<and> sent (world s') = sent (world s) @ out @ out' \<and> (\<not> isl r \<longrightarrow> takes (world s') n)"
    by (simp add: and_then_ok)
qed

lemma does_then_quiet: "does m a (Inr x) b [] \<Longrightarrow> does (k x) b r c out \<Longrightarrow> does (and_then m k) a r c out"
  using does_then [of m a x b "[]"] by simp

lemma does_then_err: "does m a (Inl e) b out \<Longrightarrow> does (and_then m k) a (Inl e) b out"
  unfolding does_def by (metis and_then_err isl_def)

lemma does_read: "length bs = n \<Longrightarrow> does (read_exact C h n) (bs @ rest) (Inr bs) rest []"
  unfolding does_def
  by (intro allI impI) (use read_exact_enough [where len = n] in fastforce)

lemma does_read_short: "ends \<Longrightarrow> length a < n \<Longrightarrow> does (read_exact C h n) a (Inl StreamClosed) a []"
  unfolding does_def
  by (intro allI impI) (use read_exact_short [where len = n] in fastforce)

lemma does_u32: "does (read_u32 C h) (u32_to_le w @ rest) (Inr w) rest []"
proof -
  have "does (read_exact C h 4) (u32_to_le w @ rest) (Inr (u32_to_le w)) rest []"
    by (rule does_read) simp
  then show ?thesis unfolding read_u32_def
    by (rule does_then_quiet) (use does_ret [of "u32_from_le (u32_to_le w)" rest] in simp)
qed

lemma does_u32_short: "ends \<Longrightarrow> length a < 4 \<Longrightarrow> does (read_u32 C h) a (Inl StreamClosed) a []"
  unfolding read_u32_def by (rule does_then_err [OF does_read_short])

lemma does_send: "does (on_world (ch_send C h bs)) a (Inr ()) a bs"
  unfolding does_def
proof (intro allI impI)
  fix s n
  assume s: "invar (world s) \<and> takes (world s) (length bs + n) \<and> ahead s = a"
  then obtain w' where "ch_send C h bs (world s) = Some (Inr (), w')" "invar w'" "takes w' n"
    "sent w' = sent (world s) @ bs" "avail w' = avail (world s)"
    using send by blast
  with s show "\<exists>s'. on_world (ch_send C h bs) s = Some (Inr (), s') \<and> invar (world s') \<and> ahead s' = a
      \<and> sent (world s') = sent (world s) @ bs \<and> (\<not> isl (Inr () :: unit result) \<longrightarrow> takes (world s') n)"
    by (simp add: on_world_def on_part_def ahead_def)
qed

lemma read_u32_enough:
  assumes "invar (world s)" and "4 \<le> length (ahead s)"
  shows "\<exists>s'. read_u32 C h s = Some (Inr (u32_from_le (take 4 (ahead s))), s') \<and> ahead s' = drop 4 (ahead s)
       \<and> invar (world s') \<and> sent (world s') = sent (world s) \<and> takes (world s') = takes (world s)"
  using read_exact_enough [OF assms] by (auto simp: read_u32_def and_then_ok)

lemma read_u32_short:
  assumes ends and "invar (world s)" and "length (ahead s) < 4"
  shows "\<exists>s'. read_u32 C h s = Some (Inl StreamClosed, s') \<and> ahead s' = ahead s
       \<and> invar (world s') \<and> sent (world s') = sent (world s)"
  using read_exact_short [OF assms] by (auto simp: read_u32_def and_then_err)

lemma drain_all:
  assumes ends and "invar w"
  shows "\<exists>w'. drain C h w = Some (Inr (avail w), w') \<and> sent w' = sent w"
proof -
  let ?s = "\<lparr>buffer = [], world = w\<rparr>"
  obtain s1 where s1: "read_to_end C h ?s = Some (Inr (avail w), s1)" "invar (world s1)" "sent (world s1) = sent w"
    using read_to_end_all [OF assms(1), of ?s] assms(2) by (auto simp: ahead_def)
  obtain w2 where "ch_close C h (world s1) = Some (Inr (), w2)" "sent w2 = sent (world s1)"
    using close [OF s1(2)] by blast
  with s1 show ?thesis
    by (simp add: drain_def with_reader_def and_then_ok on_world_def on_part_def)
qed

end

subsection \<open>\<open>HostChannel\<close>\<close>

text \<open>
  One TCP connection to the adb server. \<open>read_buf\<close> on an empty buffer of capacity \<open>CHUNK\<close> is a read
  of at most that many bytes; a reset by the peer is the end of the stream. The socket's
  \<open>shutdown\<close> is a parameter, and its result is ignored by the code.
\<close>

definition CHUNK :: nat where "CHUNK = 64 * 1024"

record ('r, 'w) host_channel =
  hc_in :: 'r
  hc_out :: 'w
  hc_closed :: bool

definition new_host_channel :: "'r \<Rightarrow> 'w \<Rightarrow> ('r, 'w) host_channel" where
  "new_host_channel r w = \<lparr>hc_in = r, hc_out = w, hc_closed = False\<rparr>"

definition host_recv :: "'r async_read \<Rightarrow> (('r, 'w) host_channel, bytes option) comp" where
  "host_recv R s =
     (case ar_read R CHUNK (hc_in s) of
        None \<Rightarrow> None
      | Some (Inr bs, r) \<Rightarrow> Some (Inr (if bs = [] then None else Some bs), s\<lparr>hc_in := r\<rparr>)
      | Some (Inl e, r) \<Rightarrow>
          (case e of Io_error k m \<Rightarrow>
             if k = ConnectionReset then Some (Inr None, s\<lparr>hc_in := r\<rparr>)
             else Some (Inl (Io e), s\<lparr>hc_in := r\<rparr>)))"

definition host_send :: "'w async_write \<Rightarrow> bytes \<Rightarrow> (('r, 'w) host_channel, unit) comp" where
  "host_send W data =
     and_then (on_part hc_out (\<lambda>i s. s\<lparr>hc_out := i\<rparr>) (io_err Io (aw_write_all W data))) (\<lambda>_.
     on_part hc_out (\<lambda>i s. s\<lparr>hc_out := i\<rparr>) (io_err Io (aw_flush W)))"

definition host_close :: "('w, unit) io \<Rightarrow> (('r, 'w) host_channel, unit) comp" where
  "host_close shutdown s =
     (if hc_closed s then ret () s
      else case shutdown (hc_out s) of
             None \<Rightarrow> None
           | Some (_, w) \<Rightarrow> Some (Inr (), s\<lparr>hc_closed := True, hc_out := w\<rparr>))"

definition host_channel_ops ::
  "'r async_read \<Rightarrow> 'w async_write \<Rightarrow> ('w, unit) io \<Rightarrow> (('r, 'w) host_channel, unit) channel_ops" where
  "host_channel_ops R W shutdown =
     \<lparr>ch_recv = (\<lambda>_. host_recv R), ch_send = (\<lambda>_. host_send W), ch_close = (\<lambda>_. host_close shutdown)\<rparr>"

text \<open>A shutdown returns and writes nothing.\<close>

definition shuts_down :: "('w, unit) io \<Rightarrow> ('w \<Rightarrow> bytes) \<Rightarrow> bool" where
  "shuts_down shutdown out \<longleftrightarrow> (\<forall>w. \<exists>r w'. shutdown w = Some (r, w') \<and> out w' = out w)"

lemma host_channel_contract:
  assumes R: "reads_bytes R avail" and W: "writes_bytes W out" and S: "shuts_down shutdown out"
  shows "channel (host_channel_ops R W shutdown) () (\<lambda>s. avail (hc_in s)) (\<lambda>s. length (avail (hc_in s)))
     True (\<lambda>s. out (hc_out s)) (\<lambda>_ _. True) (\<lambda>_. True)"
proof
  fix s :: "('a, 'b) host_channel"
  obtain k r' where k: "ar_read R CHUNK (hc_in s) = Some (Inr (take k (avail (hc_in s))), r')"
    "avail r' = drop k (avail (hc_in s))" "0 < k \<longleftrightarrow> avail (hc_in s) \<noteq> []"
    using reads_bytesD(1) [OF R, of CHUNK "hc_in s"] by (auto simp: CHUNK_def)
  then show "\<exists>r w'. ch_recv (host_channel_ops R W shutdown) () s = Some (Inr r, w') \<and> True
      \<and> out (hc_out w') = out (hc_out s)
      \<and> (case r of None \<Rightarrow> avail (hc_in s) = [] \<and> avail (hc_in w') = []
         | Some c \<Rightarrow> avail (hc_in s) = c @ avail (hc_in w')
             \<and> length (avail (hc_in w')) < length (avail (hc_in s)) \<and> (\<lambda>_. True) = (\<lambda>_. True))"
    by (auto simp: host_channel_ops_def host_recv_def)
next
  fix s :: "('a, 'b) host_channel" and bs
  obtain w1 where w1: "aw_write_all W bs (hc_out s) = Some (Inr (), w1)" "out w1 = out (hc_out s) @ bs"
    using writes_bytesD(1) [OF W] by blast
  obtain w2 where "aw_flush W w1 = Some (Inr (), w2)" "out w2 = out w1"
    using writes_bytesD(2) [OF W] by blast
  with w1 show "\<exists>w'. ch_send (host_channel_ops R W shutdown) () bs s = Some (Inr (), w') \<and> True
      \<and> True \<and> out (hc_out w') = out (hc_out s) @ bs \<and> avail (hc_in w') = avail (hc_in s)"
    by (simp add: host_channel_ops_def host_send_def and_then_ok on_part_def io_err_def)
next
  fix s :: "('a, 'b) host_channel"
  obtain r w' where "shutdown (hc_out s) = Some (r, w')" "out w' = out (hc_out s)"
    using S unfolding shuts_down_def by blast
  then show "\<exists>w'. ch_close (host_channel_ops R W shutdown) () s = Some (Inr (), w')
      \<and> out (hc_out w') = out (hc_out s)"
    by (simp add: host_channel_ops_def host_close_def)
qed

definition no_shutdown :: "(bytes, unit) io" where
  "no_shutdown w = Some (Inr (), w)"

lemma no_shutdown_ok: "shuts_down no_shutdown id"
  by (simp add: shuts_down_def no_shutdown_def)

interpretation tcp: channel "host_channel_ops chunk_reader byte_sink no_shutdown" "()"
  "\<lambda>s. concat (hc_in s)" "\<lambda>s. length (concat (hc_in s))" True "\<lambda>s. id (hc_out s)" "\<lambda>_ _. True" "\<lambda>_. True"
  by (rule host_channel_contract [where avail = concat and out = id]) (simp_all add: no_shutdown_ok)

end
