(* ===== verification/Shell_V2.thy ===== *)
theory Shell_V2
  imports Channel
begin

section \<open>The \<open>shell,v2:\<close> framing\<close>

text \<open>
  \<open>src/services/shell_v2.rs\<close>: frames of one id byte, a 32-bit length and the data, the incremental
  parser, and the output collected from frames. The lemmas show that parsing does not depend on
  how the bytes are cut, and that it inverts the encoding.
\<close>

subsection \<open>Frames\<close>

datatype frame_id = Stdin | Stdout | Stderr | Exit | CloseStdin | WindowSize

fun frame_byte :: "frame_id \<Rightarrow> u8" where
  "frame_byte Stdin = 0"
| "frame_byte Stdout = 1"
| "frame_byte Stderr = 2"
| "frame_byte Exit = 3"
| "frame_byte CloseStdin = 4"
| "frame_byte WindowSize = 5"

definition from_byte :: "u8 \<Rightarrow> frame_id option" where
  "from_byte b =
     (if b = 0 then Some Stdin
      else if b = 1 then Some Stdout
      else if b = 2 then Some Stderr
      else if b = 3 then Some Exit
      else if b = 4 then Some CloseStdin
      else if b = 5 then Some WindowSize
      else None)"

record sh_frame =
  fr_id :: frame_id
  fr_data :: bytes

definition frame_too_long :: error where
  "frame_too_long = InvalidArgument (Lit ''shell v2 frame longer than u32::MAX'')"

definition frame_encode :: "frame_id \<Rightarrow> bytes \<Rightarrow> bytes result" where
  "frame_encode i data =
     (if length data < 2 ^ 32
      then Inr (frame_byte i # u32_to_le (word_of_nat (length data)) @ data)
      else Inl frame_too_long)"

lemma from_byte_byte [simp]: "from_byte (frame_byte i) = Some i"
  by (cases i) (simp_all add: from_byte_def)

lemma from_byte_Some: "from_byte b = Some i \<longleftrightarrow> b = frame_byte i"
  by (cases i) (auto simp: from_byte_def)

subsection \<open>The parser\<close>

definition unknown_frame :: "u8 \<Rightarrow> error" where
  "unknown_frame b = Protocol (Fmt ''unknown shell v2 frame id {}'' [Num (uint b)])"

text \<open>
  The loop of \<open>push\<close>: complete frames are taken off the buffer until too few bytes are left; an
  unknown id ends it with an error, which drops the frames found so far and keeps the bytes from
  that id on.
\<close>

definition frame_len :: "bytes \<Rightarrow> nat" where
  "frame_len buf = unat (u32_from_le [buf ! 1, buf ! 2, buf ! 3, buf ! 4])"

function parse_frames :: "bytes \<Rightarrow> sh_frame list result \<times> bytes" where
  "parse_frames buf =
     (if length buf < 5 then (Inr [], buf)
      else case from_byte (buf ! 0) of
        None \<Rightarrow> (Inl (unknown_frame (buf ! 0)), buf)
      | Some i \<Rightarrow>
          let len = frame_len buf in
          if length buf < 5 + len then (Inr [], buf)
          else case parse_frames (drop (5 + len) buf) of
                 (Inl e, rest) \<Rightarrow> (Inl e, rest)
               | (Inr frames, rest) \<Rightarrow>
                   (Inr (\<lparr>fr_id = i, fr_data = take len (drop 5 buf)\<rparr> # frames), rest))"
  by pat_completeness auto
termination
  by (relation "measure length") auto

declare parse_frames.simps [simp del]

text \<open>\<open>Parser::push\<close> on the parser's buffer, and \<open>pending\<close>.\<close>

definition push :: "bytes \<Rightarrow> bytes \<Rightarrow> sh_frame list result \<times> bytes" where
  "push bs buf = parse_frames (buf @ bs)"

definition parser_pending :: "bytes \<Rightarrow> nat" where
  "parser_pending buf = length buf"

lemma parse_frames_short: "length buf < 5 \<Longrightarrow> parse_frames buf = (Inr [], buf)"
  by (simp add: parse_frames.simps)

lemma parse_frames_frame:
  assumes "length data < 2 ^ 32"
  shows "parse_frames (frame_byte i # u32_to_le (word_of_nat (length data)) @ data @ rest)
     = (case parse_frames rest of
          (Inl e, r) \<Rightarrow> (Inl e, r)
        | (Inr fs, r) \<Rightarrow> (Inr (\<lparr>fr_id = i, fr_data = data\<rparr> # fs), r))"
proof -
  obtain a b c d where w: "u32_to_le (word_of_nat (length data)) = [a, b, c, d]"
    by (simp add: u32_to_le_cells)
  have "u32_from_le [a, b, c, d] = word_of_nat (length data)" by (simp flip: w)
  then have len: "unat (u32_from_le [a, b, c, d]) = length data"
    using assms by (simp add: unat_u32_of_nat)
  let ?buf = "frame_byte i # a # b # c # d # data @ rest"
  have "frame_len ?buf = length data" by (simp add: frame_len_def len numeral_eq_Suc)
  moreover have "drop (5 + length data) ?buf = rest" "take (length data) (drop 5 ?buf) = data"
    by (simp_all add: numeral_eq_Suc)
  ultimately have "parse_frames ?buf
     = (case parse_frames rest of
          (Inl e, r) \<Rightarrow> (Inl e, r)
        | (Inr fs, r) \<Rightarrow> (Inr (\<lparr>fr_id = i, fr_data = data\<rparr> # fs), r))"
    by (subst parse_frames.simps) (simp add: Let_def cong: sum.case_cong prod.case_cong)
  then show ?thesis by (simp add: w)
qed

text \<open>What one push leaves is put in front of the next: the result is that of the whole.\<close>

lemma parse_frames_more:
  "parse_frames (buf @ later) =
     (case parse_frames buf of
        (Inl e, rest) \<Rightarrow> (Inl e, rest @ later)
      | (Inr fs, rest) \<Rightarrow>
          (case parse_frames (rest @ later) of
             (Inl e, r) \<Rightarrow> (Inl e, r)
           | (Inr gs, r) \<Rightarrow> (Inr (fs @ gs), r)))"
proof (induction buf rule: parse_frames.induct)
  case (1 buf)
  define len where "len = frame_len buf"
  have stop: "?case" if "parse_frames buf = (Inr [], buf)"
    using that by (cases "parse_frames (buf @ later)") (auto split: sum.splits)
  consider (short) "length buf < 5" | (bad) "5 \<le> length buf" "from_byte (buf ! 0) = None"
    | (part) i where "5 \<le> length buf" "from_byte (buf ! 0) = Some i" "length buf < 5 + len"
    | (whole) i where "5 \<le> length buf" "from_byte (buf ! 0) = Some i" "5 + len \<le> length buf"
    by (metis not_less option.exhaust)
  then show ?case
  proof cases
    case short
    then show ?thesis by (intro stop) (simp add: parse_frames_short)
  next
    case bad
    then have "parse_frames buf = (Inl (unknown_frame (buf ! 0)), buf)"
      by (simp add: parse_frames.simps [of buf])
    moreover have "(buf @ later) ! 0 = buf ! 0" using bad(1) by (cases buf) simp_all
    then have "parse_frames (buf @ later) = (Inl (unknown_frame (buf ! 0)), buf @ later)"
      using bad by (simp add: parse_frames.simps [of "buf @ later"])
    ultimately show ?thesis by simp
  next
    case part
    then show ?thesis by (intro stop) (simp add: parse_frames.simps [of buf] len_def Let_def)
  next
    case whole
    let ?rest = "drop (5 + len) buf" and ?f = "\<lparr>fr_id = i, fr_data = take len (drop 5 buf)\<rparr>"
    have head: "(buf @ later) ! 0 = buf ! 0" using whole(1) by (cases buf) simp_all
    have same: "frame_len buf = frame_len (buf @ later)"
      using whole(1) by (simp add: frame_len_def nth_append)
    have IH: "parse_frames (?rest @ later) =
       (case parse_frames ?rest of (Inl e, rest) \<Rightarrow> (Inl e, rest @ later)
        | (Inr fs, rest) \<Rightarrow> (case parse_frames (rest @ later) of (Inl e, r) \<Rightarrow> (Inl e, r)
            | (Inr gs, r) \<Rightarrow> (Inr (fs @ gs), r)))"
      using 1 [OF _ whole(2) len_def] whole by simp
    have one: "parse_frames buf = (case parse_frames ?rest of (Inl e, r) \<Rightarrow> (Inl e, r)
        | (Inr fs, r) \<Rightarrow> (Inr (?f # fs), r))"
      using whole unfolding len_def by (subst parse_frames.simps) (simp add: Let_def)
    have "parse_frames (buf @ later) = (case parse_frames (?rest @ later) of (Inl e, r) \<Rightarrow> (Inl e, r)
        | (Inr fs, r) \<Rightarrow> (Inr (?f # fs), r))"
      using whole head unfolding len_def
      by (subst parse_frames.simps)
        (simp add: same [symmetric] Let_def cong: sum.case_cong prod.case_cong)
    with one IH show ?thesis
      by (auto split: prod.splits sum.splits)
  qed
qed

text \<open>Pushing pieces one after the other, as a reader does.\<close>

fun push_all :: "bytes list \<Rightarrow> bytes \<Rightarrow> sh_frame list result \<times> bytes" where
  "push_all [] buf = (Inr [], buf)"
| "push_all (p # ps) buf =
     (case push p buf of
        (Inl e, rest) \<Rightarrow> (Inl e, rest)
      | (Inr fs, rest) \<Rightarrow>
          (case push_all ps rest of
             (Inl e, r) \<Rightarrow> (Inl e, r)
           | (Inr gs, r) \<Rightarrow> (Inr (fs @ gs), r)))"

lemma parse_frames_rest: "parse_frames buf = (Inr fs, rest) \<Longrightarrow> parse_frames rest = (Inr [], rest)"
proof (induction buf arbitrary: fs rule: parse_frames.induct)
  case (1 buf)
  show ?case
  proof (cases "parse_frames buf = (Inr [], buf)")
    case True
    with 1(2) show ?thesis by simp
  next
    case False
    then have len: "5 \<le> length buf" by (metis not_less parse_frames_short)
    with 1(2) obtain i where i: "from_byte (buf ! 0) = Some i"
      by (cases "from_byte (buf ! 0)") (auto simp: parse_frames.simps [of buf])
    define n where "n = frame_len buf"
    have n: "5 + n \<le> length buf"
      using False len i by (auto simp: parse_frames.simps [of buf] Let_def n_def split: if_splits)
    with 1(2) len i obtain gs where "parse_frames (drop (5 + n) buf) = (Inr gs, rest)"
      by (auto simp: parse_frames.simps [of buf] Let_def n_def split: prod.splits sum.splits)
    with 1(1) [OF _ i n_def] len n show ?thesis by simp
  qed
qed

lemma push_all_parse:
  assumes "parse_frames buf = (Inr [], buf)"
  shows "fst (push_all ps buf) = fst (parse_frames (buf @ concat ps))
     \<and> (\<not> isl (fst (push_all ps buf)) \<longrightarrow> snd (push_all ps buf) = snd (parse_frames (buf @ concat ps)))"
  using assms
proof (induction ps arbitrary: buf)
  case Nil
  then show ?case by simp
next
  case (Cons p ps)
  have later: "parse_frames (buf @ concat (p # ps)) =
     (case parse_frames (buf @ p) of (Inl e, rest) \<Rightarrow> (Inl e, rest @ concat ps)
      | (Inr fs, rest) \<Rightarrow> (case parse_frames (rest @ concat ps) of (Inl e, r) \<Rightarrow> (Inl e, r)
          | (Inr gs, r) \<Rightarrow> (Inr (fs @ gs), r)))"
    using parse_frames_more [of "buf @ p" "concat ps"] by simp
  obtain r rest where p: "parse_frames (buf @ p) = (r, rest)" by fastforce
  show ?case
  proof (cases r)
    case (Inl e)
    with p later show ?thesis by (simp add: push_def)
  next
    case (Inr fs)
    with p have "parse_frames rest = (Inr [], rest)" by (auto intro: parse_frames_rest)
    from Cons.IH [OF this] p Inr later show ?thesis
      by (auto simp: push_def split: prod.splits sum.splits)
  qed
qed

subsection \<open>The collected output\<close>

record shell_output =
  stdout :: bytes
  stderr :: bytes
  exit_code :: "u8 option"

definition empty_output :: shell_output where
  "empty_output = \<lparr>stdout = [], stderr = [], exit_code = None\<rparr>"

definition apply_frame :: "shell_output \<Rightarrow> sh_frame \<Rightarrow> shell_output" where
  "apply_frame out fr =
     (case fr_id fr of
        Stdout \<Rightarrow> out\<lparr>stdout := stdout out @ fr_data fr\<rparr>
      | Stderr \<Rightarrow> out\<lparr>stderr := stderr out @ fr_data fr\<rparr>
      | Exit \<Rightarrow> out\<lparr>exit_code := (case fr_data fr of [] \<Rightarrow> None | b # bs \<Rightarrow> Some b)\<rparr>
      | _ \<Rightarrow> out)"

definition stdout_text :: "shell_output \<Rightarrow> str" where
  "stdout_text out = utf8_lossy (stdout out)"

definition stderr_text :: "shell_output \<Rightarrow> str" where
  "stderr_text out = utf8_lossy (stderr out)"

definition success :: "shell_output \<Rightarrow> bool" where
  "success out = (case exit_code out of None \<Rightarrow> True | Some c \<Rightarrow> c = 0)"

text \<open>The data of the frames with one id, and the code the last exit frame reported.\<close>

definition data_of :: "frame_id \<Rightarrow> sh_frame list \<Rightarrow> bytes" where
  "data_of i fs = concat (map fr_data (filter (\<lambda>fr. fr_id fr = i) fs))"

definition code_of :: "sh_frame list \<Rightarrow> u8 option" where
  "code_of fs =
     (case filter (\<lambda>fr. fr_id fr = Exit) fs of
        [] \<Rightarrow> None
      | es \<Rightarrow> (case fr_data (last es) of [] \<Rightarrow> None | b # bs \<Rightarrow> Some b))"

lemma apply_frames:
  "foldl apply_frame empty_output fs
     = \<lparr>stdout = data_of Stdout fs, stderr = data_of Stderr fs, exit_code = code_of fs\<rparr>"
proof (induction fs rule: rev_induct)
  case Nil
  then show ?case by (simp add: empty_output_def data_of_def code_of_def)
next
  case (snoc fr fs)
  then show ?case
    by (cases "fr_id fr")
      (auto simp: apply_frame_def data_of_def code_of_def split: list.splits)
qed

subsection \<open>Properties\<close>

definition encode_all :: "sh_frame list \<Rightarrow> bytes" where
  "encode_all fs = concat (map (\<lambda>fr. case frame_encode (fr_id fr) (fr_data fr) of Inl e \<Rightarrow> [] | Inr bs \<Rightarrow> bs) fs)"

lemma parse_encode_all:
  "\<forall>fr \<in> set fs. length (fr_data fr) < 2 ^ 32 \<Longrightarrow> parse_frames (encode_all fs) = (Inr fs, [])"
proof (induction fs)
  case Nil
  then show ?case by (simp add: encode_all_def parse_frames_short)
next
  case (Cons fr fs)
  then show ?case
    using parse_frames_frame [of "fr_data fr" "fr_id fr" "encode_all fs"]
    by (simp add: encode_all_def frame_encode_def)
qed

text \<open>
  Encoded frames, cut into pieces in any way and pushed piece by piece, come out as the same
  frames in the same order, and nothing is left in the buffer.
\<close>

lemma shell_v2_roundtrip:
  assumes "\<forall>fr \<in> set fs. length (fr_data fr) < 2 ^ 32" and "concat pieces = encode_all fs"
  shows "push_all pieces [] = (Inr fs, [])"
proof -
  have "parse_frames [] = (Inr [], [])" by (simp add: parse_frames_short)
  from push_all_parse [OF this, of pieces] assms parse_encode_all [OF assms(1)] show ?thesis
    by (cases "push_all pieces []") simp
qed

text \<open>
  C18: the incremental parser is equivalent to parsing the whole stream at once: however the bytes are
  cut into pieces, pushing them one after the other gives the same frames in the same order, or
  stops with the same error, and without an error the same bytes are left pending.
\<close>

theorem parser_equivalent:
  "push_all pieces [] =
     (case parse_frames (concat pieces) of
        (Inl e, rest) \<Rightarrow> (Inl e, snd (push_all pieces []))
      | (Inr fs, rest) \<Rightarrow> (Inr fs, rest))"
proof -
  have "parse_frames [] = (Inr [], [])" by (simp add: parse_frames_short)
  from push_all_parse [OF this, of pieces] show ?thesis
    by (cases "push_all pieces []"; cases "parse_frames (concat pieces)") (auto split: sum.splits)
qed

end
