(* ===== verification/Shell.thy ===== *)
theory Shell
  imports Shell_V2
begin

section \<open>The shell, exec and reboot services\<close>

text \<open>
  \<open>src/services/shell.rs\<close> and \<open>src/services/mod.rs\<close> over any connection: the command is checked,
  the service is opened, and its output is drained (\<open>shell:\<close>, \<open>exec:\<close>, \<open>reboot:\<close>) or parsed as
  frames (\<open>shell,v2:\<close>). Inside the locale \<open>channel\<close> the collected output is a function of the
  bytes the device sends. \<open>quote\<close> is proved against \<open>sh_words\<close>, the word splitting of a POSIX
  shell restricted to the constructs \<open>quote\<close> produces.
\<close>

subsection \<open>Running a command\<close>

definition SHELL_V2_FEATURE :: str where "SHELL_V2_FEATURE = ''shell_v2''"

definition check_command :: "str \<Rightarrow> unit result" where
  "check_command cmd =
     (if CHR 0x00 \<in> set cmd then Inl (InvalidArgument (Lit ''command contains NUL'')) else Inr ())"

definition open_and_drain :: "('w, 'h) connection \<Rightarrow> str \<Rightarrow> ('w, bytes) comp" where
  "open_and_drain N svc = and_then (cn_open N svc) (drain (cn_channel N))"

definition shell_v1 :: "('w, 'h) connection \<Rightarrow> str \<Rightarrow> ('w, bytes) comp" where
  "shell_v1 N cmd =
     and_then (of_result (check_command cmd)) (\<lambda>_. open_and_drain N (''shell:'' @ cmd))"

definition exec :: "('w, 'h) connection \<Rightarrow> str \<Rightarrow> ('w, bytes) comp" where
  "exec N cmd =
     and_then (of_result (check_command cmd)) (\<lambda>_. open_and_drain N (''exec:'' @ cmd))"

text \<open>The \<open>while let\<close> of \<open>collect_v2\<close>: the output, the parser's buffer and the reader.\<close>

partial_function (option) collect_loop ::
  "('w, 'h) channel_ops \<Rightarrow> 'h \<Rightarrow> shell_output \<Rightarrow> bytes \<Rightarrow> 'w reading
     \<Rightarrow> ((shell_output \<times> bytes) result \<times> 'w reading) option" where
  "collect_loop C h out buf s =
     (case next_chunk C h s of
        None \<Rightarrow> None
      | Some (Inl e, s') \<Rightarrow> Some (Inl e, s')
      | Some (Inr None, s') \<Rightarrow> Some (Inr (out, buf), s')
      | Some (Inr (Some chunk), s') \<Rightarrow>
          (case push chunk buf of
             (Inl e, rest) \<Rightarrow> Some (Inl e, s')
           | (Inr frames, rest) \<Rightarrow> collect_loop C h (foldl apply_frame out frames) rest s'))"

definition trailing_bytes :: "nat \<Rightarrow> error" where
  "trailing_bytes n = Protocol (Fmt ''{} trailing bytes in shell v2 stream'' [Num (int n)])"

definition collect_v2 :: "('w, 'h) channel_ops \<Rightarrow> 'h \<Rightarrow> ('w, shell_output) comp" where
  "collect_v2 C h =
     with_reader
       (and_then (collect_loop C h empty_output []) (\<lambda>(out, buf).
        and_then (on_world (ch_close C h)) (\<lambda>_.
        if parser_pending buf \<noteq> 0 then throw (trailing_bytes (parser_pending buf)) else ret out)))"

definition shell_v2 :: "('w, 'h) connection \<Rightarrow> str \<Rightarrow> bytes \<Rightarrow> ('w, shell_output) comp" where
  "shell_v2 N cmd stdin =
     and_then (of_result (check_command cmd)) (\<lambda>_.
     and_then (cn_open N (''shell,v2:'' @ cmd)) (\<lambda>h.
     and_then (if stdin \<noteq> []
               then and_then (of_result (frame_encode Stdin stdin)) (ch_send (cn_channel N) h)
               else ret ()) (\<lambda>_.
     and_then (and_then (of_result (frame_encode CloseStdin [])) (ch_send (cn_channel N) h)) (\<lambda>_.
     collect_v2 (cn_channel N) h))))"

definition shell :: "('w, 'h) connection \<Rightarrow> str list \<Rightarrow> str \<Rightarrow> ('w, shell_output) comp" where
  "shell N fts cmd =
     (if SHELL_V2_FEATURE \<in> set fts then shell_v2 N cmd []
      else and_then (shell_v1 N cmd) (\<lambda>out.
           ret \<lparr>stdout = out, stderr = [], exit_code = None\<rparr>))"

subsection \<open>Reboot\<close>

datatype reboot_target = System | Bootloader | Recovery | Sideload | Fastboot

fun reboot_arg :: "reboot_target \<Rightarrow> str" where
  "reboot_arg System = ''''"
| "reboot_arg Bootloader = ''bootloader''"
| "reboot_arg Recovery = ''recovery''"
| "reboot_arg Sideload = ''sideload''"
| "reboot_arg Fastboot = ''fastboot''"

definition reboot :: "('w, 'h) connection \<Rightarrow> reboot_target \<Rightarrow> ('w, unit) comp" where
  "reboot N target =
     and_then (open_and_drain N (''reboot:'' @ reboot_arg target)) (\<lambda>_. ret ())"

subsection \<open>What a collected stream gives\<close>

definition collected :: "bytes \<Rightarrow> shell_output result" where
  "collected bs =
     (case parse_frames bs of
        (Inl e, rest) \<Rightarrow> Inl e
      | (Inr fs, rest) \<Rightarrow> if rest \<noteq> [] then Inl (trailing_bytes (length rest))
                         else Inr (foldl apply_frame empty_output fs))"

text \<open>What a call sends: the frame with the input, if there is any, and the one that closes it.\<close>

definition stdin_frames :: "bytes \<Rightarrow> bytes" where
  "stdin_frames stdin = encode_all ((if stdin = [] then [] else [\<lparr>fr_id = Stdin, fr_data = stdin\<rparr>])
     @ [\<lparr>fr_id = CloseStdin, fr_data = []\<rparr>])"

context channel
begin

lemma collect_loop_all:
  assumes ends
  shows "invar (world s) \<Longrightarrow> buffer s = [] \<Longrightarrow> parse_frames buf = (Inr [], buf) \<Longrightarrow>
     \<exists>s'. collect_loop C h out buf s =
       Some (case parse_frames (buf @ avail (world s)) of (Inl e, rest) \<Rightarrow> Inl e
             | (Inr fs, rest) \<Rightarrow> Inr (foldl apply_frame out fs, rest), s')
     \<and> invar (world s') \<and> sent (world s') = sent (world s)"
proof (induction "pending (world s)" arbitrary: s buf out rule: less_induct)
  case less
  from next_chunk_some [OF less.prems(1) assms] obtain r s1 where
    r: "next_chunk C h s = Some (Inr r, s1)" "invar (world s1)" "sent (world s1) = sent (world s)"
      "case r of None \<Rightarrow> ahead s = [] \<and> ahead s1 = []
       | Some c \<Rightarrow> ahead s = c @ ahead s1 \<and> buffer s1 = []
           \<and> (buffer s = [] \<longrightarrow> pending (world s1) < pending (world s))" by blast
  show ?case
  proof (cases r)
    case None
    with r less.prems show ?thesis
      by (simp add: collect_loop.simps [of C h out buf s] ahead_def)
  next
    case (Some c)
    with r less.prems(2) have cut: "avail (world s) = c @ avail (world s1)" "buffer s1 = []"
      and lt: "pending (world s1) < pending (world s)"
      by (simp_all add: ahead_def)
    obtain res rest where p: "parse_frames (buf @ c) = (res, rest)" by fastforce
    have whole: "parse_frames (buf @ avail (world s)) =
       (case res of Inl e \<Rightarrow> (Inl e, rest @ avail (world s1))
        | Inr fs \<Rightarrow> (case parse_frames (rest @ avail (world s1)) of (Inl e, r) \<Rightarrow> (Inl e, r)
             | (Inr gs, r) \<Rightarrow> (Inr (fs @ gs), r)))"
      using parse_frames_more [of "buf @ c" "avail (world s1)"] by (simp add: cut p split: sum.splits)
    show ?thesis
    proof (cases res)
      case (Inl e)
      with r Some p whole show ?thesis
        by (simp add: collect_loop.simps [of C h out buf s] push_def)
    next
      case (Inr fs)
      have "parse_frames rest = (Inr [], rest)" using p Inr by (auto intro: parse_frames_rest)
      from less.hyps [OF lt r(2) cut(2) this, of "foldl apply_frame out fs"] r(1,3) Some p Inr whole
      show ?thesis
        by (auto simp: collect_loop.simps [of C h out buf s] push_def split: prod.splits sum.splits)
    qed
  qed
qed

lemma collect_v2_all:
  assumes ends and "invar w"
  shows "\<exists>w'. collect_v2 C h w = Some (collected (avail w), w') \<and> sent w' = sent w"
proof -
  let ?s = "\<lparr>buffer = [], world = w\<rparr>"
  from collect_loop_all [OF assms(1), of ?s "[]" empty_output] assms(2) obtain s1 where
    s1: "collect_loop C h empty_output [] ?s =
       Some (case parse_frames (avail w) of (Inl e, rest) \<Rightarrow> Inl e
             | (Inr fs, rest) \<Rightarrow> Inr (foldl apply_frame empty_output fs, rest), s1)"
      "invar (world s1)" "sent (world s1) = sent w"
    by (auto simp: parse_frames_short)
  obtain res rest where p: "parse_frames (avail w) = (res, rest)" by fastforce
  obtain w2 where w2: "ch_close C h (world s1) = Some (Inr (), w2)" "sent w2 = sent (world s1)"
    using close [OF s1(2)] by blast
  show ?thesis
  proof (cases res)
    case (Inl e)
    with s1 p show ?thesis
      by (simp add: collect_v2_def with_reader_def and_then_def collected_def)
  next
    case (Inr fs)
    with s1 p w2 show ?thesis
      by (simp add: collect_v2_def with_reader_def and_then_def collected_def on_world_def
          on_part_def parser_pending_def)
  qed
qed

text \<open>A whole \<open>shell,v2:\<close> call on an opened channel: what is sent, and what comes back.\<close>

lemma shell_v2_run:
  assumes ends and "cn_channel N = C" and "cn_open N (''shell,v2:'' @ cmd) w = Some (Inr h, w1)" and "invar w1"
    and "CHR 0x00 \<notin> set cmd" and "takes w1 (length (stdin_frames stdin))" and "length stdin < 2 ^ 32"
  shows "\<exists>w'. shell_v2 N cmd stdin w = Some (collected (avail w1), w') \<and> sent w' = sent w1 @ stdin_frames stdin"
proof -
  obtain cs where cs: "frame_encode CloseStdin [] = Inr cs" by (simp add: frame_encode_def)
  have one: "encode_all [\<lparr>fr_id = CloseStdin, fr_data = []\<rparr>] = cs"
    using cs by (simp add: encode_all_def)
  have rest: "\<exists>w'. and_then (and_then (of_result (frame_encode CloseStdin [])) (ch_send C h))
        (\<lambda>_. collect_v2 C h) w2 = Some (collected (avail w1), w') \<and> sent w' = sent w2 @ cs"
    if here: "invar w2" "avail w2 = avail w1" "takes w2 (length cs + 0)" for w2
  proof -
    obtain w3 where w3: "ch_send C h cs w2 = Some (Inr (), w3)" "invar w3" "sent w3 = sent w2 @ cs"
      "avail w3 = avail w2"
      using send [OF here(1,3)] by auto
    with collect_v2_all [OF assms(1), of w3] here show ?thesis by (auto simp: cs and_then_ok)
  qed
  have start: "shell_v2 N cmd stdin w =
      and_then (if stdin \<noteq> [] then and_then (of_result (frame_encode Stdin stdin)) (ch_send C h) else ret ())
        (\<lambda>_. and_then (and_then (of_result (frame_encode CloseStdin [])) (ch_send C h))
               (\<lambda>_. collect_v2 C h)) w1"
    using assms(2,3,5) by (simp add: shell_v2_def check_command_def and_then_ok del: and_then_of_result)
  show ?thesis
  proof (cases "stdin = []")
    case True
    with start rest [OF assms(4) refl] assms(6) one show ?thesis by (simp add: stdin_frames_def)
  next
    case False
    obtain bs where bs: "frame_encode Stdin stdin = Inr bs"
      using assms(7) by (simp add: frame_encode_def)
    have frames: "stdin_frames stdin = bs @ cs"
      using False bs one by (simp add: stdin_frames_def encode_all_def)
    have "takes w1 (length bs + length cs)" using assms(6) by (simp add: frames)
    from send [OF assms(4) this] obtain w2 where w2: "ch_send C h bs w1 = Some (Inr (), w2)" "invar w2"
      "sent w2 = sent w1 @ bs" "avail w2 = avail w1" "takes w2 (length cs)"
      by blast
    with start rest [OF w2(2,4)] False bs frames show ?thesis by (simp add: and_then_ok)
  qed
qed

end

subsection \<open>Quoting for the shell\<close>

definition ascii_alnum :: "char \<Rightarrow> bool" where
  "ascii_alnum c \<longleftrightarrow>
     (let n = of_char c :: nat in (48 \<le> n \<and> n \<le> 57) \<or> (65 \<le> n \<and> n \<le> 90) \<or> (97 \<le> n \<and> n \<le> 122))"

definition replace_char :: "'a \<Rightarrow> 'a list \<Rightarrow> 'a list \<Rightarrow> 'a list" where
  "replace_char c by s = concat (map (\<lambda>d. if d = c then by else [d]) s)"

abbreviation (input) squote :: char where
  "squote \<equiv> CHR 0x27"

definition quote :: "str \<Rightarrow> str" where
  "quote arg =
     (if arg \<noteq> [] \<and> (\<forall>b \<in> set arg. ascii_alnum b \<or> b \<in> set ''-_./:=@,'') then arg
      else [squote] @ replace_char squote [squote, CHR 0x5C, squote, squote] arg @ [squote])"

text \<open>
  The shell's side: words separated by blanks, single-quoted text taken literally, a backslash
  taking the next character literally. A character with any other meaning to the shell, outside
  quotes, makes the whole line \<open>None\<close>, as does an open quote or a backslash at the end.
\<close>

datatype sh_mode = Between | Word str | Quoted str

definition sh_special :: "char list" where
  "sh_special = ''|&;<>()$`\"*?[]{}#~!%'' @ [CHR 0x09, CHR 0x0A, CHR 0x0D, CHR 0x00]"

fun sh_words :: "sh_mode \<Rightarrow> str \<Rightarrow> str list option" where
  "sh_words Between [] = Some []"
| "sh_words (Word w) [] = Some [rev w]"
| "sh_words (Quoted w) [] = None"
| "sh_words (Quoted w) (c # cs) =
     (if c = squote then sh_words (Word w) cs else sh_words (Quoted (c # w)) cs)"
| "sh_words Between (c # cs) =
     (if c = CHR '' '' then sh_words Between cs
      else if c = squote then sh_words (Quoted []) cs
      else if c = CHR 0x5C then
        (case cs of [] \<Rightarrow> None | d # ds \<Rightarrow> sh_words (Word [d]) ds)
      else if c \<in> set sh_special then None
      else sh_words (Word [c]) cs)"
| "sh_words (Word w) (c # cs) =
     (if c = CHR '' '' then map_option ((#) (rev w)) (sh_words Between cs)
      else if c = squote then sh_words (Quoted w) cs
      else if c = CHR 0x5C then
        (case cs of [] \<Rightarrow> None | d # ds \<Rightarrow> sh_words (Word (d # w)) ds)
      else if c \<in> set sh_special then None
      else sh_words (Word (c # w)) cs)"

definition sh_split :: "str \<Rightarrow> str list option" where
  "sh_split s = sh_words Between s"

definition sh_plain :: "char \<Rightarrow> bool" where
  "sh_plain c \<longleftrightarrow> c \<noteq> CHR '' '' \<and> c \<noteq> squote \<and> c \<noteq> CHR 0x5C \<and> c \<notin> set sh_special"

lemma sh_words_plain:
  "\<forall>c \<in> set a. sh_plain c \<Longrightarrow> sh_words (Word w) (a @ s) = sh_words (Word (rev a @ w)) s"
  by (induction a arbitrary: w) (simp_all add: sh_plain_def)

lemma sh_words_quoted:
  "sh_words (Quoted w) (replace_char squote [squote, CHR 0x5C, squote, squote] a @ squote # s)
     = sh_words (Word (rev a @ w)) s"
  by (induction a arbitrary: w) (simp_all add: replace_char_def)

lemma quoted_plain:
  assumes "ascii_alnum c \<or> c \<in> set ''-_./:=@,''"
  shows "sh_plain c"
proof (rule ccontr)
  assume "\<not> sh_plain c"
  then have "c \<in> {CHR '' '', squote, CHR 0x5C} \<union> set sh_special" by (auto simp: sh_plain_def)
  with assms show False by (auto simp: sh_special_def ascii_alnum_def)
qed

lemma sh_words_quote: "sh_words Between (quote a @ s) = sh_words (Word (rev a)) s"
proof (cases "a \<noteq> [] \<and> (\<forall>b \<in> set a. ascii_alnum b \<or> b \<in> set ''-_./:=@,'')")
  case True
  then obtain c cs where a: "a = c # cs" by (cases a) auto
  from True have plain: "\<forall>b \<in> set a. sh_plain b" using quoted_plain by blast
  then have "sh_words Between (a @ s) = sh_words (Word [c]) (cs @ s)"
    by (simp add: a sh_plain_def)
  with True plain show ?thesis by (simp add: quote_def sh_words_plain a)
next
  case False
  then have "quote a = [squote] @ replace_char squote [squote, CHR 0x5C, squote, squote] a @ [squote]"
    unfolding quote_def by (rule if_not_P)
  then show ?thesis by (simp add: sh_words_quoted)
qed

lemma sh_split_quotes: "sh_split (join '' '' (map quote args)) = Some args"
proof (induction args)
  case Nil
  then show ?case by (simp add: sh_split_def)
next
  case (Cons a as)
  show ?case
  proof (cases as)
    case Nil
    then show ?thesis using sh_words_quote [of a "[]"] by (simp add: sh_split_def)
  next
    case (Cons b bs)
    with Cons.IH show ?thesis
      using sh_words_quote [of a "CHR '' '' # join '' '' (map quote as)"]
      by (simp add: sh_split_def)
  qed
qed

subsection \<open>Properties\<close>

text \<open>
  A connection through the adb server: its channels are host channels over a byte stream with the
  documented behaviour. \<open>sample_connection\<close> is one, on scripted input.
\<close>

definition host_connection ::
  "(('r, 'w) host_channel, unit) connection \<Rightarrow> ('r \<Rightarrow> bytes) \<Rightarrow> ('w \<Rightarrow> bytes) \<Rightarrow> bool" where
  "host_connection N avail out \<longleftrightarrow>
     (\<exists>R W shutdown. reads_bytes R avail \<and> writes_bytes W out \<and> shuts_down shutdown out
        \<and> cn_channel N = host_channel_ops R W shutdown)"

lemma host_connection_channel:
  assumes "host_connection N avail out"
  shows "channel (cn_channel N) () (\<lambda>s. avail (hc_in s)) (\<lambda>s. length (avail (hc_in s))) True
     (\<lambda>s. out (hc_out s)) (\<lambda>_ _. True) (\<lambda>_. True)"
  using assms host_channel_contract by (fastforce simp: host_connection_def)

definition sample_connection :: "((bytes list, bytes) host_channel, unit) connection" where
  "sample_connection =
     \<lparr>cn_channel = host_channel_ops chunk_reader byte_sink no_shutdown,
      cn_open = (\<lambda>svc. ret ()), cn_features = ret [SHELL_V2_FEATURE]\<rparr>"

lemma sample_connection_ok: "host_connection sample_connection concat id"
  unfolding host_connection_def
  by (intro exI [of _ chunk_reader] exI [of _ byte_sink] exI [of _ no_shutdown])
    (simp add: sample_connection_def no_shutdown_ok)

lemma sample_connection_open: "cn_open sample_connection svc w = Some (Inr (), w)"
  by (simp add: sample_connection_def)

lemma parse_frames_none: "parse_frames buf = (Inr [], rest) \<Longrightarrow> rest = buf"
  by (simp add: parse_frames.simps [of buf] Let_def split: if_splits option.splits prod.splits sum.splits)

lemma parse_frames_part:
  assumes "frame_encode i data = Inr (part @ later)" and "later \<noteq> []"
  shows "parse_frames part = (Inr [], part)"
proof -
  have len: "length data < 2 ^ 32" and enc: "part @ later = frame_byte i # u32_to_le (word_of_nat (length data)) @ data"
    using assms(1) by (simp_all add: frame_encode_def split: if_splits)
  have whole: "parse_frames (part @ later) = (Inr [\<lparr>fr_id = i, fr_data = data\<rparr>], [])"
    using parse_frames_frame [OF len, of i "[]"] by (simp add: enc parse_frames_short)
  obtain res rest where p: "parse_frames part = (res, rest)" by fastforce
  with whole parse_frames_more [of part later] obtain fs where fs: "res = Inr fs"
    by (cases res) auto
  with p whole parse_frames_more [of part later] obtain gs where
    gs: "parse_frames (rest @ later) = (Inr gs, [])" "fs @ gs = [\<lparr>fr_id = i, fr_data = data\<rparr>]"
    by (auto split: prod.splits sum.splits)
  have "gs \<noteq> []" using gs(1) parse_frames_none assms(2) by blast
  with gs(2) have "fs = []" by (auto simp: append_eq_Cons_conv)
  with p fs show ?thesis using parse_frames_none by blast
qed

lemma shell_v2_frames:
  assumes "host_connection N avail out" and "cn_open N (''shell,v2:'' @ cmd) w = Some (Inr (), w1)"
    and "avail (hc_in w1) = encode_all fs"
    and "\<forall>fr \<in> set fs. length (fr_data fr) < 2 ^ 32"
    and "CHR 0x00 \<notin> set cmd" and "length stdin < 2 ^ 32"
  shows "\<exists>w'. shell_v2 N cmd stdin w =
       Some (Inr \<lparr>stdout = data_of Stdout fs, stderr = data_of Stderr fs, exit_code = code_of fs\<rparr>, w')
     \<and> out (hc_out w') = out (hc_out w1) @ encode_all
         ((if stdin = [] then [] else [\<lparr>fr_id = Stdin, fr_data = stdin\<rparr>])
          @ [\<lparr>fr_id = CloseStdin, fr_data = []\<rparr>])"
proof -
  from channel.shell_v2_run [OF host_connection_channel [OF assms(1)] TrueI refl assms(2) TrueI assms(5) TrueI assms(6)]
  show ?thesis by (simp add: stdin_frames_def assms(3) collected_def parse_encode_all [OF assms(4)] apply_frames)
qed

text \<open>
  C9: a command run over the adb server's \<open>shell,v2:\<close> service, for any byte stream with the
  documented behaviour and however its bytes are cut: when the device sends frames and ends the
  stream, the call returns, stdout and stderr are the data of their frames in order, the exit code
  is the one last reported, and the device was sent exactly the stdin frame (if any) and the frame
  that closes stdin.
\<close>

theorem shell_v2_collects:
  assumes "host_connection N avail out" and "cn_open N (''shell,v2:'' @ cmd) w = Some (Inr (), w1)"
    and "avail (hc_in w1) = encode_all fs"
    and "\<forall>fr \<in> set fs. length (fr_data fr) < 2 ^ 32"
    and "CHR 0x00 \<notin> set cmd" and "length stdin < 2 ^ 32"
  shows "\<exists>w'. shell_v2 N cmd stdin w =
       Some (Inr \<lparr>stdout = data_of Stdout fs, stderr = data_of Stderr fs, exit_code = code_of fs\<rparr>, w')
     \<and> out (hc_out w') = out (hc_out w1) @ encode_all
         ((if stdin = [] then [] else [\<lparr>fr_id = Stdin, fr_data = stdin\<rparr>])
          @ [\<lparr>fr_id = CloseStdin, fr_data = []\<rparr>])"
  using shell_v2_frames [OF assms] .

theorem shell_v2_collects_witness:
  "\<exists>w'. shell_v2 sample_connection ''id'' [] (new_host_channel [[1, 2, 0], [0, 0, 0x68], [0x69, 3, 1, 0, 0, 0, 7]] []) =
       Some (Inr \<lparr>stdout = [0x68, 0x69], stderr = [], exit_code = Some 7\<rparr>, w')
     \<and> id (hc_out w') = [4, 0, 0, 0, 0]"
  using shell_v2_collects [of sample_connection concat id "''id''"
      "new_host_channel [[1, 2, 0], [0, 0, 0x68], [0x69, 3, 1, 0, 0, 0, 7]] []"
      "new_host_channel [[1, 2, 0], [0, 0, 0x68], [0x69, 3, 1, 0, 0, 0, 7]] []"
      "[\<lparr>fr_id = Stdout, fr_data = [0x68, 0x69]\<rparr>, \<lparr>fr_id = Exit, fr_data = [7]\<rparr>]" "[]"]
  by (simp add: sample_connection_ok sample_connection_open new_host_channel_def encode_all_def frame_encode_def
      u32_to_le_cells data_of_def code_of_def)

text \<open>
  A stream that ends inside a frame is an error that counts the bytes left over, whatever
  whole frames came before it: truncated output is never returned as complete.
\<close>

lemma shell_v2_truncated:
  assumes "host_connection N avail out" and "cn_open N (''shell,v2:'' @ cmd) w = Some (Inr (), w1)"
    and "avail (hc_in w1) = encode_all fs @ part"
    and "\<forall>fr \<in> set fs. length (fr_data fr) < 2 ^ 32"
    and "frame_encode i data = Inr (part @ later)" and "part \<noteq> []" and "later \<noteq> []"
    and "CHR 0x00 \<notin> set cmd" and "length stdin < 2 ^ 32"
  shows "\<exists>w'. shell_v2 N cmd stdin w = Some (Inl (trailing_bytes (length part)), w')"
proof -
  have "parse_frames (encode_all fs @ part) = (Inr fs, part)"
    using parse_frames_more [of "encode_all fs" part] parse_frames_part [OF assms(5,7)]
    by (simp add: parse_encode_all [OF assms(4)])
  then show ?thesis
    using channel.shell_v2_run [OF host_connection_channel [OF assms(1)] TrueI refl assms(2) TrueI assms(8) TrueI assms(9)]
    by (auto simp: assms(3,6) collected_def)
qed

text \<open>
  C30: arguments quoted and joined with spaces reach the device's shell as exactly those words,
  whatever bytes they hold.
\<close>

theorem quote_verbatim: "sh_split (join '' '' (map quote args)) = Some args"
  by (rule sh_split_quotes)

end
