(* ===== verification/Props.thy ===== *)
theory Props
  imports Shell BTree
begin

section \<open>Device properties\<close>

text \<open>
  \<open>src/services/props.rs\<close>: the check of a property name that goes into a shell command, and the
  parser of \<open>getprop\<close>'s listing. The lemmas show that a checked name is one word to the shell, and
  that the parser inverts the listing, values of several lines included.
\<close>

subsection \<open>Names\<close>

definition invalid_name :: "str \<Rightarrow> error" where
  "invalid_name name = InvalidArgument (Fmt ''invalid property name {name:?}'' [Txt name])"

definition validate_name :: "str \<Rightarrow> unit result" where
  "validate_name name =
     (if name \<noteq> [] \<and> length name \<le> 255 \<and> (\<forall>b \<in> set name. ascii_alnum b \<or> b \<in> set ''._-:@'')
      then Inr () else Inl (invalid_name name))"

subsection \<open>The listing\<close>

type_synonym prop_state = "(str, str) btree \<times> (str \<times> str) option"

definition prop_value :: "(str, str) btree \<Rightarrow> str \<Rightarrow> str \<Rightarrow> prop_state" where
  "prop_value props name value =
     (case strip_suffix '']'' value of
        Some v \<Rightarrow> (bt_insert name v props, None)
      | None \<Rightarrow> (props, Some (name, value)))"

definition prop_line :: "prop_state \<Rightarrow> str \<Rightarrow> prop_state" where
  "prop_line st l =
     (let line = trim_end_matches (\<lambda>c. c = CHR 0x0D) l in
      case st of
        (props, Some (name, value)) \<Rightarrow> prop_value props name (value @ [CHR 0x0A] @ line)
      | (props, None) \<Rightarrow>
          (case strip_prefix ''['' line of
             None \<Rightarrow> (props, None)
           | Some rest \<Rightarrow>
               (case split_once '']: ['' rest of
                  None \<Rightarrow> (props, None)
                | Some (name, value) \<Rightarrow> prop_value props name value)))"

definition parse_all :: "str \<Rightarrow> (str, str) btree" where
  "parse_all output = fst (foldl prop_line ([], None) (lines output))"

subsection \<open>What \<open>getprop\<close> prints\<close>

definition print_prop :: "str \<times> str \<Rightarrow> str" where
  "print_prop p = (case p of (name, value) \<Rightarrow> ''['' @ name @ '']: ['' @ value @ '']'' @ [CHR 0x0A])"

text \<open>A line neither ends in a carriage return nor, inside a value, in a bracket.\<close>

definition line_ok :: "str \<Rightarrow> bool" where
  "line_ok l \<longleftrightarrow> CHR 0x0A \<notin> set l \<and> (l = [] \<or> last l \<noteq> CHR 0x0D)"

definition value_ok :: "str \<Rightarrow> bool" where
  "value_ok v \<longleftrightarrow>
     (let ls = split_char (CHR 0x0A) v in
      (\<forall>l \<in> set ls. line_ok l) \<and> (\<forall>l \<in> set (butlast ls). l = [] \<or> last l \<noteq> CHR '']''))"

definition name_ok :: "str \<Rightarrow> bool" where
  "name_ok n \<longleftrightarrow> CHR 0x0A \<notin> set n \<and> CHR '']'' \<notin> set n"

lemma join_split_char: "join [c] (split_char c s) = s"
proof (induction s)
  case Nil
  then show ?case by simp
next
  case (Cons x xs)
  obtain y ys where y: "split_char c xs = y # ys" by (cases "split_char c xs") auto
  show ?case
  proof (cases ys)
    case Nil
    with y Cons show ?thesis by auto
  next
    case (Cons z zs)
    with y Cons.IH show ?thesis by auto
  qed
qed

lemma trim_line [simp]: "line_ok l \<Longrightarrow> trim_end_matches (\<lambda>c. c = CHR 0x0D) l = l"
  by (auto simp: line_ok_def trim_end_matches_id)

lemma lines_line: "line_ok l \<Longrightarrow> lines (l @ CHR 0x0A # s) = l # lines s"
  by (simp add: line_ok_def lines_newline)

lemma line_ok_bracket: "CHR 0x0A \<notin> set l \<Longrightarrow> line_ok (l @ '']'')"
  by (simp add: line_ok_def)

lemma lines_value:
  assumes "ls \<noteq> []" and "\<forall>l \<in> set ls. line_ok l" and "line_ok (pre @ hd ls)" and "CHR 0x0A \<notin> set pre"
  shows "lines (pre @ join [CHR 0x0A] ls @ '']'' @ CHR 0x0A # s)
     = (let rows = (pre @ hd ls) # tl ls in butlast rows @ [last rows @ '']''] @ lines s)"
  using assms
proof (induction "[CHR 0x0A]" ls arbitrary: pre rule: join.induct)
  case 1
  then show ?case by simp
next
  case (2 x)
  then have "line_ok (pre @ x @ '']'')" by (simp add: line_ok_def)
  from lines_line [OF this] show ?case by simp
next
  case (3 x y zs)
  have tail: "lines (join [CHR 0x0A] (y # zs) @ '']'' @ CHR 0x0A # s)
     = (let rows = y # zs in butlast rows @ [last rows @ '']''] @ lines s)"
    using 3(1) [of "[]"] 3(3) by simp
  have "lines ((pre @ x) @ CHR 0x0A # join [CHR 0x0A] (y # zs) @ '']'' @ CHR 0x0A # s)
     = (pre @ x) # lines (join [CHR 0x0A] (y # zs) @ '']'' @ CHR 0x0A # s)"
    by (rule lines_line) (use 3(4) in simp)
  with tail show ?case by (simp add: Let_def)
qed

lemma prop_value_open:
  "v = [] \<or> last v \<noteq> CHR '']'' \<Longrightarrow> prop_value props n v = (props, Some (n, v))"
  by (auto simp: prop_value_def strip_suffix_Some split: option.splits)

lemma prop_value_close [simp]: "prop_value props n (v @ '']'') = (bt_insert n v props, None)"
  by (simp add: prop_value_def)

text \<open>The continuation lines of a value, up to the one that ends it.\<close>

lemma prop_continue:
  assumes "ls \<noteq> []" and "\<forall>l \<in> set ls. line_ok l" and "\<forall>l \<in> set (butlast ls). l = [] \<or> last l \<noteq> CHR '']''"
  shows "foldl prop_line (props, Some (n, v)) (butlast ls @ [last ls @ '']''])
     = (bt_insert n (v @ CHR 0x0A # join [CHR 0x0A] ls) props, None)"
  using assms
proof (induction "[CHR 0x0A]" ls arbitrary: v rule: join.induct)
  case 1
  then show ?case by simp
next
  case (2 x)
  then have "trim_end_matches (\<lambda>c. c = CHR 0x0D) (x @ '']'') = x @ '']''"
    by (simp add: trim_end_matches_def)
  then show ?case
    using prop_value_close [of props n "v @ CHR 0x0A # x"] by (simp add: prop_line_def Let_def)
next
  case (3 x y zs)
  have "prop_line (props, Some (n, v)) x = (props, Some (n, (v @ [CHR 0x0A]) @ x))"
    using 3(3,4) prop_value_open [of "(v @ [CHR 0x0A]) @ x" props n] by (auto simp: prop_line_def Let_def)
  with 3(1) [of "v @ CHR 0x0A # x"] 3(3,4) show ?case by simp
qed

lemma parse_prop:
  assumes "name_ok n" and "value_ok v"
  shows "foldl prop_line (props, None) (lines (print_prop (n, v) @ s))
     = foldl prop_line (bt_insert n v props, None) (lines s)"
proof -
  define ls where "ls = split_char (CHR 0x0A) v"
  define pre where "pre = ''['' @ n @ '']: [''"
  have ls: "ls \<noteq> []" "join [CHR 0x0A] ls = v" "\<forall>l \<in> set ls. line_ok l"
    "\<forall>l \<in> set (butlast ls). l = [] \<or> last l \<noteq> CHR '']''"
    using assms(2) by (simp_all add: ls_def join_split_char value_ok_def Let_def)
  then obtain x xs where x: "ls = x # xs" by (cases ls) auto
  have pre: "CHR 0x0A \<notin> set pre" "line_ok (pre @ x)"
    using assms(1) ls(3) by (auto simp: pre_def name_ok_def x line_ok_def)
  have split: "split_once '']: ['' (n @ '']: ['' @ r) = Some (n, r)" for r
    using assms(1) by (intro split_once_first) (simp_all add: name_ok_def)
  have lines: "lines (print_prop (n, v) @ s) = butlast ((pre @ x) # xs) @ [last ((pre @ x) # xs) @ '']''] @ lines s"
    using lines_value [of ls pre s] ls pre by (simp add: x print_prop_def pre_def Let_def)
  have first: "prop_line (props, None) l = prop_value props n r" if "l = pre @ r" "line_ok l" for l r
    using that(2) split [of r] by (simp add: prop_line_def that(1) pre_def Let_def)
  show ?thesis
  proof (cases xs)
    case Nil
    have "prop_line (props, None) ((pre @ x) @ '']'') = prop_value props n (x @ '']'')"
      by (rule first) (use pre ls(3) in \<open>simp_all add: x line_ok_def\<close>)
    then show ?thesis using ls(2) by (simp add: lines Nil x)
  next
    case (Cons y ys)
    have open_value: "prop_value props n x = (props, Some (n, x))"
      using ls(4) by (intro prop_value_open) (simp add: x Cons)
    have "prop_line (props, None) (pre @ x) = (props, Some (n, x))"
      using first [OF refl pre(2)] open_value by simp
    moreover have "foldl prop_line (props, Some (n, x)) (butlast xs @ [last xs @ '']''])
        = (bt_insert n (x @ CHR 0x0A # join [CHR 0x0A] xs) props, None)"
      using ls(3,4) by (intro prop_continue) (simp_all add: x Cons)
    moreover have "x @ CHR 0x0A # join [CHR 0x0A] xs = v"
      using ls(2) by (simp add: x Cons)
    moreover have "lines (print_prop (n, v) @ s) = (pre @ x) # (butlast xs @ [last xs @ '']'']) @ lines s"
      by (simp add: lines Cons)
    ultimately show ?thesis by (simp only: foldl_Cons foldl_append)
  qed
qed

lemma parse_props:
  "\<forall>(n, v) \<in> set ps. name_ok n \<and> value_ok v \<Longrightarrow>
     foldl prop_line (props, None) (lines (concat (map print_prop ps)))
       = (foldl (\<lambda>acc (n, v). bt_insert n v acc) props ps, None)"
  by (induction ps arbitrary: props) (auto simp: parse_prop)

subsection \<open>Properties\<close>

text \<open>
  The listing of a property map, names without brackets or newlines, values of any number of
  lines none of which but the last ends in a bracket, is parsed back to exactly that map.
\<close>

lemma getprop_roundtrip:
  assumes "bt_wf props" and "\<forall>(n, v) \<in> set props. name_ok n \<and> value_ok v"
  shows "parse_all (concat (map print_prop props)) = props"
  using parse_props [OF assms(2), of "[]"] bt_foldl_insert [of "[]" props] assms(1)
  by (simp add: parse_all_def)

text \<open>
  A name that passes the check is a single literal word of the command line it is put into,
  so it cannot add a word, an operator or a substitution.
\<close>

lemma valid_name_one_word:
  assumes "validate_name name = Inr ()"
  shows "sh_split (''getprop '' @ name) = Some [''getprop'', name]"
proof -
  have name: "name \<noteq> []" "\<forall>b \<in> set name. sh_plain b"
    using assms quoted_plain by (auto simp: validate_name_def split: if_splits)
  then obtain c cs where c: "name = c # cs" by (cases name) auto
  have "sh_split (''getprop'' @ CHR '' '' # name) = map_option ((#) ''getprop'') (sh_words Between name)"
    by (simp add: sh_split_def sh_special_def)
  moreover have "sh_words Between name = Some [name]"
    using name sh_words_plain [of cs "[c]" "[]"] by (simp add: c sh_plain_def)
  ultimately show ?thesis by simp
qed

end
