(* ===== verification/Content.thy ===== *)
theory Content
  imports Props
begin

section \<open>Content provider queries\<close>

text \<open>
  \<open>src/services/content.rs\<close>: the shell command of a query and the parser of its row-per-line
  output. The lemmas show that the command's words are the caller's strings, that parsing inverts
  printing for rows whose last column may span lines, and that the number of parsed rows is what
  \<open>count_rows\<close> says.
\<close>

subsection \<open>The command\<close>

definition query_command :: "str \<Rightarrow> str list \<Rightarrow> str list \<Rightarrow> str" where
  "query_command uri projection extra_args =
     ''content query --uri '' @ quote uri
     @ (if projection \<noteq> [] then '' --projection '' @ quote (join '':'' projection) else [])
     @ concat (map (\<lambda>arg. '' '' @ quote arg) extra_args)"

subsection \<open>Rows\<close>

type_synonym row = "(str, str) btree"

definition expected_column :: "str \<Rightarrow> str \<Rightarrow> error" where
  "expected_column column flds =
     Parse (Fmt ''expected column {column} in {fields:?}'' [Txt column, Txt flds])"

definition missing_column :: "str \<Rightarrow> str \<Rightarrow> error" where
  "missing_column nxt flds =
     Parse (Fmt ''missing column {next} in {fields:?}'' [Txt nxt, Txt flds])"

text \<open>The loop of \<open>parse_fields\<close>: the columns still to read, the row so far and the text left.\<close>

fun take_fields :: "str \<Rightarrow> str list \<Rightarrow> row \<Rightarrow> str \<Rightarrow> row result" where
  "take_fields flds [] r rest = Inr r"
| "take_fields flds (column # cols) r rest =
     (case strip_prefix (column @ ''='') rest of
        None \<Rightarrow> Inl (expected_column column flds)
      | Some rest' \<Rightarrow>
          (case cols of
             nxt # _ \<Rightarrow>
               (case find_sub ('', '' @ nxt @ ''='') rest' of
                  None \<Rightarrow> Inl (missing_column nxt flds)
                | Some at \<Rightarrow>
                    take_fields flds cols (bt_insert column (take at rest') r) (drop (at + 2) rest'))
           | [] \<Rightarrow> take_fields flds cols (bt_insert column rest' r) []))"

definition parse_fields :: "str \<Rightarrow> str list \<Rightarrow> row result" where
  "parse_fields flds projection = take_fields flds projection [] flds"

definition row_prefix :: str where "row_prefix = ''Row: ''"

definition unexpected_line :: "str \<Rightarrow> error" where
  "unexpected_line line = Parse (Fmt ''unexpected content line: {line:?}'' [Txt line])"

definition without_fields :: "str \<Rightarrow> error" where
  "without_fields line = Parse (Fmt ''row without fields: {line:?}'' [Txt line])"

text \<open>\<open>row.entry(column).or_default()\<close> with the line pushed on.\<close>

definition continue_row :: "str \<Rightarrow> str \<Rightarrow> row \<Rightarrow> row" where
  "continue_row column line r =
     (let value = (case map_of r column of None \<Rightarrow> [] | Some v \<Rightarrow> v)
      in bt_insert column (value @ [CHR 0x0A] @ line) r)"

definition row_line :: "str list \<Rightarrow> row list \<Rightarrow> str \<Rightarrow> row list result" where
  "row_line projection rows l =
     (let line = trim_end_matches (\<lambda>c. c = CHR 0x0D) l in
      case strip_prefix row_prefix line of
        None \<Rightarrow>
          if line = [] \<or> line = ''No result found.'' then Inr rows
          else if projection \<noteq> [] \<and> rows \<noteq> []
          then Inr (butlast rows @ [continue_row (last projection) line (last rows)])
          else Inl (unexpected_line line)
      | Some rest \<Rightarrow>
          (case split_once '' '' rest of
             None \<Rightarrow> Inl (without_fields line)
           | Some (_, flds) \<Rightarrow>
               (case parse_fields flds projection of
                  Inl e \<Rightarrow> Inl e
                | Inr r \<Rightarrow> Inr (rows @ [r]))))"

fun row_lines :: "str list \<Rightarrow> row list \<Rightarrow> str list \<Rightarrow> row list result" where
  "row_lines projection rows [] = Inr rows"
| "row_lines projection rows (l # ls) =
     (case row_line projection rows l of
        Inl e \<Rightarrow> Inl e
      | Inr rows' \<Rightarrow> row_lines projection rows' ls)"

definition parse_rows :: "str \<Rightarrow> str list \<Rightarrow> row list result" where
  "parse_rows output projection = row_lines projection [] (lines output)"

definition count_rows :: "str \<Rightarrow> nat" where
  "count_rows output = length (filter (starts_with row_prefix) (lines output))"

subsection \<open>Counting\<close>

lemma starts_with_pad:
  "c \<notin> set p \<Longrightarrow> starts_with p (s @ replicate n c) \<longleftrightarrow> starts_with p s"
proof (induction p s rule: strip_prefix.induct)
  case (2 p ps)
  then show ?case by (cases n) (auto simp: starts_with_def)
qed (simp_all add: starts_with_def)

lemma trim_end_matches_pad:
  "s = trim_end_matches (\<lambda>d. d = c) s @ replicate (length (takeWhile (\<lambda>d. d = c) (rev s))) c"
proof -
  let ?p = "\<lambda>d. d = c"
  have "replicate (length (takeWhile ?p (rev s))) c = rev (takeWhile ?p (rev s))"
    by (rule replicate_eqI [symmetric]) (auto dest: set_takeWhileD)
  moreover have "s = rev (takeWhile ?p (rev s) @ dropWhile ?p (rev s))"
    by (simp only: takeWhile_dropWhile_id rev_rev_ident)
  ultimately show ?thesis by (simp only: trim_end_matches_def rev_append)
qed

lemma row_prefix_trim:
  "strip_prefix row_prefix (trim_end_matches (\<lambda>c. c = CHR 0x0D) l) = None \<longleftrightarrow> \<not> starts_with row_prefix l"
proof -
  have "CHR 0x0D \<notin> set row_prefix" by (simp add: row_prefix_def)
  then have "starts_with row_prefix (trim_end_matches (\<lambda>c. c = CHR 0x0D) l) \<longleftrightarrow> starts_with row_prefix l"
    by (metis starts_with_pad trim_end_matches_pad)
  then show ?thesis unfolding starts_with_def by blast
qed

lemma row_line_count:
  "row_line projection rows l = Inr rows' \<Longrightarrow>
     length rows' = length rows + (if starts_with row_prefix l then 1 else 0)"
  using row_prefix_trim [of l]
  by (auto simp: row_line_def Let_def split: option.splits if_splits sum.splits)

lemma row_lines_count:
  "row_lines projection rows ls = Inr rows' \<Longrightarrow>
     length rows' = length rows + length (filter (starts_with row_prefix) ls)"
proof (induction ls arbitrary: rows)
  case Nil
  then show ?case by simp
next
  case (Cons l ls)
  then show ?case by (auto dest!: row_line_count split: sum.splits)
qed

subsection \<open>Printing rows\<close>

text \<open>What the \<open>content\<close> tool prints for the values of one row, and the row it stands for.\<close>

definition print_fields :: "str list \<Rightarrow> str list \<Rightarrow> str" where
  "print_fields projection vals = join '', '' (map (\<lambda>(c, v). c @ ''='' @ v) (zip projection vals))"

definition print_row :: "str list \<Rightarrow> str \<times> str list \<Rightarrow> str" where
  "print_row projection r =
     (case r of (n, vals) \<Rightarrow> row_prefix @ n @ '' '' @ print_fields projection vals @ [CHR 0x0A])"

definition row_of :: "str list \<Rightarrow> str list \<Rightarrow> row" where
  "row_of projection vals = foldl (\<lambda>r (c, v). bt_insert c v r) [] (zip projection vals)"

text \<open>
  All columns but the last hold one line without a comma; the last holds any lines, of which those
  after the first are not empty and do not look like a row or the empty-result notice.
\<close>

definition later_line_ok :: "str \<Rightarrow> bool" where
  "later_line_ok l \<longleftrightarrow> line_ok l \<and> l \<noteq> [] \<and> l \<noteq> ''No result found.'' \<and> \<not> starts_with row_prefix l"

definition free_text_ok :: "str \<Rightarrow> bool" where
  "free_text_ok v \<longleftrightarrow> (\<forall>l \<in> set (split_char (CHR 0x0A) v). line_ok l)
     \<and> (\<forall>l \<in> set (tl (split_char (CHR 0x0A) v)). later_line_ok l)"

definition row_ok :: "str list \<Rightarrow> str \<times> str list \<Rightarrow> bool" where
  "row_ok projection r \<longleftrightarrow>
     (case r of (n, vals) \<Rightarrow>
        CHR '' '' \<notin> set n \<and> CHR 0x0A \<notin> set n \<and> length vals = length projection
      \<and> (\<forall>v \<in> set (butlast vals). CHR '','' \<notin> set v \<and> CHR 0x0A \<notin> set v)
      \<and> free_text_ok (last vals))"

lemma take_fields_next:
  assumes "find_sub ('', '' @ d @ ''='') (v @ '', '' @ rest) = Some (length v)"
  shows "take_fields flds (c # d # ds) r ((c @ ''='') @ v @ '', '' @ rest)
     = take_fields flds (d # ds) (bt_insert c v r) rest"
proof -
  have "take (length v) (v @ '', '' @ rest) = v" "drop (length v + 2) (v @ '', '' @ rest) = rest"
    by simp_all
  then show ?thesis
    unfolding take_fields.simps(2) [of flds c "d # ds"] strip_prefix_append
    by (simp only: option.case list.case assms)
qed

lemma take_fields_print:
  assumes "length vals = length cols" and "cols \<noteq> []"
    and "\<forall>v \<in> set (butlast vals). CHR '','' \<notin> set v"
  shows "take_fields flds cols r (print_fields cols vals)
     = Inr (foldl (\<lambda>r (c, v). bt_insert c v r) r (zip cols vals))"
  using assms
proof (induction cols arbitrary: vals r)
  case Nil
  then show ?case by simp
next
  case (Cons c cols)
  then obtain v vs where vals: "vals = v # vs" "length vs = length cols" by (cases vals) auto
  show ?case
  proof (cases cols)
    case Nil
    have "strip_prefix (c @ ''='') (c @ ''='' @ v) = Some v"
      using strip_prefix_append [of "c @ ''=''" v] by simp
    with vals Nil show ?thesis by (simp add: print_fields_def)
  next
    case (Cons d ds)
    with vals obtain x xs where vs: "vs = x # xs" by (cases vs) auto
    define rest where "rest = print_fields cols vs"
    obtain rest' where rest: "rest = (d @ ''='') @ rest'"
      by (cases "zip ds xs") (auto simp: rest_def print_fields_def Cons vs)
    have printed: "print_fields (c # cols) vals = (c @ ''='') @ v @ '', '' @ rest"
      by (simp add: print_fields_def vals Cons vs rest_def)
    have comma: "CHR '','' \<notin> set v" "\<forall>v \<in> set (butlast vs). CHR '','' \<notin> set v"
      using Cons.prems(3) by (auto simp: vals vs)
    have found: "find_sub ('', '' @ d @ ''='') (v @ '', '' @ rest) = Some (length v)"
    proof -
      have "find_sub ('', '' @ d @ ''='') (v @ ('', '' @ d @ ''='') @ rest') = Some (length v)"
        using comma(1) find_sub_skip [of "'', '' @ d @ ''=''" v "('', '' @ d @ ''='') @ rest'"]
          find_sub_prefix [of "'', '' @ d @ ''=''" rest'] by simp
      then show ?thesis by (simp add: rest)
    qed
    have "take_fields flds (c # cols) r (print_fields (c # cols) vals)
        = take_fields flds cols (bt_insert c v r) rest"
      by (subst printed) (simp only: Cons take_fields_next [OF found])
    with Cons.IH [of vs "bt_insert c v r"] vals(2) comma(2) Cons show ?thesis
      by (simp add: rest_def vals(1))
  qed
qed

lemma bt_insert_twice [simp]: "bt_insert k w (bt_insert k v m) = bt_insert k w m"
  by (induction m) auto

lemma row_of_last:
  assumes "length vals = length cols" and "cols \<noteq> []"
  shows "row_of cols vals = bt_insert (last cols) (last vals) (row_of (butlast cols) (butlast vals))"
proof -
  obtain cs c where c: "cols = cs @ [c]" using assms(2) by (cases cols rule: rev_cases) auto
  with assms obtain vs v where v: "vals = vs @ [v]" by (cases vals rule: rev_cases) auto
  with assms(1) c show ?thesis by (simp add: row_of_def)
qed

lemma join_snoc: "xs \<noteq> [] \<Longrightarrow> join sep (xs @ [x]) = join sep xs @ sep @ x"
  by (induction sep xs rule: join.induct) (auto split: list.splits)

lemma join_lines: "join [c] (x # xs) = x @ concat (map ((#) c) xs)"
  by (induction xs arbitrary: x) auto

text \<open>The printed fields end with the last value, after an equals sign.\<close>

lemma print_fields_last:
  assumes "length vals = length cols" and "cols \<noteq> []"
  obtains pre where "\<And>v. print_fields cols (butlast vals @ [v]) = pre @ v" and "last pre = CHR ''=''" and "pre \<noteq> []"
    and "set pre \<subseteq> set '', ='' \<union> \<Union> (set ` set cols) \<union> \<Union> (set ` set (butlast vals))"
proof -
  obtain cs c where c: "cols = cs @ [c]" using assms(2) by (cases cols rule: rev_cases) auto
  define ps where "ps = map (\<lambda>(c, v). c @ ''='' @ v) (zip cs (butlast vals))"
  define pre where "pre = (if ps = [] then [] else join '', '' ps @ '', '') @ c @ ''=''"
  have len: "length cs = length (butlast vals)" using assms(1) by (simp add: c)
  have "print_fields cols (butlast vals @ [v]) = pre @ v" for v
    using len join_snoc [of ps "'', ''" "c @ ''='' @ v"]
    by (auto simp: print_fields_def c ps_def pre_def)
  moreover have "set pre \<subseteq> set '', ='' \<union> \<Union> (set ` set cols) \<union> \<Union> (set ` set (butlast vals))"
  proof -
    have "\<Union> (set ` set ps) \<subseteq> {CHR ''=''} \<union> \<Union> (set ` set cols) \<union> \<Union> (set ` set (butlast vals))"
      by (fastforce simp: ps_def c dest: set_zip_leftD set_zip_rightD)
    with set_join [of "'', ''" ps]
    have "set (join '', '' ps) \<subseteq> set '', ='' \<union> \<Union> (set ` set cols) \<union> \<Union> (set ` set (butlast vals))"
      by (fastforce simp only: set_simps Un_iff insert_iff subset_iff)
    moreover have "set pre \<subseteq> set (join '', '' ps) \<union> set '', ='' \<union> set c" by (auto simp: pre_def)
    moreover have "set c \<subseteq> \<Union> (set ` set cols)" by (auto simp: c)
    ultimately show ?thesis by blast
  qed
  ultimately show ?thesis by (intro that [of pre]) (simp_all add: pre_def)
qed

lemma lines_join:
  assumes "ls \<noteq> []" and "\<forall>l \<in> set (tl ls). line_ok l" and "line_ok (pre @ hd ls)"
  shows "lines (pre @ join [CHR 0x0A] ls @ CHR 0x0A # s) = (pre @ hd ls) # tl ls @ lines s"
  using assms
proof (induction "[CHR 0x0A]" ls arbitrary: pre rule: join.induct)
  case 1
  then show ?case by simp
next
  case (2 x)
  from lines_line [of "pre @ x" s] 2 show ?case by simp
next
  case (3 x y zs)
  from 3(1) [of "[]"] 3(3) lines_line [of "pre @ x" "join [CHR 0x0A] (y # zs) @ CHR 0x0A # s"] 3(4)
  show ?case by simp
qed

text \<open>A first line makes a row; the lines after it extend its last column.\<close>

lemma row_line_fields:
  assumes "line_ok (row_prefix @ n @ '' '' @ flds)" and "CHR '' '' \<notin> set n"
    and "parse_fields flds cols = Inr r"
  shows "row_line cols rows (row_prefix @ n @ '' '' @ flds) = Inr (rows @ [r])"
proof -
  have "split_once '' '' (n @ '' '' @ flds) = Some (n, flds)"
    using assms(2) split_once_single [of "CHR '' ''" n flds] by simp
  then show ?thesis
    by (simp only: row_line_def trim_line [OF assms(1)] Let_def strip_prefix_append option.case prod.case
        assms(3) sum.case)
qed

lemma row_lines_continue:
  assumes "\<forall>l \<in> set ls. later_line_ok l" and "cols \<noteq> []"
  shows "row_lines cols (rows @ [bt_insert (last cols) v r]) (ls @ more_lines)
     = row_lines cols (rows @ [bt_insert (last cols) (v @ concat (map ((#) (CHR 0x0A)) ls)) r]) more_lines"
  using assms(1)
proof (induction ls arbitrary: v)
  case Nil
  then show ?case by simp
next
  case (Cons l ls)
  then have l: "line_ok l" "l \<noteq> []" "l \<noteq> ''No result found.''" "strip_prefix row_prefix l = None"
    by (simp_all add: later_line_ok_def starts_with_def)
  have "row_line cols (rows @ [bt_insert (last cols) v r]) l
      = Inr (rows @ [bt_insert (last cols) (v @ CHR 0x0A # l) r])"
    using l assms(2) by (simp add: row_line_def continue_row_def Let_def)
  with Cons show ?case by simp
qed

lemma parse_row:
  assumes "row_ok cols (n, vals)" and "cols \<noteq> []" and "\<forall>c \<in> set cols. CHR 0x0A \<notin> set c"
  shows "row_lines cols rows (lines (print_row cols (n, vals) @ s))
     = row_lines cols (rows @ [row_of cols vals]) (lines s)"
proof -
  have vals: "length vals = length cols" "\<forall>v \<in> set (butlast vals). CHR '','' \<notin> set v \<and> CHR 0x0A \<notin> set v"
    and n: "CHR '' '' \<notin> set n" "CHR 0x0A \<notin> set n" and free: "free_text_ok (last vals)"
    using assms(1) by (simp_all add: row_ok_def)
  then have "vals \<noteq> []" using assms(2) by auto
  then have ends: "butlast vals @ [last vals] = vals" by simp
  obtain x ls where ls: "split_char (CHR 0x0A) (last vals) = x # ls"
    by (cases "split_char (CHR 0x0A) (last vals)") auto
  then have v: "last vals = join [CHR 0x0A] (x # ls)" by (metis join_split_char)
  have x: "line_ok x" "\<forall>l \<in> set ls. later_line_ok l"
    using free by (simp_all add: free_text_ok_def ls)
  obtain pre where pre: "\<And>v. print_fields cols (butlast vals @ [v]) = pre @ v" "last pre = CHR ''=''" "pre \<noteq> []"
    "set pre \<subseteq> set '', ='' \<union> \<Union> (set ` set cols) \<union> \<Union> (set ` set (butlast vals))"
    using print_fields_last [OF vals(1) assms(2)] by blast
  have "CHR 0x0A \<notin> set pre" using pre(4) assms(3) vals(2) by fastforce
  then have line: "line_ok (row_prefix @ n @ '' '' @ pre @ x)"
    using x(1) n(2) pre(2,3) by (cases "x = []") (auto simp: line_ok_def row_prefix_def)
  have "print_row cols (n, vals) @ s
      = (row_prefix @ n @ '' '' @ pre) @ join [CHR 0x0A] (x # ls) @ CHR 0x0A # s"
    using pre(1) [of "last vals"] by (simp add: print_row_def ends flip: v)
  then have lines: "lines (print_row cols (n, vals) @ s) = (row_prefix @ n @ '' '' @ pre @ x) # ls @ lines s"
    using lines_join [of "x # ls" "row_prefix @ n @ '' '' @ pre" s] line x(2)
    by (simp add: later_line_ok_def)
  let ?r = "row_of (butlast cols) (butlast vals)"
  have "parse_fields (pre @ x) cols = Inr (row_of cols (butlast vals @ [x]))"
    using take_fields_print [of "butlast vals @ [x]" cols] vals assms(2)
    by (simp add: parse_fields_def row_of_def flip: pre(1))
  also have "row_of cols (butlast vals @ [x]) = bt_insert (last cols) x ?r"
    using row_of_last [of "butlast vals @ [x]" cols] vals(1) assms(2) by simp
  finally have "row_line cols rows (row_prefix @ n @ '' '' @ pre @ x) = Inr (rows @ [bt_insert (last cols) x ?r])"
    by (rule row_line_fields [OF line n(1)])
  then have "row_lines cols rows (lines (print_row cols (n, vals) @ s))
      = row_lines cols (rows @ [bt_insert (last cols) x ?r]) (ls @ lines s)"
    by (simp add: lines)
  also have "\<dots> = row_lines cols (rows @ [bt_insert (last cols) (last vals) ?r]) (lines s)"
    using row_lines_continue [OF x(2) assms(2)] by (simp add: v join_lines)
  finally show ?thesis using row_of_last [OF vals(1) assms(2)] by simp
qed

lemma parse_printed_rows:
  assumes "\<forall>r \<in> set rs. row_ok cols r" and "cols \<noteq> []" and "\<forall>c \<in> set cols. CHR 0x0A \<notin> set c"
  shows "row_lines cols rows (lines (concat (map (print_row cols) rs)))
     = Inr (rows @ map (row_of cols \<circ> snd) rs)"
  using assms(1)
proof (induction rs arbitrary: rows)
  case Nil
  then show ?case by simp
next
  case (Cons r rs)
  obtain n vals where r: "r = (n, vals)" by (cases r)
  show ?case
    using Cons parse_row [of cols n vals rows "concat (map (print_row cols) rs)"] assms(2,3)
    by (simp add: r)
qed

subsection \<open>Properties\<close>

text \<open>
  The shell splits the command of a query into exactly the tool's words and the caller's strings:
  no uri, column or argument can break out of its word.
\<close>

lemma query_command_words:
  "sh_split (query_command uri projection extra) = Some ([''content'', ''query'', ''--uri'', uri]
     @ (if projection = [] then [] else [''--projection'', join '':'' projection]) @ extra)"
proof -
  let ?words = "[''content'', ''query'', ''--uri'', uri]
     @ (if projection = [] then [] else [''--projection'', join '':'' projection]) @ extra"
  have plain: "quote ''content'' = ''content''" "quote ''query'' = ''query''" "quote ''--uri'' = ''--uri''"
    "quote ''--projection'' = ''--projection''"
    by (simp_all add: quote_def ascii_alnum_def)
  have "query_command uri projection extra = join '' '' (map quote ?words)"
    by (simp add: query_command_def plain join_lines comp_def del: join.simps)
  then show ?thesis by (simp only: sh_split_quotes)
qed

text \<open>
  The rows the \<open>content\<close> tool prints for a projection are parsed back column by column, where
  the last column may hold commas and several lines.
\<close>

lemma content_roundtrip:
  assumes "\<forall>r \<in> set rs. row_ok projection r" and "projection \<noteq> []"
    and "\<forall>c \<in> set projection. CHR 0x0A \<notin> set c"
  shows "parse_rows (concat (map (print_row projection) rs)) projection = Inr (map (row_of projection \<circ> snd) rs)"
  using parse_printed_rows [OF assms, of "[]"] by (simp add: parse_rows_def)

text \<open>
  Whenever parsing succeeds, the number of rows is the number \<open>count_rows\<close> gives for the same
  output, so the cross-check of a query compares like with like.
\<close>

lemma content_rows_counted:
  assumes "parse_rows output projection = Inr rows"
  shows "count_rows output = length rows"
  using assms row_lines_count by (fastforce simp: parse_rows_def count_rows_def)

text \<open>
  An empty line inside the last column is lost: a message written as two lines with a blank line
  between them comes back as two adjacent lines, for any texts.
\<close>

lemma content_blank_line_lost:
  assumes "row_ok [c] (n, [a @ CHR 0x0A # b])" and "CHR 0x0A \<notin> set a" and "CHR 0x0A \<notin> set c"
  shows "parse_rows (print_row [c] (n, [a @ CHR 0x0A # CHR 0x0A # b])) [c]
     = parse_rows (print_row [c] (n, [a @ CHR 0x0A # b])) [c]"
proof -
  have "split_char (CHR 0x0A) (a @ CHR 0x0A # b) = a # split_char (CHR 0x0A) b"
    using assms(2) by (rule split_char_append)
  then have a: "line_ok a" and n: "CHR 0x0A \<notin> set n"
    using assms(1) by (simp_all add: row_ok_def free_text_ok_def)
  define pre where "pre = row_prefix @ n @ '' '' @ c @ ''=''"
  have "line_ok (pre @ a)" using a n assms(3) by (auto simp: pre_def line_ok_def row_prefix_def)
  from lines_line [OF this] have split: "lines (pre @ a @ CHR 0x0A # r) = (pre @ a) # lines r" for r by simp
  have "lines (CHR 0x0A # r) = [] # lines r" for r using lines_line [of "[]" r] by (simp add: line_ok_def)
  moreover have "row_line [c] rows [] = Inr rows" for rows
    by (simp add: row_line_def row_prefix_def trim_end_matches_def Let_def)
  ultimately show ?thesis
    using split by (simp add: parse_rows_def print_row_def print_fields_def pre_def split: sum.split)
qed

end
