(* ===== verification/Sync_Codec.thy ===== *)
theory Sync_Codec
  imports Content "HOL-Library.Monad_Syntax"
begin

unbundle bit_operations_syntax

section \<open>The sync sub-protocol's layouts\<close>

text \<open>
  \<open>src/services/sync/codec.rs\<close> and \<open>src/services/sync/entry.rs\<close>: ids, requests, the fixed stat and
  directory-entry headers, and the types they decode to. A field that lies outside the buffer is
  \<open>None\<close>, where the code would panic. The lemmas show that decoding inverts the encoders the
  device side uses, exactly for the 64-bit layout and up to the 32-bit fields for the old one.
\<close>

subsection \<open>Stats and entries\<close>

record stat_detail =
  sd_dev :: u64
  sd_ino :: u64
  sd_nlink :: u32
  sd_uid :: u32
  sd_gid :: u32
  sd_atime :: i64
  sd_ctime :: i64

record stat =
  st_mode :: u32
  st_size :: u64
  st_mtime :: i64
  st_error :: "u32 option"
  st_detail :: "stat_detail option"

record entry =
  en_name :: str
  en_mode :: u32
  en_size :: u64
  en_mtime :: i64

definition S_IFMT :: u32 where "S_IFMT = 0xF000"
definition S_IFDIR :: u32 where "S_IFDIR = 0x4000"
definition S_IFREG :: u32 where "S_IFREG = 0x8000"
definition S_IFLNK :: u32 where "S_IFLNK = 0xA000"

definition stat_exists :: "stat \<Rightarrow> bool" where
  "stat_exists st \<longleftrightarrow> st_mode st \<noteq> 0 \<and> (case st_error st of None \<Rightarrow> True | Some e \<Rightarrow> e = 0)"

definition stat_is_dir :: "stat \<Rightarrow> bool" where
  "stat_is_dir st \<longleftrightarrow> st_mode st AND S_IFMT = S_IFDIR"

definition stat_is_file :: "stat \<Rightarrow> bool" where
  "stat_is_file st \<longleftrightarrow> st_mode st AND S_IFMT = S_IFREG"

definition entry_is_dir :: "entry \<Rightarrow> bool" where
  "entry_is_dir en \<longleftrightarrow> en_mode en AND S_IFMT = S_IFDIR"

definition entry_is_symlink :: "entry \<Rightarrow> bool" where
  "entry_is_symlink en \<longleftrightarrow> en_mode en AND S_IFMT = S_IFLNK"

subsection \<open>Ids and requests\<close>

definition LIST_ID :: bytes where "LIST_ID = as_bytes ''LIST''"
definition LIS2_ID :: bytes where "LIS2_ID = as_bytes ''LIS2''"
definition DENT_ID :: bytes where "DENT_ID = as_bytes ''DENT''"
definition DNT2_ID :: bytes where "DNT2_ID = as_bytes ''DNT2''"
definition STAT_ID :: bytes where "STAT_ID = as_bytes ''STAT''"
definition STA2_ID :: bytes where "STA2_ID = as_bytes ''STA2''"
definition RECV_ID :: bytes where "RECV_ID = as_bytes ''RECV''"
definition RCV2_ID :: bytes where "RCV2_ID = as_bytes ''RCV2''"
definition SEND_ID :: bytes where "SEND_ID = as_bytes ''SEND''"
definition SND2_ID :: bytes where "SND2_ID = as_bytes ''SND2''"
definition DATA_ID :: bytes where "DATA_ID = as_bytes ''DATA''"
definition DONE_ID :: bytes where "DONE_ID = as_bytes ''DONE''"
definition OKAY_ID :: bytes where "OKAY_ID = as_bytes ''OKAY''"
definition FAIL_ID :: bytes where "FAIL_ID = as_bytes ''FAIL''"
definition QUIT_ID :: bytes where "QUIT_ID = as_bytes ''QUIT''"

lemmas sync_ids = LIST_ID_def LIS2_ID_def DENT_ID_def DNT2_ID_def STAT_ID_def STA2_ID_def RECV_ID_def
  RCV2_ID_def SEND_ID_def SND2_ID_def DATA_ID_def DONE_ID_def OKAY_ID_def FAIL_ID_def QUIT_ID_def

definition DATA_MAX :: nat where "DATA_MAX = 64 * 1024"
definition STAT_V1_LEN :: nat where "STAT_V1_LEN = 16"
definition STAT_V2_LEN :: nat where "STAT_V2_LEN = 72"
definition DENT_V1_LEN :: nat where "DENT_V1_LEN = 20"
definition DENT_V2_LEN :: nat where "DENT_V2_LEN = 76"

lemma sync_id_length [simp]:
  "length LIST_ID = 4" "length LIS2_ID = 4" "length DENT_ID = 4" "length DNT2_ID = 4" "length STAT_ID = 4"
  "length STA2_ID = 4" "length RECV_ID = 4" "length RCV2_ID = 4" "length SEND_ID = 4" "length SND2_ID = 4"
  "length DATA_ID = 4" "length DONE_ID = 4" "length OKAY_ID = 4" "length FAIL_ID = 4" "length QUIT_ID = 4"
  by (simp_all add: sync_ids)

lemma sync_id_distinct [simp]:
  "DATA_ID \<noteq> FAIL_ID" "FAIL_ID \<noteq> DATA_ID" "DONE_ID \<noteq> DATA_ID" "DONE_ID \<noteq> FAIL_ID" "FAIL_ID \<noteq> DONE_ID"
  "DENT_ID \<noteq> DONE_ID" "DENT_ID \<noteq> FAIL_ID" "DNT2_ID \<noteq> DONE_ID" "DNT2_ID \<noteq> FAIL_ID"
  "OKAY_ID \<noteq> FAIL_ID" "FAIL_ID \<noteq> OKAY_ID" "DATA_ID \<noteq> DONE_ID"
  by (simp_all add: sync_ids del: list.map)

definition path_too_long :: error where
  "path_too_long = InvalidArgument (Lit ''path longer than u32::MAX'')"

definition sync_request :: "bytes \<Rightarrow> str \<Rightarrow> bytes result" where
  "sync_request i path =
     (if length path < 2 ^ 32
      then Inr (i @ u32_to_le (word_of_nat (length path)) @ as_bytes path)
      else Inl path_too_long)"

definition sync_word :: "bytes \<Rightarrow> u32 \<Rightarrow> bytes" where
  "sync_word i v = i @ u32_to_le v"

subsection \<open>Reading fields\<close>

definition u32_at :: "bytes \<Rightarrow> nat \<Rightarrow> u32 option" where
  "u32_at b at = (if at + 4 \<le> length b then Some (u32_from_le (take 4 (drop at b))) else None)"

definition u64_at :: "bytes \<Rightarrow> nat \<Rightarrow> u64 option" where
  "u64_at b at = (if at + 8 \<le> length b then Some (u64_from_le (take 8 (drop at b))) else None)"

definition i64_at :: "bytes \<Rightarrow> nat \<Rightarrow> i64 option" where
  "i64_at b at = map_option (\<lambda>w. u64_from_le (u64_to_le w)) (u64_at b at)"

definition stat_v1 :: "bytes \<Rightarrow> stat option" where
  "stat_v1 b = do {
     m \<leftarrow> u32_at b 4;
     sz \<leftarrow> u32_at b 8;
     t \<leftarrow> u32_at b 12;
     Some \<lparr>st_mode = m, st_size = ucast sz, st_mtime = ucast t, st_error = None, st_detail = None\<rparr>
   }"

definition stat_v2 :: "bytes \<Rightarrow> stat option" where
  "stat_v2 b = do {
     dev \<leftarrow> u64_at b 8;
     ino \<leftarrow> u64_at b 16;
     nlink \<leftarrow> u32_at b 28;
     uid \<leftarrow> u32_at b 32;
     gid \<leftarrow> u32_at b 36;
     atime \<leftarrow> i64_at b 48;
     ctime \<leftarrow> i64_at b 64;
     m \<leftarrow> u32_at b 24;
     sz \<leftarrow> u64_at b 40;
     mtime \<leftarrow> i64_at b 56;
     err \<leftarrow> u32_at b 4;
     Some \<lparr>st_mode = m, st_size = sz, st_mtime = mtime, st_error = Some err,
       st_detail = Some \<lparr>sd_dev = dev, sd_ino = ino, sd_nlink = nlink, sd_uid = uid, sd_gid = gid,
         sd_atime = atime, sd_ctime = ctime\<rparr>\<rparr>
   }"

definition dent_v1_namelen :: "bytes \<Rightarrow> nat option" where
  "dent_v1_namelen b = map_option unat (u32_at b 16)"

definition dent_v2_namelen :: "bytes \<Rightarrow> nat option" where
  "dent_v2_namelen b = map_option unat (u32_at b 72)"

definition entry_of :: "stat \<Rightarrow> bytes \<Rightarrow> entry" where
  "entry_of st name =
     \<lparr>en_name = utf8_lossy name, en_mode = st_mode st, en_size = st_size st, en_mtime = st_mtime st\<rparr>"

subsection \<open>The encoders\<close>

definition u32_of_u64 :: "u64 \<Rightarrow> u32 option" where
  "u32_of_u64 v = (if unat v < 2 ^ 32 then Some (ucast v) else None)"

definition u32_of_i64 :: "i64 \<Rightarrow> u32 option" where
  "u32_of_i64 v = (if 0 \<le> sint v \<and> sint v < 2 ^ 32 then Some (ucast v) else None)"

definition unwrap_or :: "'a \<Rightarrow> 'a option \<Rightarrow> 'a" where
  "unwrap_or d x = (case x of None \<Rightarrow> d | Some v \<Rightarrow> v)"

definition no_detail :: stat_detail where
  "no_detail = \<lparr>sd_dev = 0, sd_ino = 0, sd_nlink = 0, sd_uid = 0, sd_gid = 0, sd_atime = 0, sd_ctime = 0\<rparr>"

definition encode_stat_v1 :: "bytes \<Rightarrow> stat \<Rightarrow> bytes" where
  "encode_stat_v1 i st =
     i @ u32_to_le (st_mode st) @ u32_to_le (unwrap_or 0xFFFFFFFF (u32_of_u64 (st_size st)))
     @ u32_to_le (unwrap_or 0 (u32_of_i64 (st_mtime st)))"

definition encode_stat_v2 :: "bytes \<Rightarrow> stat \<Rightarrow> bytes" where
  "encode_stat_v2 i st =
     (let d = unwrap_or no_detail (st_detail st) in
      i @ u32_to_le (unwrap_or 0 (st_error st)) @ u64_to_le (sd_dev d) @ u64_to_le (sd_ino d)
      @ u32_to_le (st_mode st) @ u32_to_le (sd_nlink d) @ u32_to_le (sd_uid d) @ u32_to_le (sd_gid d)
      @ u64_to_le (st_size st) @ u64_to_le (sd_atime d) @ u64_to_le (st_mtime st) @ u64_to_le (sd_ctime d))"

subsection \<open>Decoding what was encoded\<close>

lemma u32_at_skip [simp]: "length xs \<le> n \<Longrightarrow> u32_at (xs @ ys) n = u32_at ys (n - length xs)"
  by (auto simp: u32_at_def)

lemma u64_at_skip [simp]: "length xs \<le> n \<Longrightarrow> u64_at (xs @ ys) n = u64_at ys (n - length xs)"
  by (auto simp: u64_at_def)

lemma u32_at_here [simp]: "u32_at (u32_to_le w @ ys) 0 = Some w" "u32_at (u32_to_le w) 0 = Some w"
  by (simp_all add: u32_at_def)

lemma u64_at_here [simp]: "u64_at (u64_to_le w @ ys) 0 = Some w" "u64_at (u64_to_le w) 0 = Some w"
  by (simp_all add: u64_at_def)

lemma i64_at_u64 [simp]: "i64_at b n = u64_at b n"
  by (simp add: i64_at_def option.map_ident)

lemma length_encode_stat_v1 [simp]: "length (encode_stat_v1 i st) = length i + 12"
  by (simp add: encode_stat_v1_def)

lemma length_encode_stat_v2 [simp]: "length (encode_stat_v2 i st) = length i + 68"
  by (simp add: encode_stat_v2_def Let_def)

text \<open>What the 32-bit layout can carry, and what is left of a stat after a round trip through it.\<close>

definition stat_narrow :: "stat \<Rightarrow> stat" where
  "stat_narrow st = st\<lparr>
     st_size := (if unat (st_size st) < 2 ^ 32 then st_size st else 0xFFFFFFFF),
     st_mtime := (if 0 \<le> sint (st_mtime st) \<and> sint (st_mtime st) < 2 ^ 32 then st_mtime st else 0),
     st_error := None, st_detail := None\<rparr>"

definition stat_full :: "stat \<Rightarrow> stat" where
  "stat_full st = st\<lparr>st_error := Some (unwrap_or 0 (st_error st)),
     st_detail := Some (unwrap_or no_detail (st_detail st))\<rparr>"

lemma ucast_u64_small: "unat (v :: u64) < 2 ^ 32 \<Longrightarrow> ucast (ucast v :: u32) = v"
  by (simp add: word_unat_eq_iff unsigned_ucast_eq unsigned_take_bit_eq take_bit_nat_def)

lemma sint_small_unat:
  assumes "0 \<le> sint (v :: i64)" and "sint v < 2 ^ 32"
  shows "unat v < 2 ^ 32"
proof -
  have "uint v = take_bit 64 (sint v)" using uint_sint [of v] by simp
  also have "\<dots> = sint v" using assms by (intro take_bit_int_eq_self) simp_all
  finally have "int (unat v) < int (2 ^ 32)" using assms(2) by simp
  then show ?thesis by (simp only: of_nat_less_iff)
qed

lemma stat_v1_decode:
  "length i = 4 \<Longrightarrow> stat_v1 (encode_stat_v1 i st @ rest) = Some (stat_narrow st)"
  using ucast_u64_small sint_small_unat
  by (auto simp: stat_v1_def encode_stat_v1_def stat_narrow_def unwrap_or_def u32_of_u64_def u32_of_i64_def)

lemma stat_v2_decode:
  "length i = 4 \<Longrightarrow> stat_v2 (encode_stat_v2 i st @ rest) = Some (stat_full st)"
  by (simp add: stat_v2_def encode_stat_v2_def stat_full_def Let_def)

end
