(* ===== verification/Sync.thy ===== *)
theory Sync
  imports Sync_Codec
begin

section \<open>The sync client\<close>

text \<open>
  \<open>src/services/sync/mod.rs\<close>: \<open>SyncClient\<close> over any channel, with the reader's buffer and the
  world as its state and the negotiated features as an argument. Inside the locale \<open>channel\<close> each
  operation is determined by the bytes the device sends; the properties put a device's encoded
  replies there.
\<close>

subsection \<open>Features\<close>

record sync_features =
  ls_v2 :: bool
  stat_v2_ok :: bool
  sendrecv_v2 :: bool

definition from_features :: "str list \<Rightarrow> sync_features" where
  "from_features fts =
     \<lparr>ls_v2 = (''ls_v2'' \<in> set fts), stat_v2_ok = (''stat_v2'' \<in> set fts),
      sendrecv_v2 = (''sendrecv_v2'' \<in> set fts)\<rparr>"

subsection \<open>Replies\<close>

definition sync_send :: "('w, 'h) channel_ops \<Rightarrow> 'h \<Rightarrow> bytes \<Rightarrow> ('w reading, unit) comp" where
  "sync_send C h bs = on_world (ch_send C h bs)"

definition read_id :: "('w, 'h) channel_ops \<Rightarrow> 'h \<Rightarrow> ('w reading, bytes) comp" where
  "read_id C h = read_exact C h 4"

text \<open>\<open>Err(self.fail().await)\<close>: the message, or what went wrong reading it.\<close>

definition sync_fail :: "('w, 'h) channel_ops \<Rightarrow> 'h \<Rightarrow> ('w reading, 'a) comp" where
  "sync_fail C h =
     and_then (read_u32 C h) (\<lambda>len.
     and_then (read_exact C h (unat len)) (\<lambda>msg.
     throw (RemoteFailure (Lit (utf8_lossy msg)))))"

definition unexpected_reply :: "bytes \<Rightarrow> error" where
  "unexpected_reply i = Protocol (Fmt ''unexpected sync reply {}'' [Txt (utf8_lossy i)])"

definition read_status :: "('w, 'h) channel_ops \<Rightarrow> 'h \<Rightarrow> ('w reading, unit) comp" where
  "read_status C h =
     and_then (read_id C h) (\<lambda>i.
       if i = OKAY_ID then and_then (read_u32 C h) (\<lambda>_. ret ())
       else if i = FAIL_ID then sync_fail C h
       else throw (unexpected_reply i))"

definition wrong_id :: "bytes \<Rightarrow> bytes \<Rightarrow> error" where
  "wrong_id want got = Protocol (Fmt ''expected {} got {}'' [Txt (utf8_lossy want), Txt (utf8_lossy got)])"

definition expect_id :: "bytes \<Rightarrow> bytes \<Rightarrow> unit result" where
  "expect_id b want = (if take 4 b = want then Inr () else Inl (wrong_id want (take 4 b)))"

text \<open>A field of a header; reading past its end would panic.\<close>

definition unwrap :: "'a option \<Rightarrow> ('s, 'a) comp" where
  "unwrap x = (case x of None \<Rightarrow> panic | Some v \<Rightarrow> ret v)"

subsection \<open>Stat and list\<close>

definition sync_stat ::
  "('w, 'h) channel_ops \<Rightarrow> 'h \<Rightarrow> sync_features \<Rightarrow> str \<Rightarrow> ('w reading, stat) comp" where
  "sync_stat C h F path =
     (if stat_v2_ok F then
        and_then (of_result (sync_request STA2_ID path)) (\<lambda>req.
        and_then (sync_send C h req) (\<lambda>_.
        and_then (read_exact C h STAT_V2_LEN) (\<lambda>b.
        and_then (of_result (expect_id b STA2_ID)) (\<lambda>_.
        unwrap (stat_v2 b)))))
      else
        and_then (of_result (sync_request STAT_ID path)) (\<lambda>req.
        and_then (sync_send C h req) (\<lambda>_.
        and_then (read_exact C h STAT_V1_LEN) (\<lambda>b.
        and_then (of_result (expect_id b STAT_ID)) (\<lambda>_.
        unwrap (stat_v1 b))))))"

definition list_request_id :: "sync_features \<Rightarrow> bytes" where
  "list_request_id F = (if ls_v2 F then LIS2_ID else LIST_ID)"

definition dent_id :: "sync_features \<Rightarrow> bytes" where
  "dent_id F = (if ls_v2 F then DNT2_ID else DENT_ID)"

definition dent_len :: "sync_features \<Rightarrow> nat" where
  "dent_len F = (if ls_v2 F then DENT_V2_LEN else DENT_V1_LEN)"

text \<open>The message of a failed listing: what follows the id and the length in the header read.\<close>

definition list_failure :: "bytes \<Rightarrow> error" where
  "list_failure b =
     RemoteFailure (Lit (trim_end_matches (\<lambda>c. c = CHR 0x00) (utf8_lossy (drop 8 b))))"

definition dent_fields :: "sync_features \<Rightarrow> bytes \<Rightarrow> (stat \<times> nat) option" where
  "dent_fields F b =
     (if ls_v2 F
      then do { st \<leftarrow> stat_v2 b; n \<leftarrow> dent_v2_namelen b; Some (st, n) }
      else do { st \<leftarrow> stat_v1 b; n \<leftarrow> dent_v1_namelen b; Some (st, n) })"

partial_function (option) list_loop ::
  "('w, 'h) channel_ops \<Rightarrow> 'h \<Rightarrow> sync_features \<Rightarrow> entry list \<Rightarrow> 'w reading
     \<Rightarrow> (entry list result \<times> 'w reading) option" where
  "list_loop C h F entries s =
     and_then (read_exact C h (dent_len F)) (\<lambda>b s.
       if take 4 b = DONE_ID then ret entries s
       else if take 4 b = FAIL_ID then throw (list_failure b) s
       else
         and_then (of_result (expect_id b (dent_id F))) (\<lambda>_.
         and_then (unwrap (dent_fields F b)) (\<lambda>head.
         and_then (read_exact C h (snd head)) (\<lambda>name.
         list_loop C h F (entries @ [entry_of (fst head) name])))) s) s"

definition sync_list ::
  "('w, 'h) channel_ops \<Rightarrow> 'h \<Rightarrow> sync_features \<Rightarrow> str \<Rightarrow> ('w reading, entry list) comp" where
  "sync_list C h F path =
     and_then (of_result (sync_request (list_request_id F) path)) (\<lambda>req.
     and_then (sync_send C h req) (\<lambda>_.
     list_loop C h F []))"

subsection \<open>Pull\<close>

definition chunk_too_big :: "nat \<Rightarrow> error" where
  "chunk_too_big len = Protocol (Fmt ''DATA chunk of {len} bytes exceeds {DATA_MAX}'' [Num (int len), Num (int DATA_MAX)])"

definition next_data :: "('w, 'h) channel_ops \<Rightarrow> 'h \<Rightarrow> ('w reading, bytes option) comp" where
  "next_data C h =
     and_then (read_id C h) (\<lambda>i.
       if i = DATA_ID then
         and_then (read_u32 C h) (\<lambda>len.
           if DATA_MAX < unat len then throw (chunk_too_big (unat len))
           else and_then (read_exact C h (unat len)) (\<lambda>bs. ret (Some bs)))
       else if i = DONE_ID then and_then (read_u32 C h) (\<lambda>_. ret None)
       else if i = FAIL_ID then sync_fail C h
       else throw (unexpected_reply i))"

definition start_pull ::
  "('w, 'h) channel_ops \<Rightarrow> 'h \<Rightarrow> sync_features \<Rightarrow> str \<Rightarrow> ('w reading, unit) comp" where
  "start_pull C h F path =
     (if sendrecv_v2 F then
        and_then (of_result (sync_request RCV2_ID path)) (\<lambda>req.
        and_then (sync_send C h req) (\<lambda>_.
        sync_send C h (sync_word RCV2_ID 0)))
      else
        and_then (of_result (sync_request RECV_ID path)) (sync_send C h))"

text \<open>
  The stream of \<open>pull\<close> is \<open>unfold\<close> over the client and a flag that an error ended it: one step gives
  the next item, if any, and the flag after it.
\<close>

definition pull_item ::
  "('w, 'h) channel_ops \<Rightarrow> 'h \<Rightarrow> bool \<Rightarrow> 'w reading \<Rightarrow> ((bytes result \<times> bool) option \<times> 'w reading) option" where
  "pull_item C h over s =
     (if over then Some (None, s)
      else case next_data C h s of
             None \<Rightarrow> None
           | Some (Inr (Some chunk), s') \<Rightarrow> Some (Some (Inr chunk, False), s')
           | Some (Inr None, s') \<Rightarrow> Some (None, s')
           | Some (Inl e, s') \<Rightarrow> Some (Some (Inl e, True), s'))"

subsection \<open>Push\<close>

text \<open>The source is read while the client writes, so a push runs on the pair of both.\<close>

definition on_client :: "('c, 'a) comp \<Rightarrow> ('c \<times> 'r, 'a) comp" where
  "on_client = on_part fst (\<lambda>c s. (c, snd s))"

definition on_source :: "('r, 'a) comp \<Rightarrow> ('c \<times> 'r, 'a) comp" where
  "on_source = on_part snd (\<lambda>r s. (fst s, r))"

definition chunk_too_large :: error where
  "chunk_too_large = Protocol (Lit ''chunk too large'')"

partial_function (option) push_loop ::
  "('w, 'h) channel_ops \<Rightarrow> 'h \<Rightarrow> 'r async_read \<Rightarrow> 'w reading \<times> 'r
     \<Rightarrow> (unit result \<times> ('w reading \<times> 'r)) option" where
  "push_loop C h R s =
     and_then (on_source (io_err Io (ar_read R DATA_MAX))) (\<lambda>bs s.
       if bs = [] then ret () s
       else if \<not> length bs < 2 ^ 32 then throw chunk_too_large s
       else
         and_then (on_client (sync_send C h (sync_word DATA_ID (word_of_nat (length bs)) @ bs))) (\<lambda>_.
         push_loop C h R) s) s"

definition push_start ::
  "('w, 'h) channel_ops \<Rightarrow> 'h \<Rightarrow> sync_features \<Rightarrow> str \<Rightarrow> u32 \<Rightarrow> ('w reading, unit) comp" where
  "push_start C h F path mode =
     (if sendrecv_v2 F then
        and_then (of_result (sync_request SND2_ID path)) (\<lambda>req.
        and_then (sync_send C h req) (\<lambda>_.
        sync_send C h (sync_word SND2_ID mode @ u32_to_le 0)))
      else
        and_then (of_result (sync_request SEND_ID (path @ '','' @ dec_of_nat (unat mode)))) (sync_send C h))"

definition sync_push ::
  "('w, 'h) channel_ops \<Rightarrow> 'h \<Rightarrow> sync_features \<Rightarrow> 'r async_read \<Rightarrow> str \<Rightarrow> u32 \<Rightarrow> u32
     \<Rightarrow> ('w reading \<times> 'r, unit) comp" where
  "sync_push C h F R path mode mtime =
     and_then (on_client (push_start C h F path mode)) (\<lambda>_.
     and_then (push_loop C h R) (\<lambda>_.
     and_then (on_client (sync_send C h (sync_word DONE_ID mtime))) (\<lambda>_.
     on_client (read_status C h))))"

definition sync_quit :: "('w, 'h) channel_ops \<Rightarrow> 'h \<Rightarrow> ('w reading, unit) comp" where
  "sync_quit C h =
     and_then (sync_send C h (sync_word QUIT_ID 0)) (\<lambda>_. on_world (ch_close C h))"

text \<open>\<open>SyncClient::open\<close>: the channel and the variants to use on it.\<close>

definition sync_open :: "('w, 'h) connection \<Rightarrow> ('w, 'h \<times> sync_features) comp" where
  "sync_open N =
     and_then (cn_features N) (\<lambda>fts.
     and_then (cn_open N ''sync:'') (\<lambda>h.
     ret (h, from_features fts)))"

subsection \<open>What a device sends and a client asks\<close>

definition request_bytes :: "bytes \<Rightarrow> str \<Rightarrow> bytes" where
  "request_bytes i path = i @ u32_to_le (word_of_nat (length path)) @ as_bytes path"

definition sized :: "bytes \<Rightarrow> bytes" where
  "sized bs = u32_to_le (word_of_nat (length bs)) @ bs"

definition stat_request :: "sync_features \<Rightarrow> str \<Rightarrow> bytes" where
  "stat_request F path = request_bytes (if stat_v2_ok F then STA2_ID else STAT_ID) path"

definition stat_reply :: "sync_features \<Rightarrow> stat \<Rightarrow> bytes" where
  "stat_reply F st = (if stat_v2_ok F then encode_stat_v2 STA2_ID st else encode_stat_v1 STAT_ID st)"

definition seen :: "bool \<Rightarrow> stat \<Rightarrow> stat" where
  "seen v2 st = (if v2 then stat_full st else stat_narrow st)"

definition dent :: "sync_features \<Rightarrow> stat \<times> bytes \<Rightarrow> bytes" where
  "dent F en = (case en of (st, name) \<Rightarrow>
     (if ls_v2 F then encode_stat_v2 DNT2_ID st else encode_stat_v1 DENT_ID st) @ sized name)"

definition listing :: "sync_features \<Rightarrow> (stat \<times> bytes) list \<Rightarrow> bytes" where
  "listing F es = concat (map (dent F) es) @ DONE_ID @ replicate (dent_len F - 4) 0"

definition listed :: "sync_features \<Rightarrow> stat \<times> bytes \<Rightarrow> entry" where
  "listed F en = (case en of (st, name) \<Rightarrow> entry_of (seen (ls_v2 F) st) name)"

definition data_frame :: "bytes \<Rightarrow> bytes" where
  "data_frame bs = DATA_ID @ sized bs"

definition fail_frame :: "bytes \<Rightarrow> bytes" where
  "fail_frame msg = FAIL_ID @ sized msg"

text \<open>What the bytes after a push mean, whatever they are: only a whole \<open>OKAY\<close> is a success.\<close>

definition push_verdict :: "bytes \<Rightarrow> unit result" where
  "push_verdict bs =
     (let arg = drop 4 bs; text = drop 8 bs; len = unat (u32_from_le (take 4 arg)) in
      if length bs < 4 then Inl StreamClosed
      else if take 4 bs \<notin> {OKAY_ID, FAIL_ID} then Inl (unexpected_reply (take 4 bs))
      else if length bs < 8 then Inl StreamClosed
      else if take 4 bs = OKAY_ID then Inr ()
      else if length text < len then Inl StreamClosed
      else Inl (RemoteFailure (Lit (utf8_lossy (take len text)))))"

lemma push_verdict_okay: "push_verdict bs = Inr () \<longleftrightarrow> (\<exists>n rest. bs = sync_word OKAY_ID n @ rest)"
proof
  assume "push_verdict bs = Inr ()"
  then have "8 \<le> length bs" and i: "take 4 bs = OKAY_ID"
    by (auto simp: push_verdict_def Let_def sync_ids split: if_splits)
  then have "u32_to_le (u32_from_le (take 4 (drop 4 bs))) = take 4 (drop 4 bs)" by (simp add: u32_to_le_from_le)
  moreover have "bs = take 4 bs @ take 4 (drop 4 bs) @ drop 4 (drop 4 bs)" by (simp only: append_take_drop_id)
  ultimately have "bs = sync_word OKAY_ID (u32_from_le (take 4 (drop 4 bs))) @ drop 4 (drop 4 bs)"
    unfolding sync_word_def by (simp only: i append_assoc)
  then show "\<exists>n rest. bs = sync_word OKAY_ID n @ rest" by blast
next
  assume "\<exists>n rest. bs = sync_word OKAY_ID n @ rest"
  then show "push_verdict bs = Inr ()" by (auto simp: push_verdict_def sync_word_def sync_ids Let_def)
qed

lemma push_verdict_fail:
  assumes "length msg < 2 ^ 32"
  shows "push_verdict (fail_frame msg @ rest) = Inl (RemoteFailure (Lit (utf8_lossy msg)))"
proof -
  have "unat (word_of_nat (length msg) :: u32) = length msg"
    using assms by (simp add: unsigned_of_nat take_bit_nat_eq_self)
  then show ?thesis by (simp add: push_verdict_def fail_frame_def sized_def Let_def sync_ids)
qed

definition pull_request :: "sync_features \<Rightarrow> str \<Rightarrow> bytes" where
  "pull_request F path =
     (if sendrecv_v2 F then request_bytes RCV2_ID path @ sync_word RCV2_ID 0 else request_bytes RECV_ID path)"

definition push_request :: "sync_features \<Rightarrow> str \<Rightarrow> u32 \<Rightarrow> bytes" where
  "push_request F path mode =
     (if sendrecv_v2 F then request_bytes SND2_ID path @ sync_word SND2_ID mode @ u32_to_le 0
      else request_bytes SEND_ID (path @ '','' @ dec_of_nat (unat mode)))"

lemma sync_request_ok: "length path < 2 ^ 32 \<Longrightarrow> sync_request i path = Inr (request_bytes i path)"
  by (simp add: sync_request_def request_bytes_def)

lemma expect_id_ok [simp]: "length i = 4 \<Longrightarrow> expect_id (i @ rest) i = Inr ()"
  by (simp add: expect_id_def)

lemma encode_id [simp]:
  "length i = 4 \<Longrightarrow> take 4 (encode_stat_v1 i st) = i"
  "length i = 4 \<Longrightarrow> take 4 (encode_stat_v2 i st) = i"
  by (simp_all add: encode_stat_v1_def encode_stat_v2_def Let_def)

lemma encode_expect [simp]:
  "length i = 4 \<Longrightarrow> expect_id (encode_stat_v1 i st @ rest) i = Inr ()"
  "length i = 4 \<Longrightarrow> expect_id (encode_stat_v2 i st @ rest) i = Inr ()"
  by (simp_all add: expect_id_def)

lemma dent_fields_decode:
  assumes "length name < 2 ^ 32"
  shows "ls_v2 F \<Longrightarrow> dent_fields F (encode_stat_v2 DNT2_ID st @ u32_to_le (word_of_nat (length name)))
      = Some (stat_full st, length name)"
    and "\<not> ls_v2 F \<Longrightarrow> dent_fields F (encode_stat_v1 DENT_ID st @ u32_to_le (word_of_nat (length name)))
      = Some (stat_narrow st, length name)"
  using assms
  by (simp_all add: dent_fields_def stat_v2_decode stat_v1_decode dent_v2_namelen_def dent_v1_namelen_def
      unat_u32_of_nat)

context channel
begin

lemma does_sync_send: "does (sync_send C h bs) a (Inr ()) a bs"
  unfolding sync_send_def by (rule does_send)

lemma does_request:
  assumes "length path < 2 ^ 32" and "does (k ()) a r b out"
  shows "does (and_then (of_result (sync_request i path)) (\<lambda>req. and_then (sync_send C h req) k))
     a r b (request_bytes i path @ out)"
proof -
  have "does (and_then (sync_send C h bs) k) a r b (bs @ out)" for bs
    by (rule does_then, rule does_sync_send, rule assms(2))
  then show ?thesis by (simp add: sync_request_ok [OF assms(1)])
qed

lemma does_request_last:
  "length path < 2 ^ 32 \<Longrightarrow>
     does (and_then (of_result (sync_request i path)) (sync_send C h)) a (Inr ()) a (request_bytes i path)"
  using does_sync_send by (simp add: sync_request_ok)

lemma does_sized:
  assumes "length msg < 2 ^ 32" and "does (k msg) rest r b []"
  shows "does (and_then (read_u32 C h) (\<lambda>len. and_then (read_exact C h (unat len)) k)) (sized msg @ rest) r b []"
proof -
  let ?n = "unat (word_of_nat (length msg) :: u32)"
  have "does (and_then (read_exact C h ?n) k) (msg @ rest) r b []"
    by (rule does_then_quiet, rule does_read) (use assms in \<open>simp_all add: unat_u32_of_nat\<close>)
  then show ?thesis
    unfolding sized_def append_assoc by (rule does_then_quiet [OF does_u32])
qed

lemma does_fail: "length msg < 2 ^ 32 \<Longrightarrow>
     does (sync_fail C h) (sized msg @ rest) (Inl (RemoteFailure (Lit (utf8_lossy msg)))) rest []"
  unfolding sync_fail_def by (rule does_sized [OF _ does_throw])

lemma does_checked:
  assumes "length b = n" and "expect_id b i = Inr ()" and "f b = Some v"
  shows "does (and_then (read_exact C h n) (\<lambda>b. and_then (of_result (expect_id b i)) (\<lambda>_. unwrap (f b))))
     (b @ rest) (Inr v) rest []"
  by (rule does_then_quiet, rule does_read)
    (use assms in \<open>simp_all add: unwrap_def does_ret del: ret_run\<close>)

lemma does_stat:
  assumes "length path < 2 ^ 32"
  shows "does (sync_stat C h F path) (stat_reply F st @ rest) (Inr (seen (stat_v2_ok F) st)) rest (stat_request F path)"
proof (cases "stat_v2_ok F")
  case True
  have "does (and_then (read_exact C h STAT_V2_LEN) (\<lambda>b. and_then (of_result (expect_id b STA2_ID)) (\<lambda>_. unwrap (stat_v2 b))))
      (encode_stat_v2 STA2_ID st @ rest) (Inr (stat_full st)) rest []"
    by (rule does_checked)
      (use stat_v2_decode [of STA2_ID st "[]"] encode_expect(2) [of STA2_ID st "[]"] in \<open>simp_all add: STAT_V2_LEN_def\<close>)
  from does_request [OF assms this, of STA2_ID] show ?thesis
    unfolding sync_stat_def stat_reply_def seen_def stat_request_def if_P [OF True] append_Nil2 .
next
  case False
  have "does (and_then (read_exact C h STAT_V1_LEN) (\<lambda>b. and_then (of_result (expect_id b STAT_ID)) (\<lambda>_. unwrap (stat_v1 b))))
      (encode_stat_v1 STAT_ID st @ rest) (Inr (stat_narrow st)) rest []"
    by (rule does_checked)
      (use stat_v1_decode [of STAT_ID st "[]"] encode_expect(1) [of STAT_ID st "[]"] in \<open>simp_all add: STAT_V1_LEN_def\<close>)
  from does_request [OF assms this, of STAT_ID] show ?thesis
    unfolding sync_stat_def stat_reply_def seen_def stat_request_def if_not_P [OF False] append_Nil2 .
qed

text \<open>One entry of a listing, then the rest; the terminator ends it.\<close>

lemma does_list_head:
  assumes "length b = dent_len F"
    and "does (if take 4 b = DONE_ID then ret acc
        else if take 4 b = FAIL_ID then throw (list_failure b)
        else and_then (of_result (expect_id b (dent_id F))) (\<lambda>_.
             and_then (unwrap (dent_fields F b)) (\<lambda>head.
             and_then (read_exact C h (snd head)) (\<lambda>name.
             list_loop C h F (acc @ [entry_of (fst head) name]))))) rest r c []"
  shows "does (list_loop C h F acc) (b @ rest) r c []"
proof -
  let ?k = "\<lambda>b s. if take 4 b = DONE_ID then ret acc s
        else if take 4 b = FAIL_ID then throw (list_failure b) s
        else and_then (of_result (expect_id b (dent_id F))) (\<lambda>_.
             and_then (unwrap (dent_fields F b)) (\<lambda>head.
             and_then (read_exact C h (snd head)) (\<lambda>name.
             list_loop C h F (acc @ [entry_of (fst head) name])))) s"
  have "does (?k b) rest r c []"
    using assms(2)
    by (cases "take 4 b = DONE_ID"; cases "take 4 b = FAIL_ID") (simp_all del: ret_run throw_run and_then_of_result)
  then have "does (and_then (read_exact C h (dent_len F)) ?k) (b @ rest) r c []"
    by (rule does_then_quiet [OF does_read [OF assms(1)]])
  then show ?thesis by (simp only: does_def list_loop.simps [of C h F acc])
qed

lemma does_list_done: "does (list_loop C h F acc) (DONE_ID @ replicate (dent_len F - 4) 0 @ rest) (Inr acc) rest []"
  using does_list_head [of "DONE_ID @ replicate (dent_len F - 4) 0" F acc rest "Inr acc" rest] does_ret [of acc rest]
  by (simp add: dent_len_def DENT_V1_LEN_def DENT_V2_LEN_def)

lemma does_list_entry:
  assumes "length (snd en) < 2 ^ 32" and "does (list_loop C h F (acc @ [listed F en])) rest r c []"
  shows "does (list_loop C h F acc) (dent F en @ rest) r c []"
proof -
  obtain st name where en: "en = (st, name)" by (cases en)
  define b where "b = (if ls_v2 F then encode_stat_v2 DNT2_ID st else encode_stat_v1 DENT_ID st)
    @ u32_to_le (word_of_nat (length name))"
  have b: "length b = dent_len F" "take 4 b = dent_id F" "dent_fields F b = Some (seen (ls_v2 F) st, length name)"
    using dent_fields_decode [of name F st] assms(1)
    by (simp_all add: b_def dent_len_def dent_id_def DENT_V1_LEN_def DENT_V2_LEN_def en seen_def)
  then have ids: "take 4 b \<noteq> DONE_ID" "take 4 b \<noteq> FAIL_ID" "expect_id b (dent_id F) = Inr ()"
    by (simp_all add: dent_id_def expect_id_def)
  have "does (and_then (read_exact C h (length name)) (\<lambda>name. list_loop C h F (acc @ [entry_of (seen (ls_v2 F) st) name])))
      (name @ rest) r c []"
    by (rule does_then_quiet, rule does_read) (use assms(2) in \<open>simp_all add: en listed_def\<close>)
  then have "does (list_loop C h F acc) (b @ name @ rest) r c []"
    by (intro does_list_head b(1)) (simp add: ids b(3) unwrap_def)
  then show ?thesis by (simp add: dent_def en b_def sized_def)
qed

lemma does_listing:
  "\<forall>en \<in> set es. length (snd en) < 2 ^ 32 \<Longrightarrow>
     does (list_loop C h F acc) (listing F es @ rest) (Inr (acc @ map (listed F) es)) rest []"
proof (induction es arbitrary: acc)
  case Nil
  then show ?case using does_list_done by (simp add: listing_def)
next
  case (Cons en es)
  then have "does (list_loop C h F (acc @ [listed F en])) (listing F es @ rest) (Inr (acc @ map (listed F) (en # es))) rest []"
    using Cons.IH [of "acc @ [listed F en]"] by simp
  then have "does (list_loop C h F acc) (dent F en @ listing F es @ rest) (Inr (acc @ map (listed F) (en # es))) rest []"
    using Cons.prems by (intro does_list_entry) simp_all
  then show ?case by (simp add: listing_def)
qed

lemma does_list:
  assumes "length path < 2 ^ 32" and "\<forall>en \<in> set es. length (snd en) < 2 ^ 32"
  shows "does (sync_list C h F path) (listing F es @ rest) (Inr (map (listed F) es)) rest
     (request_bytes (list_request_id F) path)"
  using does_request [OF assms(1) does_listing [OF assms(2), of F "[]" rest], of "list_request_id F"]
  by (simp add: sync_list_def)

text \<open>A listing that fails: the header-sized read decides what becomes of the message.\<close>

lemma does_list_fail_short:
  assumes "length path < 2 ^ 32" and "8 + length msg < dent_len F" and ends
  shows "does (sync_list C h F path) (fail_frame msg) (Inl StreamClosed) (fail_frame msg)
     (request_bytes (list_request_id F) path)"
proof -
  have "length (fail_frame msg) < dent_len F" using assms(2) by (simp add: fail_frame_def sized_def)
  then have "does (and_then (read_exact C h (dent_len F)) k) (fail_frame msg) (Inl StreamClosed) (fail_frame msg) []"
    for k :: "bytes \<Rightarrow> ('w reading, entry list) comp"
    by (rule does_then_err [OF does_read_short [OF assms(3)]])
  then have "does (list_loop C h F []) (fail_frame msg) (Inl StreamClosed) (fail_frame msg) []"
    by (simp only: does_def list_loop.simps [of C h F "[]"])
  from does_request [OF assms(1) this, of "list_request_id F"] show ?thesis by (simp add: sync_list_def)
qed

text \<open>The messages of a pull.\<close>

lemma does_next:
  assumes "length i = 4"
    and "does (if i = DATA_ID then
         and_then (read_u32 C h) (\<lambda>len.
           if DATA_MAX < unat len then throw (chunk_too_big (unat len))
           else and_then (read_exact C h (unat len)) (\<lambda>bs. ret (Some bs)))
       else if i = DONE_ID then and_then (read_u32 C h) (\<lambda>_. ret None)
       else if i = FAIL_ID then sync_fail C h
       else throw (unexpected_reply i)) rest r b []"
  shows "does (next_data C h) (i @ rest) r b []"
  unfolding next_data_def read_id_def
  by (rule does_then_quiet, rule does_read, rule assms(1), rule assms(2))

lemma does_next_data:
  assumes "length bs \<le> DATA_MAX"
  shows "does (next_data C h) (data_frame bs @ rest) (Inr (Some bs)) rest []"
proof -
  have small: "length bs < 2 ^ 32" using assms by (simp add: DATA_MAX_def)
  then have len: "unat (word_of_nat (length bs) :: u32) = length bs" by (simp add: unat_u32_of_nat)
  have read: "does (and_then (read_exact C h (length bs)) (\<lambda>bs. ret (Some bs))) (bs @ rest) (Inr (Some bs)) rest []"
    by (rule does_then_quiet, rule does_read, rule refl, rule does_ret)
  have "does (and_then (read_u32 C h) (\<lambda>len.
           if DATA_MAX < unat len then throw (chunk_too_big (unat len))
           else and_then (read_exact C h (unat len)) (\<lambda>bs. ret (Some bs))))
      (sized bs @ rest) (Inr (Some bs)) rest []"
    unfolding sized_def append_assoc
    by (rule does_then_quiet, rule does_u32) (use read assms in \<open>simp add: len del: ret_run\<close>)
  then show ?thesis using does_next [of DATA_ID "sized bs @ rest"] by (simp add: data_frame_def)
qed

lemma does_next_done: "does (next_data C h) (sync_word DONE_ID t @ rest) (Inr None) rest []"
proof -
  have "does (and_then (read_u32 C h) (\<lambda>_. ret None)) (u32_to_le t @ rest) (Inr (None :: bytes option)) rest []"
    by (rule does_then_quiet, rule does_u32, rule does_ret)
  then show ?thesis using does_next [of DONE_ID "u32_to_le t @ rest"] by (simp add: sync_word_def)
qed

lemma does_next_fail:
  "length msg < 2 ^ 32 \<Longrightarrow>
     does (next_data C h) (fail_frame msg @ rest) (Inl (RemoteFailure (Lit (utf8_lossy msg)))) rest []"
  using does_next [OF _ , of FAIL_ID "sized msg @ rest"] does_fail [of msg rest]
  by (simp add: fail_frame_def)

lemma does_next_too_big:
  assumes "DATA_MAX < unat n"
  shows "does (next_data C h) (sync_word DATA_ID n @ rest) (Inl (chunk_too_big (unat n))) rest []"
proof -
  have "does (and_then (read_u32 C h) (\<lambda>len.
           if DATA_MAX < unat len then throw (chunk_too_big (unat len))
           else and_then (read_exact C h (unat len)) (\<lambda>bs. ret (Some bs))))
      (u32_to_le n @ rest) (Inl (chunk_too_big (unat n))) rest []"
    by (rule does_then_quiet, rule does_u32) (use does_throw assms in \<open>simp del: throw_run\<close>)
  then show ?thesis using does_next [of DATA_ID "u32_to_le n @ rest"] by (simp add: sync_word_def)
qed

lemma does_next_cut: "ends \<Longrightarrow> length a < 4 \<Longrightarrow> does (next_data C h) a (Inl StreamClosed) a []"
  unfolding next_data_def read_id_def by (rule does_then_err [OF does_read_short])

lemma does_start_pull:
  assumes "length path < 2 ^ 32"
  shows "does (start_pull C h F path) a (Inr ()) a (pull_request F path)"
proof (cases "sendrecv_v2 F")
  case True
  then show ?thesis
    using does_request [OF assms, where k = "\<lambda>_. sync_send C h (sync_word RCV2_ID 0)" and i = RCV2_ID, OF does_sync_send]
    by (simp add: start_pull_def pull_request_def del: and_then_of_result)
next
  case False
  then show ?thesis
    using does_request_last [OF assms, of RECV_ID a]
    by (simp add: start_pull_def pull_request_def del: and_then_of_result)
qed

text \<open>The status that ends a push.\<close>

lemma does_status_okay: "does (read_status C h) (sync_word OKAY_ID n @ rest) (Inr ()) rest []"
proof -
  have "does (and_then (read_u32 C h) (\<lambda>_. ret ())) (u32_to_le n @ rest) (Inr ()) rest []"
    by (rule does_then_quiet, rule does_u32, rule does_ret)
  then have "does (read_status C h) (OKAY_ID @ u32_to_le n @ rest) (Inr ()) rest []"
    unfolding read_status_def read_id_def
    by (intro does_then_quiet [OF does_read]) (simp_all del: ret_run)
  then show ?thesis by (simp add: sync_word_def)
qed

lemma does_status_fail:
  "length msg < 2 ^ 32 \<Longrightarrow>
     does (read_status C h) (fail_frame msg @ rest) (Inl (RemoteFailure (Lit (utf8_lossy msg)))) rest []"
proof -
  assume "length msg < 2 ^ 32"
  then have "does (sync_fail C h) (sized msg @ rest) (Inl (RemoteFailure (Lit (utf8_lossy msg))) :: unit result) rest []"
    by (rule does_fail)
  then have "does (read_status C h) (FAIL_ID @ sized msg @ rest) (Inl (RemoteFailure (Lit (utf8_lossy msg)))) rest []"
    unfolding read_status_def read_id_def
    by (intro does_then_quiet [OF does_read]) simp_all
  then show ?thesis by (simp add: fail_frame_def)
qed

lemma does_status:
  assumes ends
  shows "\<exists>b. does (read_status C h) bs (push_verdict bs) b []"
proof (cases "length bs < 4")
  case True
  then have "does (read_status C h) bs (Inl StreamClosed) bs []"
    unfolding read_status_def read_id_def by (intro does_then_err does_read_short assms)
  with True show ?thesis by (auto simp: push_verdict_def)
next
  case False
  then obtain i a where bs: "bs = i @ a" and i: "length i = 4"
    using that [of "take 4 bs" "drop 4 bs"] by (metis append_take_drop_id length_take min.absorb2 not_less)
  let ?k = "if i = OKAY_ID then and_then (read_u32 C h) (\<lambda>_. ret ())
      else if i = FAIL_ID then sync_fail C h else throw (unexpected_reply i)"
  have word: "\<exists>b. does (read_status C h) bs r b []" if "does ?k a r b []" for r b
    unfolding read_status_def read_id_def bs
    by (rule exI [of _ b], rule does_then_quiet [OF does_read [OF i]]) (rule that)
  consider (other) "i \<noteq> OKAY_ID" "i \<noteq> FAIL_ID" | (short) "i = OKAY_ID \<or> i = FAIL_ID" "length a < 4"
    | (whole) "i = OKAY_ID \<or> i = FAIL_ID" "4 \<le> length a" by fastforce
  then show ?thesis
  proof cases
    case other
    then show ?thesis using word [of "Inl (unexpected_reply i)" a] i by (simp add: does_throw push_verdict_def bs Let_def)
  next
    case short
    then have "does ?k a (Inl StreamClosed) a []"
      by (auto simp: sync_fail_def intro!: does_then_err does_u32_short assms)
    from word [OF this] short i show ?thesis by (simp add: push_verdict_def bs Let_def)
  next
    case whole
    then obtain v t where a: "a = v @ t" and v: "length v = 4"
      using that [of "take 4 a" "drop 4 a"] by (metis append_take_drop_id length_take min.absorb2)
    define w where "w = u32_from_le v"
    with v have v: "v = u32_to_le w" by (simp add: u32_to_le_from_le)
    show ?thesis
    proof (cases "i = OKAY_ID")
      case True
      then have "does ?k a (Inr ()) t []" unfolding a v
        by (simp only: if_True simp_thms) (rule does_then_quiet [OF does_u32 does_ret])
      from word [OF this] True i show ?thesis by (simp add: push_verdict_def bs a v Let_def)
    next
      case False
      with whole have fail: "i = FAIL_ID" by blast
      show ?thesis
      proof (cases "length t < unat w")
        case True
        then have "does ?k a (Inl StreamClosed) t []"
          using False fail unfolding a v sync_fail_def
          by (simp only: if_True if_False simp_thms)
            (rule does_then_quiet [OF does_u32 does_then_err [OF does_read_short [OF assms]]])
        from word [OF this] False fail True i show ?thesis by (simp add: push_verdict_def bs a v Let_def)
      next
        case long: False
        let ?m = "take (unat w) t"
        have "does (read_exact C h (unat w)) (?m @ drop (unat w) t) (Inr ?m) (drop (unat w) t) []"
          by (rule does_read) (use long in simp)
        then have "does ?k a (Inl (RemoteFailure (Lit (utf8_lossy ?m)))) (drop (unat w) t) []"
          using False fail unfolding a v sync_fail_def
          by (simp only: if_True if_False simp_thms append_take_drop_id)
            (rule does_then_quiet [OF does_u32 does_then_quiet [OF _ does_throw]])
        from word [OF this] False fail long i show ?thesis by (simp add: push_verdict_def bs a v Let_def)
      qed
    qed
  qed
qed

lemma does_push_start:
  assumes "length (path @ '','' @ dec_of_nat (unat mode)) < 2 ^ 32"
  shows "does (push_start C h F path mode) a (Inr ()) a (push_request F path mode)"
proof (cases "sendrecv_v2 F")
  case True
  have "length path < 2 ^ 32" using assms by simp
  from does_request [OF this, where k = "\<lambda>_. sync_send C h (sync_word SND2_ID mode @ u32_to_le 0)" and i = SND2_ID,
      OF does_sync_send] True show ?thesis
    by (simp add: push_start_def push_request_def del: and_then_of_result)
next
  case False
  then show ?thesis
    using does_request_last [OF assms, of SEND_ID a]
    by (simp add: push_start_def push_request_def del: and_then_of_result)
qed

text \<open>The loop of a push sends the whole source, in chunks of the size the reads give.\<close>

lemma push_loop_all:
  assumes R: "reads_bytes R src"
  shows "invar (world c) \<Longrightarrow> takes (world c) (9 * length (src r) + n) \<Longrightarrow>
     \<exists>c' r' chunks. push_loop C h R (c, r) = Some (Inr (), (c', r')) \<and> invar (world c') \<and> takes (world c') n
     \<and> ahead c' = ahead c \<and> concat chunks = src r \<and> (\<forall>b \<in> set chunks. b \<noteq> [] \<and> length b \<le> DATA_MAX)
     \<and> sent (world c') = sent (world c) @ concat (map data_frame chunks)"
proof (induction "length (src r)" arbitrary: c r rule: less_induct)
  case less
  obtain k r1 where read: "ar_read R DATA_MAX r = Some (Inr (take k (src r)), r1)" "src r1 = drop k (src r)"
    "0 < k \<longleftrightarrow> src r \<noteq> []" "k \<le> DATA_MAX"
    using reads_bytesD(1) [OF R, of DATA_MAX r] by (auto simp: DATA_MAX_def)
  have source: "on_source (io_err Io (ar_read R DATA_MAX)) (c, r) = Some (Inr (take k (src r)), (c, r1))"
    using read(1) by (simp add: on_source_def on_part_def io_err_def)
  show ?case
  proof (cases "src r = []")
    case True
    with less.prems read source show ?thesis
      by (intro exI [of _ c] exI [of _ r1] exI [of _ "[]"])
        (simp add: push_loop.simps [of C h R "(c, r)"] and_then_ok)
  next
    case False
    let ?b = "take k (src r)"
    have b: "?b \<noteq> []" "length ?b \<le> DATA_MAX" "length ?b < 2 ^ 32"
      using False read(3,4) by (auto simp: DATA_MAX_def)
    have frame: "sync_word DATA_ID (word_of_nat (length ?b)) @ ?b = data_frame ?b"
      by (simp add: sync_word_def data_frame_def sized_def)
    have cut: "length (src r) = length ?b + length (src r1)" using read(2) by simp
    have "0 < length ?b" using b(1) by blast
    then have shorter: "length (src r1) < length (src r)" using cut by linarith
    have "length (data_frame ?b) = 8 + length ?b" by (simp add: data_frame_def sized_def sync_ids)
    then have "length (data_frame ?b) + (9 * length (src r1) + n) \<le> 9 * length (src r) + n"
      using cut \<open>0 < length ?b\<close> by linarith
    then have room: "takes (world c) (length (data_frame ?b) + (9 * length (src r1) + n))"
      by (rule takes_less [OF less.prems(2)])
    obtain c1 where c1: "sync_send C h (data_frame ?b) c = Some (Inr (), c1)" "invar (world c1)"
      "takes (world c1) (9 * length (src r1) + n)"
      "ahead c1 = ahead c" "sent (world c1) = sent (world c) @ data_frame ?b"
      using does_sync_send [of "data_frame ?b" "ahead c"] less.prems(1) room by (fastforce simp: does_def)
    then have sent1: "on_client (sync_send C h (data_frame ?b)) (c, r1) = Some (Inr (), (c1, r1))"
      by (simp add: on_client_def on_part_def)
    from less.hyps [OF shorter c1(2,3)] obtain c' r' chunks where
      rest: "push_loop C h R (c1, r1) = Some (Inr (), (c', r'))" "invar (world c')" "takes (world c') n"
      "ahead c' = ahead c1" "concat chunks = src r1" "\<forall>b \<in> set chunks. b \<noteq> [] \<and> length b \<le> DATA_MAX"
      "sent (world c') = sent (world c1) @ concat (map data_frame chunks)" by blast
    have step: "push_loop C h R (c, r) = push_loop C h R (c1, r1)"
      using b(1,3) sent1 frame
      by (simp add: push_loop.simps [of C h R "(c, r)"] and_then_ok source)
    show ?thesis
      using rest c1 b read(2)
      by (intro exI [of _ c'] exI [of _ r'] exI [of _ "?b # chunks"]) (simp add: step)
  qed
qed

lemma sync_push_run:
  assumes R: "reads_bytes R src" and len: "length (path @ '','' @ dec_of_nat (unat mode)) < 2 ^ 32"
    and status: "does (read_status C h) a res b []"
    and c: "invar (world c)" "takes (world c) (length (push_request F path mode) + 9 * length (src r) + 8 + n)" "ahead c = a"
  shows "\<exists>c' r' chunks. sync_push C h F R path mode mtime (c, r) = Some (res, (c', r'))
     \<and> concat chunks = src r \<and> (\<forall>d \<in> set chunks. d \<noteq> [] \<and> length d \<le> DATA_MAX)
     \<and> invar (world c') \<and> ahead c' = b \<and> (\<not> isl res \<longrightarrow> takes (world c') n)
     \<and> sent (world c') = sent (world c) @ push_request F path mode @ concat (map data_frame chunks)
          @ sync_word DONE_ID mtime"
proof -
  have "takes (world c) (length (push_request F path mode) + (9 * length (src r) + (8 + n)))"
    using c(2) by (simp add: add.assoc)
  with does_push_start [OF len, of F a] c(1,3) obtain c1 where
    c1: "push_start C h F path mode c = Some (Inr (), c1)" "invar (world c1)"
    "takes (world c1) (9 * length (src r) + (8 + n))"
    "ahead c1 = a" "sent (world c1) = sent (world c) @ push_request F path mode"
    unfolding does_def by fastforce
  obtain c2 r2 chunks where c2: "push_loop C h R (c1, r) = Some (Inr (), (c2, r2))" "invar (world c2)"
    "takes (world c2) (8 + n)" "ahead c2 = ahead c1" "concat chunks = src r"
    "\<forall>d \<in> set chunks. d \<noteq> [] \<and> length d \<le> DATA_MAX"
    "sent (world c2) = sent (world c1) @ concat (map data_frame chunks)"
    using push_loop_all [OF R c1(2,3)] by blast
  have "length (sync_word DONE_ID mtime) = 8" by (simp add: sync_word_def sync_ids)
  then obtain c3 where c3: "sync_send C h (sync_word DONE_ID mtime) c2 = Some (Inr (), c3)" "invar (world c3)"
    "takes (world c3) n" "ahead c3 = a" "sent (world c3) = sent (world c2) @ sync_word DONE_ID mtime"
    using does_sync_send [of "sync_word DONE_ID mtime" a] c2(2,3,4) c1(4) unfolding does_def by fastforce
  obtain c4 where c4: "read_status C h c3 = Some (res, c4)" "invar (world c4)" "ahead c4 = b"
    "sent (world c4) = sent (world c3)" "\<not> isl res \<longrightarrow> takes (world c4) n"
    using status c3(2,3,4) unfolding does_def by fastforce
  have "sync_push C h F R path mode mtime (c, r) = Some (res, (c4, r2))"
    using c1(1) c2(1) c3(1) c4(1)
    by (simp add: sync_push_def and_then_ok on_client_def on_part_def)
  with c1 c2 c3 c4 show ?thesis
    by (intro exI [of _ c4] exI [of _ r2] exI [of _ chunks]) simp
qed

end

end
