(* ===== verification/Device.thy ===== *)
theory Device
  imports Sync
begin

section \<open>The typed device API\<close>

text \<open>
  \<open>src/device/mod.rs\<close> and \<open>src/device/files.rs\<close>: the operations of \<open>Device\<close> on the connection's
  world and the cached feature list. A \<open>sync:\<close> client lives for one call, so each file operation
  opens the channel, runs on a fresh reader and (except for a pull, which is left to the drop of
  its stream) quits. Local files are the caller's operating system: \<open>tokio::fs\<close> calls are
  parameters over a file state next to the device.
\<close>

subsection \<open>The device and its features\<close>

record 'w device =
  dv_world :: 'w
  dv_features :: "str list option"

definition on_conn :: "('w, 'a) comp \<Rightarrow> ('w device, 'a) comp" where
  "on_conn = on_part dv_world (\<lambda>w s. s\<lparr>dv_world := w\<rparr>)"

definition new_device :: "'w \<Rightarrow> 'w device" where
  "new_device w = \<lparr>dv_world = w, dv_features = None\<rparr>"

text \<open>\<open>OnceCell::get_or_try_init\<close>: an error leaves the cell empty.\<close>

definition device_features :: "('w, 'h) connection \<Rightarrow> ('w device, str list) comp" where
  "device_features N s =
     (case dv_features s of
        Some fts \<Rightarrow> ret fts s
      | None \<Rightarrow>
          (case on_conn (cn_features N) s of
             None \<Rightarrow> None
           | Some (Inl e, s') \<Rightarrow> Some (Inl e, s')
           | Some (Inr fts, s') \<Rightarrow> Some (Inr fts, s'\<lparr>dv_features := Some fts\<rparr>)))"

definition has_feature :: "('w, 'h) connection \<Rightarrow> str \<Rightarrow> ('w device, bool) comp" where
  "has_feature N f = and_then (device_features N) (\<lambda>fts. ret (f \<in> set fts))"

subsection \<open>Commands\<close>

definition device_shell :: "('w, 'h) connection \<Rightarrow> str \<Rightarrow> ('w device, shell_output) comp" where
  "device_shell N cmd = and_then (device_features N) (\<lambda>fts. on_conn (shell N fts cmd))"

definition stdin_unsupported :: error where
  "stdin_unsupported = Unsupported (Lit ''device lacks shell_v2; stdin needs it'')"

definition shell_with_stdin :: "('w, 'h) connection \<Rightarrow> str \<Rightarrow> bytes \<Rightarrow> ('w device, shell_output) comp" where
  "shell_with_stdin N cmd stdin =
     and_then (has_feature N SHELL_V2_FEATURE) (\<lambda>ok.
       if \<not> ok then throw stdin_unsupported else on_conn (shell_v2 N cmd stdin))"

definition device_shell_v1 :: "('w, 'h) connection \<Rightarrow> str \<Rightarrow> ('w device, bytes) comp" where
  "device_shell_v1 N cmd = on_conn (shell_v1 N cmd)"

definition device_exec :: "('w, 'h) connection \<Rightarrow> str \<Rightarrow> ('w device, bytes) comp" where
  "device_exec N cmd = on_conn (exec N cmd)"

definition command_failed :: "str \<Rightarrow> shell_output \<Rightarrow> error" where
  "command_failed cmd out = RemoteFailure (Fmt ''{command:?} exited {}: {}''
     [Txt cmd, Num (uint (unwrap_or 0 (exit_code out))), Txt (trim (stderr_text out))])"

definition shell_checked :: "('w, 'h) connection \<Rightarrow> str \<Rightarrow> ('w device, shell_output) comp" where
  "shell_checked N cmd =
     and_then (device_shell N cmd) (\<lambda>out. if success out then ret out else throw (command_failed cmd out))"

definition getprop :: "('w, 'h) connection \<Rightarrow> str \<Rightarrow> ('w device, str) comp" where
  "getprop N name =
     and_then (of_result (validate_name name)) (\<lambda>_.
     and_then (shell_checked N (''getprop '' @ name)) (\<lambda>out.
     ret (trim_end_matches (\<lambda>c. c \<in> {CHR 0x0D, CHR 0x0A}) (stdout_text out))))"

definition getprops :: "('w, 'h) connection \<Rightarrow> ('w device, (str, str) btree) comp" where
  "getprops N = and_then (shell_checked N ''getprop'') (\<lambda>out. ret (parse_all (stdout_text out)))"

definition PNG_MAGIC :: bytes where
  "PNG_MAGIC = [0x89, 0x50, 0x4E, 0x47, 0x0D, 0x0A, 0x1A, 0x0A]"

definition not_png :: "bytes \<Rightarrow> error" where
  "not_png png = Parse (Fmt ''screencap did not return a PNG ({} bytes: {:?})''
     [Num (int (length png)), Txt (utf8_lossy (take 64 png))])"

definition screencap :: "('w, 'h) connection \<Rightarrow> ('w device, bytes) comp" where
  "screencap N =
     and_then (device_exec N ''screencap -p'') (\<lambda>png.
       if length png < length PNG_MAGIC \<or> take (length PNG_MAGIC) png \<noteq> PNG_MAGIC
       then throw (not_png png) else ret png)"

definition device_reboot :: "('w, 'h) connection \<Rightarrow> reboot_target \<Rightarrow> ('w device, unit) comp" where
  "device_reboot N target = on_conn (reboot N target)"

subsection \<open>Content queries\<close>

definition empty_projection :: error where
  "empty_projection = InvalidArgument (Lit ''projection must name at least one column'')"

definition row_count_mismatch :: "nat \<Rightarrow> nat \<Rightarrow> error" where
  "row_count_mismatch got expected =
     Parse (Fmt ''parsed {} rows but the _id-only query reports {expected}'' [Num (int got), Num (int expected)])"

definition content_query_with ::
  "('w, 'h) connection \<Rightarrow> str \<Rightarrow> str list \<Rightarrow> str list \<Rightarrow> ('w device, row list) comp" where
  "content_query_with N uri projection extra =
     (if projection = [] then throw empty_projection
      else
        and_then (shell_checked N (query_command uri projection extra)) (\<lambda>out.
        and_then (of_result (parse_rows (stdout_text out) projection)) (\<lambda>rows.
        and_then (shell_checked N (query_command uri [''_id''] extra)) (\<lambda>check.
        let expected = count_rows (stdout_text check) in
        if expected \<noteq> length rows then throw (row_count_mismatch (length rows) expected)
        else ret rows))))"

definition content_query :: "('w, 'h) connection \<Rightarrow> str \<Rightarrow> str list \<Rightarrow> ('w device, row list) comp" where
  "content_query N uri projection = content_query_with N uri projection []"

subsection \<open>Files\<close>

definition device_sync :: "('w, 'h) connection \<Rightarrow> ('w device, 'h \<times> sync_features) comp" where
  "device_sync N =
     and_then (device_features N) (\<lambda>fts.
     and_then (on_conn (cn_open N ''sync:'')) (\<lambda>h.
     ret (h, from_features fts)))"

definition list_dir :: "('w, 'h) connection \<Rightarrow> str \<Rightarrow> ('w device, entry list) comp" where
  "list_dir N path =
     and_then (device_sync N) (\<lambda>(h, F).
     on_conn (with_reader
       (and_then (sync_list (cn_channel N) h F path) (\<lambda>entries.
        and_then (sync_quit (cn_channel N) h) (\<lambda>_.
        ret entries)))))"

definition device_stat :: "('w, 'h) connection \<Rightarrow> str \<Rightarrow> ('w device, stat) comp" where
  "device_stat N path =
     and_then (device_sync N) (\<lambda>(h, F).
     on_conn (with_reader
       (and_then (sync_stat (cn_channel N) h F path) (\<lambda>st.
        and_then (sync_quit (cn_channel N) h) (\<lambda>_.
        ret st)))))"

text \<open>\<open>while let Some(chunk) = stream.next().await\<close> over the stream of a pull.\<close>

partial_function (option) pull_all ::
  "('w, 'h) channel_ops \<Rightarrow> 'h \<Rightarrow> bool \<Rightarrow> bytes \<Rightarrow> 'w reading \<Rightarrow> (bytes result \<times> 'w reading) option" where
  "pull_all C h over out s =
     (case pull_item C h over s of
        None \<Rightarrow> None
      | Some (None, s') \<Rightarrow> Some (Inr out, s')
      | Some (Some (Inl e, _), s') \<Rightarrow> Some (Inl e, s')
      | Some (Some (Inr chunk, over'), s') \<Rightarrow> pull_all C h over' (out @ chunk) s')"

definition pull_bytes :: "('w, 'h) connection \<Rightarrow> str \<Rightarrow> ('w device, bytes) comp" where
  "pull_bytes N remote_path =
     and_then (device_sync N) (\<lambda>(h, F).
     on_conn (with_reader
       (and_then (start_pull (cn_channel N) h F remote_path) (\<lambda>_.
        pull_all (cn_channel N) h False []))))"

text \<open>tokio's \<open>AsyncRead\<close> of a byte slice.\<close>

definition slice_reader :: "bytes async_read" where
  "slice_reader =
     \<lparr>ar_read = (\<lambda>n bs. Some (Inr (take n bs), drop n bs)),
      ar_read_exact = (\<lambda>n bs. if length bs < n then Some (Inl (Io_error UnexpectedEof (Lit ''early eof'')), [])
        else Some (Inr (take n bs), drop n bs))\<rparr>"

definition push_bytes :: "('w, 'h) connection \<Rightarrow> bytes \<Rightarrow> str \<Rightarrow> u32 \<Rightarrow> u32 \<Rightarrow> ('w device, unit) comp" where
  "push_bytes N data remote_path mode mtime =
     and_then (device_sync N) (\<lambda>(h, F).
     on_conn (with_reader (\<lambda>c.
       case sync_push (cn_channel N) h F slice_reader remote_path mode mtime (c, data) of
         None \<Rightarrow> None
       | Some (Inl e, (c', _)) \<Rightarrow> Some (Inl e, c')
       | Some (Inr _, (c', _)) \<Rightarrow> sync_quit (cn_channel N) h c')))"

subsection \<open>Local files\<close>

text \<open>
  What the code reads of a file's metadata: whether it is a regular file, its modification time in
  seconds if it has one after the epoch, and its permission bits (\<open>mode_of\<close> on Unix).
\<close>

record file_meta =
  fm_is_file :: bool
  fm_modified :: "nat option"
  fm_mode :: u32

definition mode_of :: "file_meta \<Rightarrow> u32" where
  "mode_of meta = fm_mode meta"

definition not_regular :: "str \<Rightarrow> error" where
  "not_regular path = InvalidArgument (Fmt ''{} is not a regular file'' [Txt path])"

definition bad_mtime :: error where
  "bad_mtime = InvalidArgument (Lit ''file mtime is not representable'')"

definition file_mtime :: "file_meta \<Rightarrow> u32 result" where
  "file_mtime meta =
     (case fm_modified meta of
        None \<Rightarrow> Inl bad_mtime
      | Some secs \<Rightarrow> if secs < 2 ^ 32 then Inr (word_of_nat secs) else Inl bad_mtime)"

text \<open>A fresh reader on the device's world, next to the local file state.\<close>

definition with_file :: "('w reading \<times> 'f, 'a) comp \<Rightarrow> ('w device \<times> 'f, 'a) comp" where
  "with_file m s =
     (case m (\<lparr>buffer = [], world = dv_world (fst s)\<rparr>, snd s) of
        None \<Rightarrow> None
      | Some (r, (c, f)) \<Rightarrow> Some (r, ((fst s)\<lparr>dv_world := world c\<rparr>, f)))"

partial_function (option) pull_file_loop ::
  "('w, 'h) channel_ops \<Rightarrow> 'h \<Rightarrow> 'f async_write \<Rightarrow> bool \<Rightarrow> u64 \<Rightarrow> 'w reading \<times> 'f
     \<Rightarrow> (u64 result \<times> ('w reading \<times> 'f)) option" where
  "pull_file_loop C h W over count s =
     (case pull_item C h over (fst s) of
        None \<Rightarrow> None
      | Some (None, c) \<Rightarrow> Some (Inr count, (c, snd s))
      | Some (Some (Inl e, _), c) \<Rightarrow> Some (Inl e, (c, snd s))
      | Some (Some (Inr chunk, over'), c) \<Rightarrow>
          (case aw_write_all W chunk (snd s) of
             None \<Rightarrow> None
           | Some (Inl e, f) \<Rightarrow> Some (Inl (Io e), (c, f))
           | Some (Inr _, f) \<Rightarrow> pull_file_loop C h W over' (count + word_of_nat (length chunk)) (c, f)))"

definition pull_to_file ::
  "('w, 'h) connection \<Rightarrow> (str \<Rightarrow> ('f, unit) io) \<Rightarrow> 'f async_write \<Rightarrow> str \<Rightarrow> str \<Rightarrow> ('w device \<times> 'f, u64) comp" where
  "pull_to_file N create W remote_path local_path =
     and_then (on_client (device_sync N)) (\<lambda>(h, F).
     with_file
       (and_then (on_client (start_pull (cn_channel N) h F remote_path)) (\<lambda>_.
        and_then (on_source (io_err Io (create local_path))) (\<lambda>_.
        and_then (pull_file_loop (cn_channel N) h W False 0) (\<lambda>count.
        and_then (on_source (io_err Io (aw_flush W))) (\<lambda>_.
        ret count))))))"

definition push_file ::
  "('w, 'h) connection \<Rightarrow> (str \<Rightarrow> ('f, file_meta) io) \<Rightarrow> (str \<Rightarrow> ('f, unit) io) \<Rightarrow> 'f async_read
     \<Rightarrow> str \<Rightarrow> str \<Rightarrow> ('w device \<times> 'f, unit) comp" where
  "push_file N metadata open_file R local_path remote_path =
     and_then (on_source (io_err Io (metadata local_path))) (\<lambda>meta.
       if \<not> fm_is_file meta then throw (not_regular local_path)
       else
         and_then (of_result (file_mtime meta)) (\<lambda>mtime.
         and_then (on_source (io_err Io (open_file local_path))) (\<lambda>_.
         and_then (on_client (device_sync N)) (\<lambda>(h, F).
         with_file
           (and_then (sync_push (cn_channel N) h F R remote_path (mode_of meta) mtime) (\<lambda>_.
            on_client (sync_quit (cn_channel N) h)))))))"

subsection \<open>Files through a channel\<close>

lemma reads_bytes_slice: "reads_bytes slice_reader id"
  unfolding reads_bytes_def slice_reader_def async_read.simps
proof (intro conjI allI impI)
  fix n :: nat and r :: bytes
  assume "0 < n"
  then show "\<exists>k r'. Some (Inr (take n r), drop n r) = Some (Inr (take k (id r)), r') \<and> k \<le> n
      \<and> id r' = drop k (id r) \<and> (0 < k \<longleftrightarrow> id r \<noteq> [])"
    by (intro exI [of _ "min n (length r)"]) (auto simp: min_def)
qed simp_all

context channel
begin

lemma pull_all_done:
  assumes "invar (world s)" and "takes (world s) n" and "ahead s = concat (map data_frame pieces) @ tail"
    and "\<forall>d \<in> set pieces. length d \<le> DATA_MAX" and "does (next_data C h) tail last_item b []"
    and "\<And>d. last_item \<noteq> Inr (Some d)"
  shows "\<exists>s'. pull_all C h False out s =
       Some (case last_item of Inl e \<Rightarrow> Inl e | Inr _ \<Rightarrow> Inr (out @ concat pieces), s')
     \<and> invar (world s') \<and> ahead s' = b \<and> sent (world s') = sent (world s)"
  using assms(1-4)
proof (induction pieces arbitrary: s out)
  case Nil
  with assms(5) obtain s1 where s1: "next_data C h s = Some (last_item, s1)" "invar (world s1)" "ahead s1 = b"
    "sent (world s1) = sent (world s)"
    unfolding does_def by fastforce
  show ?case
  proof (cases last_item)
    case (Inl e)
    with s1 show ?thesis by (simp add: pull_all.simps [of C h False out s] pull_item_def)
  next
    case (Inr r)
    with assms(6) have "r = None" by (cases r) auto
    with Inr s1 show ?thesis by (simp add: pull_all.simps [of C h False out s] pull_item_def)
  qed
next
  case (Cons d pieces)
  have "does (next_data C h) (data_frame d @ concat (map data_frame pieces) @ tail) (Inr (Some d))
      (concat (map data_frame pieces) @ tail) []"
    using Cons.prems(4) by (intro does_next_data) simp
  with Cons.prems(1,2,3) obtain s1 where
    s1: "next_data C h s = Some (Inr (Some d), s1)" "invar (world s1)" "takes (world s1) n"
      "ahead s1 = concat (map data_frame pieces) @ tail" "sent (world s1) = sent (world s)"
    unfolding does_def by fastforce
  have "pull_all C h False out s = pull_all C h False (out @ d) s1"
    using s1(1) by (simp add: pull_all.simps [of C h False out s] pull_item_def)
  with Cons.IH [OF s1(2,3,4), of "out @ d"] Cons.prems(4) s1(5) show ?case
    by (simp cong: sum.case_cong)
qed

text \<open>A client on a fresh reader, and the quit that ends most calls.\<close>

lemma on_fresh_reader:
  assumes "does m (avail w) r b out" and "invar w" and "takes w (length out + n)"
  shows "\<exists>c. m \<lparr>buffer = [], world = w\<rparr> = Some (r, c) \<and> invar (world c) \<and> ahead c = b
     \<and> sent (world c) = sent w @ out \<and> (\<not> isl r \<longrightarrow> takes (world c) n)"
proof -
  let ?s = "\<lparr>buffer = [], world = w\<rparr>"
  have "invar (world ?s) \<and> takes (world ?s) (length out + n) \<and> ahead ?s = avail w"
    using assms(2,3) by (simp add: ahead_def)
  from assms(1) [unfolded does_def, rule_format, OF this] show ?thesis by simp
qed

lemma fresh_reader:
  assumes "does m (avail w) r b out" and "invar w" and "takes w (length out)"
  shows "\<exists>w'. with_reader m w = Some (r, w') \<and> sent w' = sent w @ out"
  using on_fresh_reader [OF assms(1,2), of 0] assms(3) by (auto simp: with_reader_def)

lemma sync_quit_run:
  assumes "invar (world c)" and "takes (world c) 8"
  shows "\<exists>c'. sync_quit C h c = Some (Inr (), c') \<and> sent (world c') = sent (world c) @ sync_word QUIT_ID 0"
proof -
  have "takes (world c) (length (sync_word QUIT_ID 0) + 0)" using assms(2) by (simp add: sync_word_def sync_ids)
  with does_sync_send [of "sync_word QUIT_ID 0" "ahead c"] assms(1) obtain c1 where
    c1: "sync_send C h (sync_word QUIT_ID 0) c = Some (Inr (), c1)" "invar (world c1)"
      "sent (world c1) = sent (world c) @ sync_word QUIT_ID 0"
    unfolding does_def by blast
  obtain w2 where "ch_close C h (world c1) = Some (Inr (), w2)" "sent w2 = sent (world c1)"
    using close [OF c1(2)] by blast
  with c1 show ?thesis by (simp add: sync_quit_def and_then_ok on_world_def on_part_def)
qed

lemma with_quit:
  assumes "does m (avail w) (Inr x) b out" and "invar w" and "takes w (length out + 8)"
  shows "\<exists>w'. with_reader (and_then m (\<lambda>x. and_then (sync_quit C h) (\<lambda>_. ret x))) w = Some (Inr x, w')
     \<and> sent w' = sent w @ out @ sync_word QUIT_ID 0"
proof -
  obtain c where c: "m \<lparr>buffer = [], world = w\<rparr> = Some (Inr x, c)" "invar (world c)"
    "takes (world c) 8" "sent (world c) = sent w @ out"
    using on_fresh_reader [OF assms] by auto
  obtain c' where "sync_quit C h c = Some (Inr (), c')" "sent (world c') = sent (world c) @ sync_word QUIT_ID 0"
    using sync_quit_run [OF c(2,3)] by blast
  with c show ?thesis by (simp add: with_reader_def and_then_ok)
qed

lemma pull_run:
  assumes "length path < 2 ^ 32" and "invar w" and "takes w (length (pull_request F path))"
    and "avail w = concat (map data_frame pieces) @ tail" and "\<forall>d \<in> set pieces. length d \<le> DATA_MAX"
    and "does (next_data C h) tail last_item b []" and "\<And>d. last_item \<noteq> Inr (Some d)"
  shows "\<exists>w'. with_reader (and_then (start_pull C h F path) (\<lambda>_. pull_all C h False [])) w =
       Some (case last_item of Inl e \<Rightarrow> Inl e | Inr _ \<Rightarrow> Inr (concat pieces), w')
     \<and> sent w' = sent w @ pull_request F path"
proof -
  obtain c where c: "start_pull C h F path \<lparr>buffer = [], world = w\<rparr> = Some (Inr (), c)" "invar (world c)"
    "takes (world c) 0" "ahead c = avail w" "sent (world c) = sent w @ pull_request F path"
    using on_fresh_reader [OF does_start_pull [OF assms(1), of F "avail w"] assms(2), of 0] assms(3) by auto
  obtain c' where "pull_all C h False [] c = Some (case last_item of Inl e \<Rightarrow> Inl e | Inr _ \<Rightarrow> Inr (concat pieces), c')"
    "sent (world c') = sent (world c)"
    using pull_all_done [OF c(2,3) c(4) [unfolded assms(4)] assms(5,6,7), of "[]"] by (auto cong: sum.case_cong)
  with c show ?thesis by (simp add: with_reader_def and_then_ok)
qed

end

text \<open>The device API on an opened channel.\<close>

lemma on_conn_run: "m (dv_world s) = Some (r, w') \<Longrightarrow> on_conn m s = Some (r, s\<lparr>dv_world := w'\<rparr>)"
  by (simp add: on_conn_def on_part_def)

context channel
begin

lemma pull_bytes_run:
  assumes N: "cn_channel N = C" "device_sync N s = Some (Inr (h, F), s1)"
    and "invar (dv_world s1)" and "takes (dv_world s1) (length (pull_request F path))" and "length path < 2 ^ 32"
    and "avail (dv_world s1) = concat (map data_frame pieces) @ tail" and "\<forall>d \<in> set pieces. length d \<le> DATA_MAX"
    and "does (next_data C h) tail last_item b []" and "\<And>d. last_item \<noteq> Inr (Some d)"
  shows "\<exists>s'. pull_bytes N path s =
       Some (case last_item of Inl e \<Rightarrow> Inl e | Inr _ \<Rightarrow> Inr (concat pieces), s')
     \<and> sent (dv_world s') = sent (dv_world s1) @ pull_request F path"
proof -
  from pull_run [OF assms(5,3,4,6-9)] obtain w' where
    "with_reader (and_then (start_pull C h F path) (\<lambda>_. pull_all C h False [])) (dv_world s1) =
       Some (case last_item of Inl e \<Rightarrow> Inl e | Inr _ \<Rightarrow> Inr (concat pieces), w')"
    "sent w' = sent (dv_world s1) @ pull_request F path" by blast
  then show ?thesis by (simp add: pull_bytes_def and_then_ok N on_conn_run)
qed

lemma list_dir_run:
  assumes N: "cn_channel N = C" "device_sync N s = Some (Inr (h, F), s1)" and "invar (dv_world s1)"
    and "takes (dv_world s1) (length (request_bytes (list_request_id F) path) + 8)"
    and "avail (dv_world s1) = listing F es @ rest"
    and "\<forall>en \<in> set es. length (snd en) < 2 ^ 32" and "length path < 2 ^ 32"
  shows "\<exists>s'. list_dir N path s = Some (Inr (map (listed F) es), s')
     \<and> sent (dv_world s') = sent (dv_world s1) @ request_bytes (list_request_id F) path @ sync_word QUIT_ID 0"
proof -
  from with_quit [OF does_list [OF assms(7,6), of F rest, folded assms(5)] assms(3,4)] obtain w' where
    "with_reader (and_then (sync_list C h F path) (\<lambda>entries. and_then (sync_quit C h) (\<lambda>_. ret entries)))
       (dv_world s1) = Some (Inr (map (listed F) es), w')"
    "sent w' = sent (dv_world s1) @ request_bytes (list_request_id F) path @ sync_word QUIT_ID 0" by blast
  then show ?thesis by (simp add: list_dir_def and_then_ok N on_conn_run)
qed

lemma push_bytes_run:
  assumes N: "cn_channel N = C" "device_sync N s = Some (Inr (h, F), s1)" and "invar (dv_world s1)"
    and "takes (dv_world s1) (length (push_request F path mode) + 9 * length data + 16)"
    and "avail (dv_world s1) = reply @ rest"
    and "reply = sync_word OKAY_ID n \<and> res = Inr () \<and> goodbye = sync_word QUIT_ID 0
       \<or> reply = fail_frame msg \<and> length msg < 2 ^ 32 \<and> res = Inl (RemoteFailure (Lit (utf8_lossy msg)))
           \<and> goodbye = []"
    and "length (path @ '','' @ dec_of_nat (unat mode)) < 2 ^ 32"
  shows "\<exists>s' pieces. push_bytes N data path mode mtime s = Some (res, s')
     \<and> concat pieces = data \<and> (\<forall>d \<in> set pieces. d \<noteq> [] \<and> length d \<le> DATA_MAX)
     \<and> sent (dv_world s') = sent (dv_world s1) @ push_request F path mode
          @ concat (map data_frame pieces) @ sync_word DONE_ID mtime @ goodbye"
proof -
  let ?c = "\<lparr>buffer = [], world = dv_world s1\<rparr>"
  have ahead: "ahead ?c = reply @ rest" by (simp add: ahead_def assms(5))
  have status: "does (read_status C h) (reply @ rest) res rest []"
    using assms(6) does_status_okay does_status_fail by blast
  have "takes (world ?c) (length (push_request F path mode) + 9 * length (id data) + 8 + 8)"
    using assms(4) by (simp add: add.commute add.left_commute)
  from sync_push_run [OF reads_bytes_slice assms(7) status _ this ahead, where mtime = mtime] assms(3)
  obtain c' r' pieces where push: "sync_push C h F slice_reader path mode mtime (?c, data) = Some (res, (c', r'))"
    "concat pieces = data" "\<forall>d \<in> set pieces. d \<noteq> [] \<and> length d \<le> DATA_MAX"
    "invar (world c')" "\<not> isl res \<longrightarrow> takes (world c') 8"
    "sent (world c') = sent (dv_world s1) @ push_request F path mode
       @ concat (map data_frame pieces) @ sync_word DONE_ID mtime"
    by auto
  show ?thesis
  proof (cases res)
    case (Inl e)
    have "push_bytes N data path mode mtime s = Some (res, s1\<lparr>dv_world := world c'\<rparr>)"
      using push(1) Inl by (simp add: push_bytes_def and_then_ok N on_conn_def on_part_def with_reader_def)
    moreover have "goodbye = []" using assms(6) Inl by auto
    ultimately show ?thesis using push
      by (intro exI [of _ "s1\<lparr>dv_world := world c'\<rparr>"] exI [of _ pieces]) simp
  next
    case (Inr u)
    with push(5) have "takes (world c') 8" by simp
    from sync_quit_run [OF push(4) this] obtain c2 where quit: "sync_quit C h c' = Some (Inr (), c2)"
      "sent (world c2) = sent (world c') @ sync_word QUIT_ID 0" by blast
    have "push_bytes N data path mode mtime s = Some (res, s1\<lparr>dv_world := world c2\<rparr>)"
      using push(1) quit(1) Inr by (simp add: push_bytes_def and_then_ok N on_conn_def on_part_def with_reader_def)
    moreover have "goodbye = sync_word QUIT_ID 0" using assms(6) Inr by auto
    ultimately show ?thesis using push quit(2)
      by (intro exI [of _ "s1\<lparr>dv_world := world c2\<rparr>"] exI [of _ pieces]) simp
  qed
qed

lemma device_stat_run:
  assumes N: "cn_channel N = C" "device_sync N s = Some (Inr (h, F), s1)" and "invar (dv_world s1)"
    and "takes (dv_world s1) (length (stat_request F path) + 8)"
    and "avail (dv_world s1) = stat_reply F st @ rest" and "length path < 2 ^ 32"
  shows "\<exists>s'. device_stat N path s = Some (Inr (seen (stat_v2_ok F) st), s')
     \<and> sent (dv_world s') = sent (dv_world s1) @ stat_request F path @ sync_word QUIT_ID 0"
proof -
  from with_quit [OF does_stat [OF assms(6), of F st rest, folded assms(5)] assms(3,4)] obtain w' where
    "with_reader (and_then (sync_stat C h F path) (\<lambda>st. and_then (sync_quit C h) (\<lambda>_. ret st))) (dv_world s1)
       = Some (Inr (seen (stat_v2_ok F) st), w')"
    "sent w' = sent (dv_world s1) @ stat_request F path @ sync_word QUIT_ID 0" by blast
  then show ?thesis by (simp add: device_stat_def and_then_ok N on_conn_run)
qed

end

subsection \<open>Properties\<close>

text \<open>
  A pulled file is exactly the concatenation of the device's DATA chunks, over any byte stream
  and however its bytes arrive, and the device was sent nothing but the request the features call for.
\<close>

lemma pull_bytes_content:
  assumes "host_connection N avail out" and "device_sync N s = Some (Inr ((), F), s1)"
    and "avail (hc_in (dv_world s1)) = concat (map data_frame pieces) @ sync_word DONE_ID t @ rest"
    and "\<forall>d \<in> set pieces. length d \<le> DATA_MAX" and "length path < 2 ^ 32"
  shows "\<exists>s'. pull_bytes N path s = Some (Inr (concat pieces), s')
     \<and> out (hc_out (dv_world s')) = out (hc_out (dv_world s1)) @ pull_request F path"
proof -
  have ch: "channel (cn_channel N) () (\<lambda>s. avail (hc_in s)) (\<lambda>s. length (avail (hc_in s))) True
     (\<lambda>s. out (hc_out s)) (\<lambda>_ _. True) (\<lambda>_. True)"
    by (rule host_connection_channel [OF assms(1)])
  show ?thesis
    using channel.pull_bytes_run [OF ch refl assms(2) TrueI TrueI assms(5,3,4) channel.does_next_done [OF ch]] by simp
qed

definition sample_sync :: "bytes list \<Rightarrow> ((bytes list, bytes) host_channel) device" where
  "sample_sync bs = \<lparr>dv_world = new_host_channel bs [], dv_features = Some [''ls_v2'', ''sendrecv_v2'']\<rparr>"

lemma sample_sync_open:
  "device_sync sample_connection (sample_sync bs)
     = Some (Inr ((), from_features [''ls_v2'', ''sendrecv_v2'']), sample_sync bs)"
  by (simp add: device_sync_def device_features_def sample_sync_def and_then_ok on_conn_run
      sample_connection_open)

lemma sample_sync_world [simp]:
  "hc_in (dv_world (sample_sync bs)) = bs" "hc_out (dv_world (sample_sync bs)) = []"
  by (simp_all add: sample_sync_def new_host_channel_def)

text \<open>
  A pull that the device does not finish never returns content: a failure message is reported as
  such, an oversized chunk is refused, and a stream that just ends is an error, whatever chunks came
  before.
\<close>

lemma pull_bytes_broken:
  assumes "host_connection N avail out" and "device_sync N s = Some (Inr ((), F), s1)"
    and "avail (hc_in (dv_world s1)) = concat (map data_frame pieces) @ tail"
    and "\<forall>d \<in> set pieces. length d \<le> DATA_MAX" and "length path < 2 ^ 32"
    and "tail = fail_frame msg @ rest \<and> length msg < 2 ^ 32 \<and> e = RemoteFailure (Lit (utf8_lossy msg))
       \<or> tail = sync_word DATA_ID n @ rest \<and> DATA_MAX < unat n \<and> e = chunk_too_big (unat n)
       \<or> length tail < 4 \<and> e = StreamClosed"
  shows "\<exists>s'. pull_bytes N path s = Some (Inl e, s')"
proof -
  have ch: "channel (cn_channel N) () (\<lambda>s. avail (hc_in s)) (\<lambda>s. length (avail (hc_in s))) True
     (\<lambda>s. out (hc_out s)) (\<lambda>_ _. True) (\<lambda>_. True)"
    by (rule host_connection_channel [OF assms(1)])
  note next_item = channel.does_next_fail [OF ch] channel.does_next_too_big [OF ch] channel.does_next_cut [OF ch TrueI]
  from assms(6) obtain b where
    "channel.does (\<lambda>s. avail (hc_in s)) (\<lambda>s. out (hc_out s)) (\<lambda>_ _. True) (\<lambda>_. True)
       (next_data (cn_channel N) ()) tail (Inl e) b []"
    using next_item by blast
  from channel.pull_bytes_run [OF ch refl assms(2) TrueI TrueI assms(5,3,4) this] show ?thesis by auto
qed

text \<open>
  Listing a directory gives the device's entries in order, names decoded and every field of the
  layout in use kept; the device was sent the request and the quit.
\<close>

lemma list_dir_entries:
  assumes "host_connection N avail out" and "device_sync N s = Some (Inr ((), F), s1)"
    and "avail (hc_in (dv_world s1)) = listing F es @ rest"
    and "\<forall>en \<in> set es. length (snd en) < 2 ^ 32" and "length path < 2 ^ 32"
  shows "\<exists>s'. list_dir N path s = Some (Inr (map (listed F) es), s')
     \<and> out (hc_out (dv_world s')) = out (hc_out (dv_world s1)) @ request_bytes (list_request_id F) path
          @ sync_word QUIT_ID 0"
  using channel.list_dir_run [OF host_connection_channel [OF assms(1)] refl assms(2) TrueI TrueI assms(3-5)] .

definition sample_stat :: stat where
  "sample_stat = \<lparr>st_mode = 0x81A4, st_size = 5, st_mtime = 9, st_error = Some 0, st_detail = None\<rparr>"

text \<open>
  A push sends the request, the whole content in DATA chunks of at most 64 KiB and the closing
  DONE with the mtime, in this order; it succeeds exactly when the device answers OKAY, and otherwise
  reports the device's message.
\<close>

lemma push_bytes_delivers:
  assumes "host_connection N avail out" and "device_sync N s = Some (Inr ((), F), s1)"
    and "avail (hc_in (dv_world s1)) = reply @ rest"
    and "reply = sync_word OKAY_ID n \<and> res = Inr () \<and> goodbye = sync_word QUIT_ID 0
       \<or> reply = fail_frame msg \<and> length msg < 2 ^ 32 \<and> res = Inl (RemoteFailure (Lit (utf8_lossy msg)))
           \<and> goodbye = []"
    and "length (path @ '','' @ dec_of_nat (unat mode)) < 2 ^ 32"
  shows "\<exists>s' pieces. push_bytes N data path mode mtime s = Some (res, s')
     \<and> concat pieces = data \<and> (\<forall>d \<in> set pieces. d \<noteq> [] \<and> length d \<le> DATA_MAX)
     \<and> out (hc_out (dv_world s')) = out (hc_out (dv_world s1)) @ push_request F path mode
          @ concat (map data_frame pieces) @ sync_word DONE_ID mtime @ goodbye"
  using channel.push_bytes_run [OF host_connection_channel [OF assms(1)] refl assms(2) TrueI TrueI assms(3-5)] .

text \<open>
  A stat gives back what the device encoded: every field in the 64-bit layout; in the old one the
  mode, and size and mtime where they fit in 32 bits (0xFFFFFFFF and 0 stand for what does not).
\<close>

lemma stat_fields:
  assumes "host_connection N avail out" and "device_sync N s = Some (Inr ((), F), s1)"
    and "avail (hc_in (dv_world s1)) = stat_reply F st @ rest" and "length path < 2 ^ 32"
  shows "\<exists>s'. device_stat N path s = Some (Inr (seen (stat_v2_ok F) st), s')
     \<and> out (hc_out (dv_world s')) = out (hc_out (dv_world s1)) @ stat_request F path @ sync_word QUIT_ID 0"
  using channel.device_stat_run [OF host_connection_channel [OF assms(1)] refl assms(2) TrueI TrueI assms(3,4)] .

text \<open>
  C37: a listing the device refuses in a frame shorter than a directory header, before it ends the
  stream, is reported as a closed stream and the message is lost, although the same failure answered to a pull or a push is
  reported with its text: the failure is read with the size of a directory entry, not its own.
\<close>

theorem list_failure_lost:
  assumes "host_connection N avail out" and "device_sync N s = Some (Inr ((), F), s1)"
    and "avail (hc_in (dv_world s1)) = fail_frame msg" and "8 + length msg < dent_len F"
    and "length path < 2 ^ 32"
  shows "\<exists>s'. list_dir N path s = Some (Inl StreamClosed, s')"
proof -
  have ch: "channel (cn_channel N) () (\<lambda>s. avail (hc_in s)) (\<lambda>s. length (avail (hc_in s))) True
     (\<lambda>s. out (hc_out s)) (\<lambda>_ _. True) (\<lambda>_. True)"
    by (rule host_connection_channel [OF assms(1)])
  obtain w' where "with_reader (and_then (sync_list (cn_channel N) () F path)
        (\<lambda>entries. and_then (sync_quit (cn_channel N) ()) (\<lambda>_. ret entries))) (dv_world s1)
      = Some (Inl StreamClosed, w')"
    using channel.fresh_reader [OF ch channel.does_then_err [OF ch
        channel.does_list_fail_short [OF ch assms(5,4) TrueI, folded assms(3)]] TrueI TrueI] by blast
  then show ?thesis by (simp add: list_dir_def and_then_ok assms(2) on_conn_run)
qed

theorem list_failure_lost_witness:
  "\<exists>s'. list_dir sample_connection ''/d'' (sample_sync [fail_frame (as_bytes ''denied'')]) = Some (Inl StreamClosed, s')"
  using list_failure_lost [OF sample_connection_ok sample_sync_open [of "[fail_frame (as_bytes ''denied'')]"],
      where msg = "as_bytes ''denied''" and path = "''/d''"]
  by (simp add: from_features_def dent_len_def DENT_V2_LEN_def)

end
