(* ===== verification/Host.thy ===== *)
theory Host
  imports Device
begin

section \<open>The adb server client\<close>

text \<open>
  \<open>src/host/proto.rs\<close> and \<open>src/host/mod.rs\<close>: length-prefixed requests and replies, status words, the
  device list, and \<open>HostClient\<close>/\<open>HostDevice\<close>. Every request runs on a TCP stream of its own: connecting
  is a parameter that gives the stream's two ends, \<open>set_nodelay\<close> another. Opening a service
  makes the stream the current host channel, so \<open>host_device\<close> is a connection in the sense of the
  services. The lemmas show the round trip of the length prefix and what opening a service sends.
\<close>

subsection \<open>The protocol\<close>

definition long_request :: error where
  "long_request = InvalidArgument (Lit ''host request longer than 65535 bytes'')"

definition send_request :: "'w async_write \<Rightarrow> str \<Rightarrow> ('w, unit) comp" where
  "send_request W request =
     (if 0xFFFF < length request then throw long_request
      else
        and_then (io_err Io (aw_write_all W (as_bytes (hex4 (length request) @ request)))) (\<lambda>_.
        and_then (io_err Io (aw_flush W)) (\<lambda>_.
        ret ())))"

definition eof_error :: "io_error \<Rightarrow> error" where
  "eof_error e = (case e of Io_error k m \<Rightarrow> if k = UnexpectedEof then Disconnected else Io e)"

definition bad_length :: "str \<Rightarrow> error" where
  "bad_length s = Protocol (Fmt ''bad length {text:?}'' [Txt s])"

definition read_len :: "'r async_read \<Rightarrow> ('r, nat) comp" where
  "read_len R =
     and_then (io_err eof_error (ar_read_exact R 4)) (\<lambda>hex.
       if \<not> valid_utf8 hex then throw (Protocol (Lit ''length is not ASCII hex''))
       else case from_str_radix 16 (2 ^ 64) (bytes_str hex) of
              None \<Rightarrow> throw (bad_length (bytes_str hex))
            | Some n \<Rightarrow> ret n)"

definition read_block :: "'r async_read \<Rightarrow> ('r, str) comp" where
  "read_block R =
     and_then (read_len R) (\<lambda>len.
     and_then (io_err eof_error (ar_read_exact R len)) (\<lambda>buf.
     ret (utf8_lossy buf)))"

definition unexpected_status :: "bytes \<Rightarrow> error" where
  "unexpected_status wd = Protocol (Fmt ''unexpected status {:?}'' [Txt (utf8_lossy wd)])"

definition host_status :: "'r async_read \<Rightarrow> ('r, unit) comp" where
  "host_status R =
     and_then (io_err eof_error (ar_read_exact R 4)) (\<lambda>wd.
       if wd = as_bytes ''OKAY'' then ret ()
       else if wd = as_bytes ''FAIL'' then and_then (read_block R) (\<lambda>m. throw (RemoteFailure (Lit m)))
       else throw (unexpected_status wd))"

record device_entry =
  de_serial :: str
  de_state :: str
  de_attributes :: "(str \<times> str) list"

definition parse_device :: "str \<Rightarrow> device_entry option" where
  "parse_device line =
     (case split_whitespace line of
        sr # st # parts \<Rightarrow>
          Some \<lparr>de_serial = sr, de_state = st, de_attributes = List.map_filter (split_once '':'') parts\<rparr>
      | _ \<Rightarrow> None)"

definition parse_devices :: "str \<Rightarrow> device_entry list" where
  "parse_devices s = List.map_filter parse_device (lines s)"

subsection \<open>The client\<close>

text \<open>
  The network: \<open>connect\<close> opens a TCP stream to the server's address and gives its ends,
  \<open>nodelay\<close> sets the socket option on them, and \<open>dropped\<close> is what becomes of the network when a
  stream is dropped, in the state the code left it. An error to connect keeps its kind.
\<close>

record ('n, 'r, 'w) network =
  nw_read :: "'r async_read"
  nw_write :: "'w async_write"
  nw_connect :: "('n, 'r \<times> 'w) io"
  nw_nodelay :: "'r \<times> 'w \<Rightarrow> ('n, unit) io"
  nw_addr :: str
  nw_dropped :: "'r \<times> 'w \<Rightarrow> 'n \<Rightarrow> 'n"

definition connect_error :: "str \<Rightarrow> io_error \<Rightarrow> error" where
  "connect_error addr e =
     (case e of Io_error k m \<Rightarrow> Io (Io_error k (Fmt ''adb server at {}: {e}'' (Txt addr # text_args m))))"

definition host_connect :: "('n, 'r, 'w) network \<Rightarrow> ('n, 'r \<times> 'w) comp" where
  "host_connect W =
     and_then (io_err (connect_error (nw_addr W)) (nw_connect W)) (\<lambda>t.
     and_then (io_err Io (nw_nodelay W t)) (\<lambda>_.
     ret t))"

text \<open>A computation on a stream of its own, dropped at the end; \<open>rd\<close> and \<open>wr\<close> use its ends.\<close>

definition on_stream :: "('n, 'r, 'w) network \<Rightarrow> 'r \<times> 'w \<Rightarrow> ('r \<times> 'w, 'a) comp \<Rightarrow> ('n, 'a) comp" where
  "on_stream W t m n = (case m t of None \<Rightarrow> None | Some (r, t') \<Rightarrow> Some (r, nw_dropped W t' n))"

definition rd :: "('r, 'a) comp \<Rightarrow> ('r \<times> 'w, 'a) comp" where
  "rd = on_part fst (\<lambda>r t. (r, snd t))"

definition wr :: "('w, 'a) comp \<Rightarrow> ('r \<times> 'w, 'a) comp" where
  "wr = on_part snd (\<lambda>w t. (fst t, w))"

definition query :: "('n, 'r, 'w) network \<Rightarrow> str \<Rightarrow> ('n, str) comp" where
  "query W request =
     and_then (host_connect W) (\<lambda>t.
     on_stream W t
       (and_then (wr (send_request (nw_write W) request)) (\<lambda>_.
        and_then (rd (host_status (nw_read W))) (\<lambda>_.
        rd (read_block (nw_read W))))))"

definition server_version :: "('n, 'r, 'w) network \<Rightarrow> ('n, nat) comp" where
  "server_version W =
     and_then (query W ''host:version'') (\<lambda>hex.
       case from_str_radix 16 (2 ^ 32) (trim hex) of
         None \<Rightarrow> throw (Parse (Fmt ''version {hex:?}'' [Txt hex]))
       | Some v \<Rightarrow> ret v)"

definition devices :: "('n, 'r, 'w) network \<Rightarrow> ('n, device_entry list) comp" where
  "devices W = and_then (query W ''host:devices-l'') (\<lambda>s. ret (parse_devices s))"

definition split_features :: "str \<Rightarrow> str list" where
  "split_features s = filter (\<lambda>f. f \<noteq> []) (map trim (split_char (CHR '','') s))"

definition host_features :: "('n, 'r, 'w) network \<Rightarrow> ('n, str list) comp" where
  "host_features W = and_then (query W ''host:features'') (\<lambda>s. ret (split_features s))"

text \<open>\<open>track_devices\<close>: the stream's state is its TCP stream, or nothing once it has ended.\<close>

definition track_start :: "('n, 'r, 'w) network \<Rightarrow> ('n, 'r \<times> 'w) comp" where
  "track_start W n =
     (case host_connect W n of
        None \<Rightarrow> None
      | Some (Inl e, n') \<Rightarrow> Some (Inl e, n')
      | Some (Inr t, n') \<Rightarrow>
          (case and_then (wr (send_request (nw_write W) ''host:track-devices'')) (\<lambda>_.
                 rd (host_status (nw_read W))) t of
             None \<Rightarrow> None
           | Some (Inl e, t') \<Rightarrow> Some (Inl e, nw_dropped W t' n')
           | Some (Inr _, t') \<Rightarrow> Some (Inr t', n')))"

definition track_next ::
  "'r async_read \<Rightarrow> ('r \<times> 'w) option \<Rightarrow> (device_entry list result \<times> ('r \<times> 'w) option) option option" where
  "track_next R st =
     (case st of
        None \<Rightarrow> Some None
      | Some t \<Rightarrow>
          (case rd (read_block R) t of
             None \<Rightarrow> None
           | Some (Inr s, t') \<Rightarrow> Some (Some (Inr (parse_devices s), Some t'))
           | Some (Inl e, t') \<Rightarrow> if e = Disconnected then Some None else Some (Some (Inl e, None))))"

definition only_device :: "('n, 'r, 'w) network \<Rightarrow> ('n, str) comp" where
  "only_device W =
     and_then (devices W) (\<lambda>ds.
       case filter (\<lambda>d. de_state d = ''device'') ds of
         [d] \<Rightarrow> ret (de_serial d)
       | [] \<Rightarrow> throw (NoDevice (Some (Lit ''adb server lists no online device'')))
       | online \<Rightarrow> throw (NoDevice (Some
           (Fmt ''adb server lists {n} devices, pass a serial'' [Num (int (length online))]))))"

subsection \<open>A device behind the server\<close>

definition refuse_service :: "str \<Rightarrow> error \<Rightarrow> error" where
  "refuse_service svc e = (case e of RemoteFailure _ \<Rightarrow> ServiceRefused svc | other \<Rightarrow> other)"

definition transport_request :: "str \<Rightarrow> str" where
  "transport_request sr = ''host:transport:'' @ sr"

definition start_service :: "('n, 'r, 'w) network \<Rightarrow> str \<Rightarrow> str \<Rightarrow> ('r \<times> 'w, unit) comp" where
  "start_service W sr svc =
     and_then (wr (send_request (nw_write W) (transport_request sr))) (\<lambda>_.
     and_then (rd (host_status (nw_read W))) (\<lambda>_.
     and_then (wr (send_request (nw_write W) svc)) (\<lambda>_.
     map_err (refuse_service svc) (rd (host_status (nw_read W))))))"

definition host_open ::
  "(('r, 'w) host_channel, 'r, 'w) network \<Rightarrow> str \<Rightarrow> str \<Rightarrow> (('r, 'w) host_channel, unit) comp" where
  "host_open W sr svc n =
     (case host_connect W n of
        None \<Rightarrow> None
      | Some (Inl e, n') \<Rightarrow> Some (Inl e, n')
      | Some (Inr t, n') \<Rightarrow>
          (case start_service W sr svc t of
             None \<Rightarrow> None
           | Some (Inl e, t') \<Rightarrow> Some (Inl e, nw_dropped W t' n')
           | Some (Inr _, (r, w)) \<Rightarrow> Some (Inr (), new_host_channel r w)))"

definition host_device_features :: "('n, 'r, 'w) network \<Rightarrow> str \<Rightarrow> ('n, str list) comp" where
  "host_device_features W sr =
     and_then (query W (''host-serial:'' @ sr @ '':features'')) (\<lambda>s. ret (split_features s))"

definition host_device ::
  "(('r, 'w) host_channel, 'r, 'w) network \<Rightarrow> ('w, unit) io \<Rightarrow> str \<Rightarrow> (('r, 'w) host_channel, unit) connection" where
  "host_device W shutdown sr =
     \<lparr>cn_channel = host_channel_ops (nw_read W) (nw_write W) shutdown,
      cn_open = host_open W sr, cn_features = host_device_features W sr\<rparr>"

subsection \<open>The length prefix\<close>

lemma hex_digit_table:
  "\<forall>d \<in> set [0..<16]. hex_digit d \<noteq> CHR ''+'' \<and> hex_digit d \<noteq> CHR ''-'' \<and> byte_of (hex_digit d) < 0x80"
  by code_simp

lemma hex_digit_char: "d < 16 \<Longrightarrow> hex_digit d \<noteq> CHR ''+'' \<and> hex_digit d \<noteq> CHR ''-'' \<and> byte_of (hex_digit d) < 0x80"
  using hex_digit_table by simp

lemma hex_digit_val: "d < 16 \<Longrightarrow> digit_val 16 (hex_digit d) = Some d"
  by (auto simp: hex_digit_def digit_val_def Let_def)

lemma hex4_value:
  assumes "n < 65536"
  shows "from_str_radix 16 (2 ^ 64) (hex4 n) = Some n"
proof -
  have "n div 4096 mod 16 = n div 256 div 16" using assms by (simp add: div_mult2_eq [symmetric])
  then have a: "n div 4096 mod 16 * 16 + n div 256 mod 16 = n div 256" by simp
  have "n div 256 = n div 16 div 16" by (simp add: div_mult2_eq [symmetric])
  then have b: "n div 256 * 16 + n div 16 mod 16 = n div 16" by simp
  have c: "n div 16 * 16 + n mod 16 = n" by simp
  have small: "n div 256 < 2 ^ 64" "n div 16 < 2 ^ 64" "n < 2 ^ 64" "n div 4096 mod 16 < 2 ^ 64"
    using assms by (simp_all add: less_mult_imp_div_less)
  have "hex_digit (n div 4096 mod 16) \<noteq> CHR ''+''" using hex_digit_char by simp
  then show ?thesis
    unfolding hex4_def from_str_radix_def
    using small by (simp add: hex_digit_val a b c del: div_mult_mod_eq)
qed

lemma hex4_length [simp]: "length (hex4 n) = 4"
  by (simp add: hex4_def)

lemma hex4_ascii: "c \<in> set (hex4 n) \<Longrightarrow> byte_of c < 0x80"
  using hex_digit_char by (auto simp: hex4_def)

lemma ascii_valid: "\<forall>c \<in> set s. byte_of c < 0x80 \<Longrightarrow> wf_str s"
  by (induction s) simp_all

lemma hex4_valid [simp]: "wf_str (hex4 n)"
  by (rule ascii_valid) (use hex4_ascii in blast)

definition host_block :: "str \<Rightarrow> bytes" where
  "host_block s = as_bytes (hex4 (length s) @ s)"

lemma send_request_run:
  assumes "writes_bytes W out" and "length request \<le> 0xFFFF"
  shows "\<exists>w'. send_request W request w = Some (Inr (), w') \<and> out w' = out w @ host_block request"
proof -
  obtain w1 where w1: "aw_write_all W (host_block request) w = Some (Inr (), w1)" "out w1 = out w @ host_block request"
    using writes_bytesD(1) [OF assms(1)] by blast
  obtain w2 where "aw_flush W w1 = Some (Inr (), w2)" "out w2 = out w1"
    using writes_bytesD(2) [OF assms(1)] by blast
  with w1 show ?thesis
    using assms(2) by (simp add: send_request_def and_then_ok io_err_def host_block_def)
qed

lemma read_exact_io:
  assumes "reads_bytes R avail" and "avail r = bs @ rest" and "length bs = n"
  shows "\<exists>r'. io_err f (ar_read_exact R n) r = Some (Inr bs, r') \<and> avail r' = rest"
proof -
  have "n \<le> length (avail r)" using assms(2,3) by simp
  from reads_bytesD(2) [OF assms(1) this] assms(2,3) show ?thesis by (auto simp: io_err_def)
qed

lemma read_len_run:
  assumes R: "reads_bytes R avail" and "avail r = as_bytes (hex4 n) @ rest" and "n \<le> 0xFFFF"
  shows "\<exists>r'. read_len R r = Some (Inr n, r') \<and> avail r' = rest"
proof -
  obtain r1 where "io_err eof_error (ar_read_exact R 4) r = Some (Inr (as_bytes (hex4 n)), r1)" "avail r1 = rest"
    using read_exact_io [OF R assms(2), of 4 eof_error] by auto
  with hex4_value [of n] assms(3) show ?thesis by (simp add: read_len_def and_then_ok del: map_map)
qed

lemma read_block_run:
  assumes R: "reads_bytes R avail" and "avail r = host_block s @ rest" and "length s \<le> 0xFFFF" and "wf_str s"
  shows "\<exists>r'. read_block R r = Some (Inr s, r') \<and> avail r' = rest"
proof -
  have "avail r = as_bytes (hex4 (length s)) @ as_bytes s @ rest" using assms(2) by (simp add: host_block_def)
  from read_len_run [OF R this assms(3)] obtain r1 where
    r1: "read_len R r = Some (Inr (length s), r1)" "avail r1 = as_bytes s @ rest" by blast
  obtain r2 where "io_err eof_error (ar_read_exact R (length s)) r1 = Some (Inr (as_bytes s), r2)" "avail r2 = rest"
    using read_exact_io [OF R r1(2), of "length s" eof_error] by auto
  with r1 show ?thesis
    by (simp add: read_block_def and_then_ok utf8_lossy_str [OF assms(4)] del: map_map)
qed

lemma host_status_okay:
  assumes "reads_bytes R avail" and "avail r = as_bytes ''OKAY'' @ rest"
  shows "\<exists>r'. host_status R r = Some (Inr (), r') \<and> avail r' = rest"
proof -
  obtain r1 where "io_err eof_error (ar_read_exact R 4) r = Some (Inr (as_bytes ''OKAY''), r1)" "avail r1 = rest"
    using read_exact_io [OF assms, of 4 eof_error] by auto
  then show ?thesis by (simp add: host_status_def and_then_ok)
qed

lemma host_status_fail:
  assumes R: "reads_bytes R avail" and "avail r = as_bytes ''FAIL'' @ host_block m @ rest"
    and "length m \<le> 0xFFFF" and "wf_str m"
  shows "\<exists>r'. host_status R r = Some (Inl (RemoteFailure (Lit m)), r')"
proof -
  obtain r1 where r1: "io_err eof_error (ar_read_exact R 4) r = Some (Inr (as_bytes ''FAIL''), r1)"
    "avail r1 = host_block m @ rest"
    using read_exact_io [OF R assms(2), of 4 eof_error] by auto
  obtain r2 where "read_block R r1 = Some (Inr m, r2)"
    using read_block_run [OF R r1(2) assms(3,4)] by blast
  with r1 show ?thesis by (simp add: host_status_def and_then_ok del: list.map)
qed

lemma rd_run: "m r = Some (x, r') \<Longrightarrow> rd m (r, w) = Some (x, (r', w))"
  by (simp add: rd_def on_part_def)

lemma wr_run: "m w = Some (x, w') \<Longrightarrow> wr m (r, w) = Some (x, (r, w'))"
  by (simp add: wr_def on_part_def)

lemma host_connect_run:
  "nw_connect W n = Some (Inr t, n1) \<Longrightarrow> nw_nodelay W t n1 = Some (Inr (), n2) \<Longrightarrow>
     host_connect W n = Some (Inr t, n2)"
  by (simp add: host_connect_def and_then_ok io_err_def)

text \<open>A request on a stream of its own: exactly the request is sent, and the reply after \<open>OKAY\<close> comes back.\<close>

lemma query_run:
  assumes "reads_bytes (nw_read W) avail" and "writes_bytes (nw_write W) out"
    and "nw_connect W n = Some (Inr (r, w), n1)" and "nw_nodelay W (r, w) n1 = Some (Inr (), n2)"
    and "avail r = as_bytes ''OKAY'' @ host_block reply @ rest"
    and "length request \<le> 0xFFFF" and "length reply \<le> 0xFFFF" and "wf_str reply"
  shows "\<exists>t. query W request n = Some (Inr reply, nw_dropped W t n2) \<and> out (snd t) = out w @ host_block request"
proof -
  obtain w1 where w1: "send_request (nw_write W) request w = Some (Inr (), w1)" "out w1 = out w @ host_block request"
    using send_request_run [OF assms(2,6)] by blast
  obtain r1 where r1: "host_status (nw_read W) r = Some (Inr (), r1)" "avail r1 = host_block reply @ rest"
    using host_status_okay [OF assms(1,5)] by blast
  obtain r2 where "read_block (nw_read W) r1 = Some (Inr reply, r2)"
    using read_block_run [OF assms(1) r1(2) assms(7,8)] by blast
  with w1 r1 show ?thesis
    by (intro exI [of _ "(r2, w1)"])
      (simp add: query_def and_then_ok host_connect_run [OF assms(3,4)] on_stream_def rd_run wr_run)
qed

text \<open>Opening a service: both requests, and what is left to read after both answers.\<close>

lemma host_open_run:
  assumes "reads_bytes (nw_read W) avail" and "writes_bytes (nw_write W) out"
    and "nw_connect W n = Some (Inr (r, w), n1)" and "nw_nodelay W (r, w) n1 = Some (Inr (), n2)"
    and "avail r = as_bytes ''OKAY'' @ as_bytes ''OKAY'' @ rest"
    and "length (transport_request sr) \<le> 0xFFFF" and "length svc \<le> 0xFFFF"
  shows "\<exists>c. cn_open (host_device W shutdown sr) svc n = Some (Inr (), c) \<and> \<not> hc_closed c
     \<and> avail (hc_in c) = rest
     \<and> out (hc_out c) = out w @ host_block (transport_request sr) @ host_block svc"
proof -
  obtain w1 where w1: "send_request (nw_write W) (transport_request sr) w = Some (Inr (), w1)"
    "out w1 = out w @ host_block (transport_request sr)"
    using send_request_run [OF assms(2,6)] by blast
  obtain r1 where r1: "host_status (nw_read W) r = Some (Inr (), r1)" "avail r1 = as_bytes ''OKAY'' @ rest"
    using host_status_okay [OF assms(1,5)] by blast
  obtain w2 where w2: "send_request (nw_write W) svc w1 = Some (Inr (), w2)" "out w2 = out w1 @ host_block svc"
    using send_request_run [OF assms(2,7)] by blast
  obtain r2 where r2: "host_status (nw_read W) r1 = Some (Inr (), r2)" "avail r2 = rest"
    using host_status_okay [OF assms(1) r1(2)] by blast
  have "start_service W sr svc (r, w) = Some (Inr (), (r2, w2))"
    using w1(1) r1(1) w2(1) r2(1)
    by (simp add: start_service_def and_then_ok rd_run wr_run map_err_def handle_run)
  then have "host_open W sr svc n = Some (Inr (), new_host_channel r2 w2)"
    by (simp add: host_open_def host_connect_run [OF assms(3,4)])
  then show ?thesis using w1 w2 r2 by (simp add: host_device_def new_host_channel_def)
qed

subsection \<open>The device list\<close>

text \<open>A line of the server's list: the serial, padded, the state, and attributes \<open>key:value\<close>.\<close>

definition print_attribute :: "str \<times> str \<Rightarrow> str" where
  "print_attribute kv = CHR '' '' # fst kv @ '':'' @ snd kv"

definition print_device :: "nat \<times> device_entry \<Rightarrow> str" where
  "print_device pd = de_serial (snd pd) @ replicate (Suc (fst pd)) (CHR '' '') @ de_state (snd pd)
     @ concat (map print_attribute (de_attributes (snd pd))) @ [CHR 0x0A]"

definition word_ok :: "str \<Rightarrow> bool" where
  "word_ok s \<longleftrightarrow> (\<forall>c \<in> set s. plain_char c)"

definition device_ok :: "device_entry \<Rightarrow> bool" where
  "device_ok d \<longleftrightarrow> de_serial d \<noteq> [] \<and> de_state d \<noteq> [] \<and> word_ok (de_serial d) \<and> word_ok (de_state d)
     \<and> (\<forall>(k, v) \<in> set (de_attributes d). CHR '':'' \<notin> set k \<and> word_ok k \<and> word_ok v)"

lemma word_ok_lines: "word_ok s \<Longrightarrow> CHR 0x0A \<notin> set s \<and> CHR 0x0D \<notin> set s"
  by (auto simp: word_ok_def plain_char_def ws_chars_def)

lemma split_whitespace_blanks:
  "split_whitespace (replicate k (CHR '' '') @ s) = split_whitespace s"
proof (induction k)
  case (Suc k)
  have "drop_any ws_chars (CHR '' '' # s) = Some s" for s by (simp add: ws_chars_def)
  with Suc show ?case by (simp add: split_whitespace_def)
qed simp

lemma split_whitespace_attributes:
  assumes "word_ok st" and "st \<noteq> []" and "\<forall>(k, v) \<in> set kvs. word_ok k \<and> word_ok v"
  shows "split_whitespace (st @ concat (map print_attribute kvs)) = st # map (\<lambda>(k, v). k @ '':'' @ v) kvs"
  using assms
proof (induction kvs arbitrary: st)
  case Nil
  then show ?case using split_whitespace_word(1) by (simp add: word_ok_def)
next
  case (Cons kv kvs)
  obtain k v where kv: "kv = (k, v)" by fastforce
  have "plain_char (CHR '':'')" by (simp add: plain_char_def ws_chars_def)
  with Cons.prems(3) have "word_ok (k @ '':'' @ v)" by (auto simp: word_ok_def kv)
  with Cons.IH [of "k @ '':'' @ v"] Cons.prems show ?case
    using split_whitespace_word(2) [of st "k @ '':'' @ v @ concat (map print_attribute kvs)"]
    by (simp add: kv print_attribute_def [of "(k, v)"] word_ok_def)
qed

lemma parse_printed_device:
  assumes "device_ok d"
  shows "parse_device (de_serial d @ replicate (Suc k) (CHR '' '') @ de_state d
       @ concat (map print_attribute (de_attributes d))) = Some d"
proof -
  have split: "split_once '':'' (a @ CHR '':'' # b) = Some (a, b)" if "CHR '':'' \<notin> set a" for a b
    using that by (rule split_once_single)
  have "\<forall>(k, v) \<in> set kvs. CHR '':'' \<notin> set k \<Longrightarrow>
      List.map_filter (split_once '':'') (map (\<lambda>(k, v). k @ '':'' @ v) kvs) = kvs" for kvs
    by (induction kvs) (auto simp: List.map_filter_def split)
  with assms have attrs: "List.map_filter (split_once '':'') (map (\<lambda>(k, v). k @ '':'' @ v) (de_attributes d)) = de_attributes d"
    by (auto simp: device_ok_def)
  have "split_whitespace (de_serial d @ CHR '' '' # replicate k (CHR '' '') @ de_state d @ concat (map print_attribute (de_attributes d)))
      = de_serial d # de_state d # map (\<lambda>(k, v). k @ '':'' @ v) (de_attributes d)"
    using assms split_whitespace_word(2) [of "de_serial d"]
      split_whitespace_attributes [of "de_state d" "de_attributes d"]
    by (fastforce simp: device_ok_def word_ok_def split_whitespace_blanks)
  with attrs show ?thesis by (simp add: parse_device_def)
qed

lemma parse_printed_devices:
  "\<forall>pd \<in> set pds. device_ok (snd pd) \<Longrightarrow> parse_devices (concat (map print_device pds)) = map snd pds"
proof (induction pds)
  case Nil
  then show ?case by (simp add: parse_devices_def List.map_filter_def)
next
  case (Cons pd pds)
  let ?d = "snd pd"
  define l where "l = de_serial ?d @ replicate (Suc (fst pd)) (CHR '' '') @ de_state ?d
       @ concat (map print_attribute (de_attributes ?d))"
  have "device_ok ?d" using Cons.prems by simp
  then have words: "word_ok (de_serial ?d)" "word_ok (de_state ?d)"
    "\<forall>kv \<in> set (de_attributes ?d). word_ok (fst kv) \<and> word_ok (snd kv)"
    by (auto simp: device_ok_def)
  have "\<forall>kv \<in> set (de_attributes ?d). c \<notin> set (print_attribute kv)" if "c = CHR 0x0A \<or> c = CHR 0x0D" for c
    using words(3) word_ok_lines that by (fastforce simp: print_attribute_def)
  then have "c \<notin> set l" if "c = CHR 0x0A \<or> c = CHR 0x0D" for c
    using word_ok_lines [OF words(1)] word_ok_lines [OF words(2)] that by (auto simp: l_def)
  then have "CHR 0x0A \<notin> set l" "CHR 0x0D \<notin> set l" by blast+
  then have "line_ok l" unfolding line_ok_def using last_in_set by metis
  from lines_line [OF this] have "lines (l @ CHR 0x0A # concat (map print_device pds)) = l # lines (concat (map print_device pds))" .
  with Cons parse_printed_device [OF \<open>device_ok ?d\<close>, of "fst pd"] show ?case
    by (simp add: parse_devices_def print_device_def [of pd] l_def List.map_filter_def)
qed

subsection \<open>Properties\<close>

text \<open>
  Opening a service on a device behind the server sends exactly the request that binds the TCP
  stream to the serial and then the request for the service, each with its length in four hex
  digits, and after two OKAYs hands over a channel on which the rest of the stream is still to be
  read.
\<close>

lemma host_open_service:
  assumes "reads_bytes (nw_read W) avail" and "writes_bytes (nw_write W) out"
    and "nw_connect W n = Some (Inr (r, w), n1)" and "nw_nodelay W (r, w) n1 = Some (Inr (), n2)"
    and "avail r = as_bytes ''OKAY'' @ as_bytes ''OKAY'' @ rest"
    and "length (transport_request sr) \<le> 0xFFFF" and "length svc \<le> 0xFFFF"
  shows "\<exists>c. cn_open (host_device W shutdown sr) svc n = Some (Inr (), c) \<and> \<not> hc_closed c
     \<and> avail (hc_in c) = rest
     \<and> out (hc_out c) = out w @ host_block (transport_request sr) @ host_block svc"
  by (rule host_open_run [OF assms])

definition sample_network ::
  "bytes list \<Rightarrow> ((bytes list, bytes) host_channel, bytes list, bytes) network" where
  "sample_network bs =
     \<lparr>nw_read = chunk_reader, nw_write = byte_sink, nw_connect = (\<lambda>n. Some (Inr (bs, []), n)),
      nw_nodelay = (\<lambda>_ n. Some (Inr (), n)), nw_addr = ''127.0.0.1:5037'', nw_dropped = (\<lambda>_ n. n)\<rparr>"

text \<open>
  A refusal is told apart by where it comes: the server's answer to the serial is a remote
  failure with its message, the device's answer to the service is a refused service.
\<close>

lemma host_open_refused:
  assumes "reads_bytes (nw_read W) avail" and "writes_bytes (nw_write W) out"
    and "nw_connect W n = Some (Inr (r, w), n1)" and "nw_nodelay W (r, w) n1 = Some (Inr (), n2)"
    and "avail r = as_bytes ''FAIL'' @ host_block m @ rest \<and> e = RemoteFailure (Lit m)
       \<or> avail r = as_bytes ''OKAY'' @ as_bytes ''FAIL'' @ host_block m @ rest \<and> e = ServiceRefused svc"
    and "length m \<le> 0xFFFF" and "wf_str m"
    and "length (transport_request sr) \<le> 0xFFFF" and "length svc \<le> 0xFFFF"
  shows "\<exists>t. cn_open (host_device W shutdown sr) svc n = Some (Inl e, nw_dropped W t n2)"
proof -
  obtain w1 where w1: "send_request (nw_write W) (transport_request sr) w = Some (Inr (), w1)"
    using send_request_run [OF assms(2,8)] by blast
  obtain w2 where w2: "send_request (nw_write W) svc w1 = Some (Inr (), w2)"
    using send_request_run [OF assms(2,9)] by blast
  have "\<exists>t. start_service W sr svc (r, w) = Some (Inl e, t)"
    using assms(5)
  proof (elim disjE conjE)
    assume r: "avail r = as_bytes ''FAIL'' @ host_block m @ rest" and e: "e = RemoteFailure (Lit m)"
    obtain r1 where "host_status (nw_read W) r = Some (Inl e, r1)"
      using host_status_fail [OF assms(1) r assms(6,7)] e by blast
    with w1 show ?thesis
      by (simp add: start_service_def and_then_ok and_then_err rd_run wr_run)
  next
    assume r: "avail r = as_bytes ''OKAY'' @ as_bytes ''FAIL'' @ host_block m @ rest" and e: "e = ServiceRefused svc"
    obtain r1 where r1: "host_status (nw_read W) r = Some (Inr (), r1)" "avail r1 = as_bytes ''FAIL'' @ host_block m @ rest"
      using host_status_okay [OF assms(1) r] by blast
    obtain r2 where "host_status (nw_read W) r1 = Some (Inl (RemoteFailure (Lit m)), r2)"
      using host_status_fail [OF assms(1) r1(2) assms(6,7)] by blast
    with w1 w2 r1 show ?thesis
      by (simp add: start_service_def and_then_ok rd_run wr_run map_err_def handle_run refuse_service_def e)
  qed
  then obtain t where "start_service W sr svc (r, w) = Some (Inl e, t)" ..
  then show ?thesis
    by (intro exI [of _ t]) (simp add: host_device_def host_open_def host_connect_run [OF assms(3,4)])
qed

text \<open>
  C19: without a serial, the client takes the device that the server's list shows online when there
  is exactly one; otherwise it fails and says how many there are. Devices in any other state
  (offline, unauthorized) do not count. The list is all it asks the server for.
\<close>

theorem only_device_choice:
  assumes "reads_bytes (nw_read W) avail" and "writes_bytes (nw_write W) out"
    and "nw_connect W n = Some (Inr (r, w), n1)" and "nw_nodelay W (r, w) n1 = Some (Inr (), n2)"
    and "avail r = as_bytes ''OKAY'' @ host_block (concat (map print_device pds)) @ rest"
    and "length (concat (map print_device pds)) \<le> 0xFFFF" and "wf_str (concat (map print_device pds))"
    and "\<forall>pd \<in> set pds. device_ok (snd pd)"
    and "online = filter (\<lambda>d. de_state d = ''device'') (map snd pds)"
  shows "\<exists>t. only_device W n = Some
     (if online = [] then Inl (NoDevice (Some (Lit ''adb server lists no online device'')))
      else if tl online = [] then Inr (de_serial (hd online))
      else Inl (NoDevice (Some (Fmt ''adb server lists {n} devices, pass a serial'' [Num (int (length online))]))), nw_dropped W t n2)
     \<and> out (snd t) = out w @ host_block ''host:devices-l''"
proof -
  obtain t where t: "query W ''host:devices-l'' n = Some (Inr (concat (map print_device pds)), nw_dropped W t n2)"
    "out (snd t) = out w @ host_block ''host:devices-l''"
    using query_run [OF assms(1-5) _ assms(6,7), of "''host:devices-l''"] by auto
  then have "devices W n = Some (Inr (map snd pds), nw_dropped W t n2)"
    by (simp add: devices_def and_then_ok parse_printed_devices [OF assms(8)])
  with t(2) show ?thesis
    by (intro exI [of _ t], cases online; cases "tl online") (auto simp: only_device_def and_then_ok assms(9) [symmetric])
qed

definition sample_list :: "(nat \<times> device_entry) list" where
  "sample_list =
     [(3, \<lparr>de_serial = ''R58'', de_state = ''device'', de_attributes = [(''model'', ''SM'')]\<rparr>),
      (0, \<lparr>de_serial = ''emu'', de_state = ''offline'', de_attributes = []\<rparr>)]"

theorem only_device_choice_witness:
  "only_device (sample_network [as_bytes ''OK'', as_bytes ''AY'' @ host_block (concat (map print_device sample_list))])
     (new_host_channel [] []) = Some (Inr ''R58'', new_host_channel [] [])"
proof -
  let ?l = "concat (map print_device sample_list)"
  have l: "?l = ''R58    device model:SM'' @ CHR 0x0A # ''emu offline'' @ [CHR 0x0A]"
    by (simp add: sample_list_def print_device_def print_attribute_def numeral_eq_Suc)
  have wf: "wf_str ?l" unfolding l by code_simp
  have ok: "\<forall>pd \<in> set sample_list. device_ok (snd pd)"
    by (simp add: sample_list_def device_ok_def word_ok_def plain_char_def ws_chars_def)
  let ?bs = "[as_bytes ''OK'', as_bytes ''AY'' @ host_block ?l]"
  have "concat ?bs = as_bytes ''OKAY'' @ host_block ?l @ []" by simp
  then have "concat ?bs = as_bytes ''OKAY'' @ host_block ?l @ []" "length ?l \<le> 0xFFFF"
    unfolding l by simp_all
  note only_device_choice [where W = "sample_network ?bs" and avail = concat and out = id and r = ?bs and w = "[]"
      and n = "new_host_channel [] []" and ?n1.0 = "new_host_channel [] []" and ?n2.0 = "new_host_channel [] []"
      and pds = sample_list and rest = "[]", OF _ _ _ _ this wf ok refl]
  then have "only_device (sample_network ?bs) (new_host_channel [] []) = Some
     (let online = filter (\<lambda>d. de_state d = ''device'') (map snd sample_list) in
      if online = [] then Inl (NoDevice (Some (Lit ''adb server lists no online device'')))
      else if tl online = [] then Inr (de_serial (hd online))
      else Inl (NoDevice (Some (Fmt ''adb server lists {n} devices, pass a serial'' [Num (int (length online))]))),
      new_host_channel [] [])"
    by (auto simp add: sample_network_def Let_def)
  then show ?thesis by (simp add: sample_list_def)
qed

end
