(* ===== verification/Local_Files.thy ===== *)
theory Local_Files
  imports Device
begin

section \<open>Copies between the device and local files\<close>

text \<open>
  What \<open>pull_to_file\<close> and \<open>push_file\<close> of \<open>src/device/files.rs\<close> leave on the local disk and send to the
  device. The file system is a parameter of both; \<open>writes_files\<close> and \<open>reads_file\<close> are its documented
  behaviour: creating truncates, writes append to the file just created, and reading gives the content
  of the file just opened. \<open>disk\<close> is what the files hold, \<open>current\<close> the file open for writing.
\<close>

subsection \<open>The contract of the disk\<close>

definition writes_files ::
  "(str \<Rightarrow> ('f, unit) io) \<Rightarrow> 'f async_write \<Rightarrow> ('f \<Rightarrow> str \<Rightarrow> bytes option) \<Rightarrow> ('f \<Rightarrow> str) \<Rightarrow> bool" where
  "writes_files create W disk current \<longleftrightarrow>
     (\<forall>p f f'. create p f = Some (Inr (), f') \<longrightarrow> disk f' = (disk f)(p \<mapsto> []) \<and> current f' = p)
   \<and> (\<forall>bs f old. disk f (current f) = Some old \<longrightarrow>
        (\<exists>f'. aw_write_all W bs f = Some (Inr (), f') \<and> disk f' = (disk f)(current f \<mapsto> old @ bs)
          \<and> current f' = current f))
   \<and> (\<forall>f. \<exists>f'. aw_flush W f = Some (Inr (), f') \<and> disk f' = disk f)"

lemma writes_filesD:
  assumes "writes_files create W disk current"
  shows "create p f = Some (Inr (), f') \<Longrightarrow> disk f' = (disk f)(p \<mapsto> []) \<and> current f' = p"
    and "disk f (current f) = Some old \<Longrightarrow>
        \<exists>f'. aw_write_all W bs f = Some (Inr (), f') \<and> disk f' = (disk f)(current f \<mapsto> old @ bs)
          \<and> current f' = current f"
    and "\<exists>f'. aw_flush W f = Some (Inr (), f') \<and> disk f' = disk f"
  using assms unfolding writes_files_def by blast+

subsection \<open>Pulling into a file\<close>

lemma on_source_io: "m f = Some (Inr x, f') \<Longrightarrow> on_source (io_err g m) (c, f) = Some (Inr x, (c, f'))"
  "m f = Some (Inl e, f') \<Longrightarrow> on_source (io_err g m) (c, f) = Some (Inl (g e), (c, f'))"
  by (simp_all add: on_source_def on_part_def io_err_def)

lemma on_client_run: "m c = Some (r, c') \<Longrightarrow> on_client m (c, f) = Some (r, (c', f))"
  by (simp add: on_client_def on_part_def)

lemma on_source_run: "m f = Some (r, f') \<Longrightarrow> on_source m (c, f) = Some (r, (c, f'))"
  by (simp add: on_source_def on_part_def)

context channel
begin

lemma pull_file_loop_done:
  assumes W: "writes_files create W disk current" and "invar (world c)" and "takes (world c) n"
    and "ahead c = concat (map data_frame pieces) @ tail" and "\<forall>d \<in> set pieces. length d \<le> DATA_MAX"
    and "does (next_data C h) tail last_item b []" and "\<And>d. last_item \<noteq> Inr (Some d)"
    and "disk f (current f) = Some old"
  shows "\<exists>c' f'. pull_file_loop C h W False count (c, f) =
       Some (case last_item of Inl e \<Rightarrow> Inl e | Inr _ \<Rightarrow> Inr (count + word_of_nat (length (concat pieces))), (c', f'))
     \<and> sent (world c') = sent (world c) \<and> disk f' = (disk f)(current f \<mapsto> old @ concat pieces)"
  using assms(2-5,8)
proof (induction pieces arbitrary: c f old count)
  case Nil
  with assms(6) obtain c1 where c1: "next_data C h c = Some (last_item, c1)" "sent (world c1) = sent (world c)"
    unfolding does_def by fastforce
  have same: "(disk f)(current f \<mapsto> old) = disk f" using Nil.prems(5) by (auto simp: fun_upd_idem)
  show ?case
  proof (cases last_item)
    case (Inl e)
    with c1 same show ?thesis
      by (simp add: pull_file_loop.simps [of C h W False count "(c, f)"] pull_item_def)
  next
    case (Inr r)
    with assms(7) have "r = None" by (cases r) auto
    with Inr c1 same show ?thesis
      by (simp add: pull_file_loop.simps [of C h W False count "(c, f)"] pull_item_def)
  qed
next
  case (Cons d pieces)
  have "does (next_data C h) (data_frame d @ concat (map data_frame pieces) @ tail) (Inr (Some d))
      (concat (map data_frame pieces) @ tail) []"
    using Cons.prems(4) by (intro does_next_data) simp
  with Cons.prems(1,2,3) obtain c1 where
    c1: "next_data C h c = Some (Inr (Some d), c1)" "invar (world c1)" "takes (world c1) n"
      "ahead c1 = concat (map data_frame pieces) @ tail" "sent (world c1) = sent (world c)"
    unfolding does_def by fastforce
  obtain f1 where f1: "aw_write_all W d f = Some (Inr (), f1)" "disk f1 = (disk f)(current f \<mapsto> old @ d)"
    "current f1 = current f"
    using writes_filesD(2) [OF W Cons.prems(5), of d] by blast
  have "pull_file_loop C h W False count (c, f) = pull_file_loop C h W False (count + word_of_nat (length d)) (c1, f1)"
    using c1(1) f1(1) by (simp add: pull_file_loop.simps [of C h W False count "(c, f)"] pull_item_def)
  moreover have held: "disk f1 (current f1) = Some (old @ d)" using f1(2,3) by simp
  ultimately show ?case
    using Cons.IH [OF c1(2,3,4) _ held, of "count + word_of_nat (length d)"] Cons.prems(4) c1(5) f1(2,3)
    by (auto cong: sum.case_cong simp: add.assoc simp del: fun_upd_apply)
qed

text \<open>The file is created before the device has said whether it can send it.\<close>

lemma pull_to_file_run:
  assumes W: "writes_files create W disk current" and N: "cn_channel N = C" "device_sync N s = Some (Inr (h, F), s1)"
    and "invar (dv_world s1)" and "takes (dv_world s1) (length (pull_request F path))" and "length path < 2 ^ 32"
    and "avail (dv_world s1) = concat (map data_frame pieces) @ tail" and "\<forall>d \<in> set pieces. length d \<le> DATA_MAX"
    and "does (next_data C h) tail last_item b []" and "\<And>d. last_item \<noteq> Inr (Some d)"
    and "create lp f = Some (Inr (), f1)"
  shows "\<exists>s' f'. pull_to_file N create W path lp (s, f) =
       Some (case last_item of Inl e \<Rightarrow> Inl e | Inr _ \<Rightarrow> Inr (word_of_nat (length (concat pieces))), (s', f'))
     \<and> sent (dv_world s') = sent (dv_world s1) @ pull_request F path
     \<and> disk f' = (disk f)(lp \<mapsto> concat pieces)"
proof -
  let ?c = "\<lparr>buffer = [], world = dv_world s1\<rparr>"
  obtain c where c: "start_pull C h F path ?c = Some (Inr (), c)" "invar (world c)"
    "takes (world c) 0" "ahead c = avail (dv_world s1)" "sent (world c) = sent (dv_world s1) @ pull_request F path"
    using on_fresh_reader [OF does_start_pull [OF assms(6), of F "avail (dv_world s1)"] assms(4), of 0] assms(5) by auto
  have f1: "disk f1 = (disk f)(lp \<mapsto> [])" "current f1 = lp"
    using writes_filesD(1) [OF W assms(11)] by simp_all
  then have "disk f1 (current f1) = Some []" by simp
  from pull_file_loop_done [OF W c(2,3) c(4) [unfolded assms(7)] assms(8-10) this, of 0] f1 obtain c2 f2 where
    loop: "pull_file_loop C h W False 0 (c, f1) =
       Some (case last_item of Inl e \<Rightarrow> Inl e | Inr _ \<Rightarrow> Inr (word_of_nat (length (concat pieces))), (c2, f2))"
    "sent (world c2) = sent (world c)" "disk f2 = (disk f)(lp \<mapsto> concat pieces)"
    by (auto cong: sum.case_cong simp del: fun_upd_apply)
  obtain f3 where f3: "aw_flush W f2 = Some (Inr (), f3)" "disk f3 = disk f2" using writes_filesD(3) [OF W] by blast
  have open_sync: "on_client (device_sync N) (s, f) = Some (Inr (h, F), (s1, f))" using N(2) by (rule on_client_run)
  have begin_pull: "on_client (start_pull C h F path) (?c, f) = Some (Inr (), (c, f))" using c(1) by (rule on_client_run)
  have created: "on_source (io_err Io (create lp)) (c, f) = Some (Inr (), (c, f1))"
    and flushed: "on_source (io_err Io (aw_flush W)) (c2, f2) = Some (Inr (), (c2, f3))"
    using assms(11) f3(1) by (auto intro: on_source_io)
  note steps = open_sync begin_pull created flushed
  show ?thesis
  proof (cases last_item)
    case (Inl e)
    with steps loop(1) have "pull_to_file N create W path lp (s, f) = Some (Inl e, (s1\<lparr>dv_world := world c2\<rparr>, f2))"
      by (simp add: pull_to_file_def and_then_ok and_then_err N(1) with_file_def)
    with Inl loop c(5) show ?thesis by simp
  next
    case (Inr r)
    with steps loop(1) have "pull_to_file N create W path lp (s, f)
        = Some (Inr (word_of_nat (length (concat pieces))), (s1\<lparr>dv_world := world c2\<rparr>, f3))"
      by (simp add: pull_to_file_def and_then_ok N(1) with_file_def)
    with Inr loop f3 c(5) show ?thesis by simp
  qed
qed

text \<open>A local path that cannot be created: the request has been sent, nothing is read.\<close>

lemma pull_to_file_no_local:
  assumes N: "cn_channel N = C" "device_sync N s = Some (Inr (h, F), s1)"
    and "invar (dv_world s1)" and "takes (dv_world s1) (length (pull_request F path))" and "length path < 2 ^ 32"
    and "create lp f = Some (Inl e, f1)"
  shows "\<exists>s'. pull_to_file N create W path lp (s, f) = Some (Inl (Io e), (s', f1))
     \<and> sent (dv_world s') = sent (dv_world s1) @ pull_request F path"
proof -
  let ?c = "\<lparr>buffer = [], world = dv_world s1\<rparr>"
  obtain c where c: "start_pull C h F path ?c = Some (Inr (), c)" "sent (world c) = sent (dv_world s1) @ pull_request F path"
    using on_fresh_reader [OF does_start_pull [OF assms(5), of F "avail (dv_world s1)"] assms(3), of 0] assms(4) by auto
  have "on_client (device_sync N) (s, f) = Some (Inr (h, F), (s1, f))" using N(2) by (rule on_client_run)
  moreover have "on_client (start_pull C h F path) (?c, f) = Some (Inr (), (c, f))" using c(1) by (rule on_client_run)
  moreover have "on_source (io_err Io (create lp)) (c, f) = Some (Inl (Io e), (c, f1))"
    using assms(6) by (auto intro: on_source_io)
  ultimately show ?thesis
    using c(2) by (simp add: pull_to_file_def and_then_ok and_then_err N(1) with_file_def)
qed

text \<open>A push of a file: its content, with its permission bits and its mtime.\<close>

lemma push_file_run:
  assumes R: "reads_bytes R src" and N: "cn_channel N = C" "device_sync N s = Some (Inr (h, F), s1)"
    and local_side: "metadata lp f = Some (Inr meta, f1)" "fm_is_file meta" "file_mtime meta = Inr mtime"
      "open_file lp f1 = Some (Inr (), f2)"
    and "invar (dv_world s1)"
    and "takes (dv_world s1) (length (push_request F path (fm_mode meta)) + 9 * length (src f2) + 16)"
    and "avail (dv_world s1) = bs" and status: "does (read_status C h) bs res rest []"
    and "length (path @ '','' @ dec_of_nat (unat (fm_mode meta))) < 2 ^ 32"
  shows "\<exists>s' f' pieces. push_file N metadata open_file R lp path (s, f) = Some (res, (s', f'))
     \<and> concat pieces = src f2 \<and> (\<forall>d \<in> set pieces. d \<noteq> [] \<and> length d \<le> DATA_MAX)
     \<and> sent (dv_world s') = sent (dv_world s1) @ push_request F path (fm_mode meta)
          @ concat (map data_frame pieces) @ sync_word DONE_ID mtime @ (if isl res then [] else sync_word QUIT_ID 0)"
proof -
  let ?c = "\<lparr>buffer = [], world = dv_world s1\<rparr>"
  have room: "takes (world ?c) (length (push_request F path (fm_mode meta)) + 9 * length (src f2) + 8 + 8)"
    using assms(9) by (simp add: add.commute add.left_commute)
  have ahead: "ahead ?c = bs" by (simp add: ahead_def assms(10))
  from sync_push_run [OF R assms(12) status _ room ahead, where mtime = mtime] assms(8) obtain c' f' pieces where push:
    "sync_push C h F R path (fm_mode meta) mtime (?c, f2) = Some (res, (c', f'))"
    "concat pieces = src f2" "\<forall>d \<in> set pieces. d \<noteq> [] \<and> length d \<le> DATA_MAX"
    "invar (world c')" "\<not> isl res \<longrightarrow> takes (world c') 8"
    "sent (world c') = sent (dv_world s1) @ push_request F path (fm_mode meta)
       @ concat (map data_frame pieces) @ sync_word DONE_ID mtime"
    by auto
  have asked: "on_source (io_err Io (metadata lp)) (s, f) = Some (Inr meta, (s, f1))"
    and opened: "on_source (io_err Io (open_file lp)) (s, f1) = Some (Inr (), (s, f2))"
    using local_side by (auto intro: on_source_io)
  have "on_client (device_sync N) (s, f2) = Some (Inr (h, F), (s1, f2))" using N(2) by (rule on_client_run)
  then have run: "push_file N metadata open_file R lp path (s, f) =
      with_file (and_then (sync_push C h F R path (fm_mode meta) mtime) (\<lambda>_. on_client (sync_quit C h))) (s1, f2)"
    using asked opened local_side(2,3) by (simp add: push_file_def and_then_ok N(1) mode_of_def)
  show ?thesis
  proof (cases res)
    case (Inl e)
    then show ?thesis
      using push by (intro exI [of _ "s1\<lparr>dv_world := world c'\<rparr>"] exI [of _ f'] exI [of _ pieces])
        (simp add: run with_file_def and_then_err)
  next
    case (Inr u)
    with push(5) have "takes (world c') 8" by simp
    from sync_quit_run [OF push(4) this] obtain c2 where quit: "sync_quit C h c' = Some (Inr (), c2)"
      "sent (world c2) = sent (world c') @ sync_word QUIT_ID 0" by blast
    then have "on_client (sync_quit C h) (c', f') = Some (Inr (), (c2, f'))" by (auto intro: on_client_run)
    then show ?thesis
      using push quit Inr by (intro exI [of _ "s1\<lparr>dv_world := world c2\<rparr>"] exI [of _ f'] exI [of _ pieces])
        (simp add: run with_file_def and_then_ok)
  qed
qed

end

text \<open>What is refused before the device hears of it.\<close>

lemma push_file_refused:
  assumes "metadata lp f = Some (Inr meta, f1)" and "\<not> fm_is_file meta"
  shows "push_file N metadata open_file R lp path (s, f) = Some (Inl (not_regular lp), (s, f1))"
proof -
  have "on_source (io_err Io (metadata lp)) (s, f) = Some (Inr meta, (s, f1))"
    using assms(1) by (auto intro: on_source_io)
  with assms(2) show ?thesis by (simp add: push_file_def and_then_ok)
qed

subsection \<open>Properties\<close>

text \<open>
  C14: pulling into a file that can be created leaves exactly the bytes of the device's chunks in it,
  however they arrive, and counts them; no other file changes. A pull the device refuses or breaks
  off, or that offers an oversized chunk, is an error, and by then the local file has been replaced by
  what came before the failure: a pull of a file that does not exist empties the local one.
\<close>

theorem pull_to_file_stores:
  assumes "host_connection N avail out" and "writes_files create W disk current"
    and "device_sync N s = Some (Inr ((), F), s1)" and "create lp f = Some (Inr (), f1)"
    and "avail (hc_in (dv_world s1)) = concat (map data_frame pieces) @ tail"
    and "\<forall>d \<in> set pieces. length d \<le> DATA_MAX" and "length path < 2 ^ 32"
    and "tail = sync_word DONE_ID t @ rest \<and> res = Inr (word_of_nat (length (concat pieces)))
       \<or> tail = fail_frame msg @ rest \<and> length msg < 2 ^ 32 \<and> res = Inl (RemoteFailure (Lit (utf8_lossy msg)))
       \<or> tail = sync_word DATA_ID n @ rest \<and> DATA_MAX < unat n \<and> res = Inl (chunk_too_big (unat n))
       \<or> length tail < 4 \<and> res = Inl StreamClosed"
  shows "\<exists>s' f'. pull_to_file N create W path lp (s, f) = Some (res, (s', f'))
     \<and> disk f' = (disk f)(lp \<mapsto> concat pieces)
     \<and> out (hc_out (dv_world s')) = out (hc_out (dv_world s1)) @ pull_request F path"
proof -
  have ch: "channel (cn_channel N) () (\<lambda>s. avail (hc_in s)) (\<lambda>s. length (avail (hc_in s))) True
     (\<lambda>s. out (hc_out s)) (\<lambda>_ _. True) (\<lambda>_. True)"
    by (rule host_connection_channel [OF assms(1)])
  note next_item = channel.does_next_done [OF ch] channel.does_next_fail [OF ch] channel.does_next_too_big [OF ch]
    channel.does_next_cut [OF ch TrueI]
  obtain b item where item: "channel.does (\<lambda>s. avail (hc_in s)) (\<lambda>s. out (hc_out s)) (\<lambda>_ _. True) (\<lambda>_. True)
       (next_data (cn_channel N) ()) tail item b []" "\<And>d. item \<noteq> Inr (Some d)"
    and res: "res = (case item of Inl e \<Rightarrow> Inl e | Inr _ \<Rightarrow> Inr (word_of_nat (length (concat pieces))))"
    using assms(8) next_item by (elim disjE conjE) fastforce+
  from channel.pull_to_file_run [OF ch assms(2) refl assms(3) TrueI TrueI assms(7,5,6) item assms(4)] show ?thesis
    by (auto simp: res)
qed

text \<open>A disk: the content of the files, the one open for writing, and what is left to read of the one opened.\<close>

type_synonym disk = "(str \<Rightarrow> bytes option) \<times> str \<times> bytes"

definition disk_create :: "str \<Rightarrow> (disk, unit) io" where
  "disk_create p d = Some (Inr (), ((fst d)(p \<mapsto> []), p, snd (snd d)))"

definition disk_writer :: "disk async_write" where
  "disk_writer =
     \<lparr>aw_write_all = (\<lambda>bs (m, p, r). case m p of
        None \<Rightarrow> Some (Inl (Io_error (Other_kind 9) (Lit ''Bad file descriptor'')), (m, p, r))
      | Some old \<Rightarrow> Some (Inr (), (m(p \<mapsto> old @ bs), p, r))),
      aw_flush = (\<lambda>d. Some (Inr (), d))\<rparr>"

definition disk_open :: "str \<Rightarrow> (disk, unit) io" where
  "disk_open p d =
     (case fst d p of
        None \<Rightarrow> Some (Inl (Io_error (Other_kind 2) (Lit ''No such file or directory'')), d)
      | Some bs \<Rightarrow> Some (Inr (), (fst d, fst (snd d), bs)))"

definition disk_reader :: "disk async_read" where
  "disk_reader =
     \<lparr>ar_read = (\<lambda>n (m, p, r). Some (Inr (take n r), (m, p, drop n r))),
      ar_read_exact = (\<lambda>n (m, p, r). if length r < n then Some (Inl (Io_error UnexpectedEof (Lit ''early eof'')), (m, p, []))
        else Some (Inr (take n r), (m, p, drop n r)))\<rparr>"

lemma disk_writer_ok: "writes_files disk_create disk_writer fst (\<lambda>d. fst (snd d))"
  by (auto simp: writes_files_def disk_create_def disk_writer_def)

lemma disk_reader_ok: "reads_bytes disk_reader (\<lambda>d. snd (snd d))"
  unfolding reads_bytes_def disk_reader_def async_read.simps
proof (intro conjI allI impI)
  fix n :: nat and d :: disk
  assume "0 < n"
  then show "\<exists>k d'. (case d of (m, p, r) \<Rightarrow> Some (Inr (take n r), m, p, drop n r)) = Some (Inr (take k (snd (snd d))), d') \<and> k \<le> n
      \<and> snd (snd d') = drop k (snd (snd d)) \<and> (0 < k \<longleftrightarrow> snd (snd d) \<noteq> [])"
    by (intro exI [of _ "min n (length (snd (snd d)))"]) (auto simp: min_def split: prod.splits)
qed (auto split: prod.splits)

theorem pull_to_file_stores_witness:
  "\<exists>s' d. pull_to_file sample_connection disk_create disk_writer ''/gone'' ''notes''
       (sample_sync [fail_frame (as_bytes ''no such file'')], ([''notes'' \<mapsto> [1, 2, 3]], [], []))
     = Some (Inl (RemoteFailure (Lit (utf8_lossy (as_bytes ''no such file'')))), (s', d))
     \<and> fst d = [''notes'' \<mapsto> []]"
proof -
  let ?d = "([''notes'' \<mapsto> [1, 2, 3]], [], []) :: disk"
  have "disk_create ''notes'' ?d = Some (Inr (), ([''notes'' \<mapsto> []], ''notes'', []))" by (simp add: disk_create_def)
  from pull_to_file_stores [OF sample_connection_ok disk_writer_ok
      sample_sync_open [of "[fail_frame (as_bytes ''no such file'')]"] this, where pieces = "[]" and rest = "[]" and t = 0
        and tail = "fail_frame (as_bytes ''no such file'')" and msg = "as_bytes ''no such file''" and path = "''/gone''"
        and res = "Inl (RemoteFailure (Lit (utf8_lossy (as_bytes ''no such file''))))"]
  show ?thesis by auto
qed

text \<open>
  C15: pushing a regular file sends the device exactly its content in chunks of at most 64 KiB, with the
  file's permission bits in the request and its modification time in the closing DONE. Whatever the
  device sends back, the push succeeds exactly when that begins with a whole \<open>OKAY\<close>; what the device
  writes in a refusal is reported, any other word is a protocol error, and an early end is one too.
\<close>

theorem push_file_delivers:
  assumes "host_connection N avail out" and "reads_bytes R src" and "device_sync N s = Some (Inr ((), F), s1)"
    and "metadata lp f = Some (Inr meta, f1)" and "fm_is_file meta" and "file_mtime meta = Inr mtime"
    and "open_file lp f1 = Some (Inr (), f2)"
    and "avail (hc_in (dv_world s1)) = bs"
    and "length (path @ '','' @ dec_of_nat (unat (fm_mode meta))) < 2 ^ 32"
  shows "\<exists>res s' f' pieces. push_file N metadata open_file R lp path (s, f) = Some (res, (s', f'))
     \<and> concat pieces = src f2 \<and> (\<forall>d \<in> set pieces. d \<noteq> [] \<and> length d \<le> DATA_MAX)
     \<and> out (hc_out (dv_world s')) = out (hc_out (dv_world s1)) @ push_request F path (fm_mode meta)
          @ concat (map data_frame pieces) @ sync_word DONE_ID mtime @ (if isl res then [] else sync_word QUIT_ID 0)
     \<and> res = push_verdict bs
     \<and> (res = Inr () \<longleftrightarrow> (\<exists>n rest. bs = sync_word OKAY_ID n @ rest))
     \<and> (\<forall>msg rest. length msg < 2 ^ 32 \<longrightarrow> bs = fail_frame msg @ rest \<longrightarrow> res = Inl (RemoteFailure (Lit (utf8_lossy msg))))"
proof -
  note C = host_connection_channel [OF assms(1)]
  obtain rest where status: "channel.does (\<lambda>s. avail (hc_in s)) (\<lambda>s. out (hc_out s)) (\<lambda>_ _. True) (\<lambda>_. True)
      (read_status (cn_channel N) ()) bs (push_verdict bs) rest []"
    using channel.does_status [OF C TrueI] by blast
  from channel.push_file_run [where metadata = metadata and open_file = open_file,
      OF C assms(2) refl assms(3-7) TrueI TrueI assms(8) status assms(9)] push_verdict_okay push_verdict_fail
  show ?thesis by (metis (lifting))
qed

theorem push_file_delivers_witness:
  "\<exists>s' f' pieces. push_file sample_connection (\<lambda>p d. Some (Inr \<lparr>fm_is_file = True, fm_modified = Some 9, fm_mode = 0x81A4\<rparr>, d))
       disk_open disk_reader ''notes'' ''/f'' (sample_sync [sync_word OKAY_ID 0], ([''notes'' \<mapsto> [1, 2, 3]], [], []))
     = Some (Inr (), (s', f'))
     \<and> concat pieces = [1, 2, 3] \<and> (\<forall>d \<in> set pieces. d \<noteq> [] \<and> length d \<le> DATA_MAX)
     \<and> id (hc_out (dv_world s')) = [] @ push_request (from_features [''ls_v2'', ''sendrecv_v2'']) ''/f'' 0x81A4
          @ concat (map data_frame pieces) @ sync_word DONE_ID 9 @ sync_word QUIT_ID 0"
proof -
  have "\<exists>n rest. sync_word OKAY_ID 0 = sync_word OKAY_ID n @ rest" by (intro exI [of _ 0] exI [of _ "[]"]) simp
  then show ?thesis
    using push_file_delivers [OF sample_connection_ok disk_reader_ok sample_sync_open [of "[sync_word OKAY_ID 0]"],
        where bs = "sync_word OKAY_ID 0"
          and path = "''/f''" and mtime = 9 and lp = "''notes''" and open_file = disk_open
          and metadata = "\<lambda>p d. Some (Inr \<lparr>fm_is_file = True, fm_modified = Some 9, fm_mode = 0x81A4\<rparr>, d)"
          and meta = "\<lparr>fm_is_file = True, fm_modified = Some 9, fm_mode = 0x81A4\<rparr>"
          and f = "([''notes'' \<mapsto> [1, 2, 3]], [], [])" and ?f1.0 = "([''notes'' \<mapsto> [1, 2, 3]], [], [])"
          and ?f2.0 = "([''notes'' \<mapsto> [1, 2, 3]], [], [1, 2, 3])"]
    by (auto simp add: dec_of_nat.simps disk_open_def file_mtime_def)
qed

end
