(* ===== verification/Console.thy ===== *)
theory Console
  imports Host Usb Local_Files
begin

section \<open>Commands and what they print\<close>

text \<open>
  The part of \<open>src/bin/rsadb/commands.rs\<close> that runs on a device, and the lines the commands print.
  The process's terminal and its local files are parameters over one state, next to the device:
  \<open>println!\<close> writes to the standard output and panics when it cannot, \<open>write_all\<close> reports the error.
  A path on the command line is its text. The lemmas show what reaches the terminal.
\<close>

subsection \<open>The terminal\<close>

text \<open>\<open>tm_render\<close> is \<open>Display\<close> of an error message: its template with the arguments filled in.\<close>

record 'o terminal =
  tm_stdout :: "bytes \<Rightarrow> ('o, unit) io"
  tm_stderr :: "bytes \<Rightarrow> ('o, unit) io"
  tm_render :: "msg_text \<Rightarrow> str"

definition print_to :: "(bytes \<Rightarrow> ('o, unit) io) \<Rightarrow> str \<Rightarrow> ('o, unit) comp" where
  "print_to put line s =
     (case put (as_bytes (line @ [CHR 0x0A])) s of
        Some (Inr _, s') \<Rightarrow> Some (Inr (), s')
      | _ \<Rightarrow> None)"

definition println :: "'o terminal \<Rightarrow> str \<Rightarrow> ('o, unit) comp" where
  "println T = print_to (tm_stdout T)"

definition eprintln :: "'o terminal \<Rightarrow> str \<Rightarrow> ('o, unit) comp" where
  "eprintln T = print_to (tm_stderr T)"

fun print_lines :: "'o terminal \<Rightarrow> str list \<Rightarrow> ('o, unit) comp" where
  "print_lines T [] = ret ()"
| "print_lines T (l # ls) = and_then (println T l) (\<lambda>_. print_lines T ls)"

subsection \<open>Formatting\<close>

text \<open>Widths count characters: the bytes that do not continue one.\<close>

definition char_count :: "str \<Rightarrow> nat" where
  "char_count s = length (filter (\<lambda>c. byte_of c AND 0xC0 \<noteq> 0x80) s)"

definition pad_right :: "nat \<Rightarrow> str \<Rightarrow> str" where
  "pad_right n s = s @ replicate (n - char_count s) (CHR '' '')"

definition pad_left :: "nat \<Rightarrow> str \<Rightarrow> str" where
  "pad_left n s = replicate (n - char_count s) (CHR '' '') @ s"

fun oct_of_nat :: "nat \<Rightarrow> str" where
  "oct_of_nat n = (if n < 8 then [char_of (48 + n)] else oct_of_nat (n div 8) @ [char_of (48 + n mod 8)])"

declare oct_of_nat.simps [simp del]

definition dec_of_int :: "int \<Rightarrow> str" where
  "dec_of_int k = (if k < 0 then CHR ''-'' # dec_of_nat (nat (- k)) else dec_of_nat (nat k))"

definition format_entry :: "entry \<Rightarrow> str" where
  "format_entry en =
     [if entry_is_dir en then CHR ''d'' else if entry_is_symlink en then CHR ''l'' else CHR ''-'']
     @ oct_of_nat (unat (en_mode en AND 0x1FF)) @ '' '' @ pad_left 10 (dec_of_nat (unat (en_size en)))
     @ '' '' @ pad_left 11 (dec_of_int (sint (en_mtime en))) @ '' '' @ en_name en"

definition server_line :: "device_entry \<Rightarrow> str" where
  "server_line d =
     pad_right 24 (de_serial d) @ pad_right 14 (de_state d)
     @ join '' '' (map (\<lambda>(k, v). k @ '':'' @ v) (de_attributes d))"

definition str_or :: "str \<Rightarrow> str option \<Rightarrow> str" where
  "str_or d x = (case x of None \<Rightarrow> d | Some s \<Rightarrow> s)"

definition usb_line :: "'i usb_device \<Rightarrow> str" where
  "usb_line d =
     (let info = us_info d in
      pad_right 24 (str_or ''(no serial)'' (ud_serial info)) @ hex4 (unat (ud_vendor_id info)) @ '':''
      @ hex4 (unat (ud_product_id info)) @ ''  '' @ str_or [] (ud_manufacturer info) @ '' ''
      @ str_or [] (ud_product info))"

definition listed_prop :: "str \<times> str \<Rightarrow> str" where
  "listed_prop p = ''['' @ fst p @ '']: ['' @ snd p @ '']''"

subsection \<open>Commands on a device\<close>

record 'o local_files =
  lf_create :: "str \<Rightarrow> ('o, unit) io"
  lf_out :: "'o async_write"  \<comment> \<open>the file just created\<close>
  lf_metadata :: "str \<Rightarrow> ('o, file_meta) io"
  lf_open :: "str \<Rightarrow> ('o, unit) io"
  lf_in :: "'o async_read"  \<comment> \<open>the file just opened\<close>
  lf_write :: "str \<Rightarrow> bytes \<Rightarrow> ('o, unit) io"

datatype cli_command =
    Devices
  | Shell "str list"
  | Exec "str list"
  | Pull str str  \<comment> \<open>remote, local\<close>
  | Push str str  \<comment> \<open>local, remote\<close>
  | Ls str
  | Screencap str
  | Getprop "str option"
  | Connect_to str
  | Keygen

definition exit_status :: "u8 \<Rightarrow> error" where
  "exit_status c = RemoteFailure (Fmt ''exit status {code}'' [Num (uint c)])"

definition cli_shell :: "'o terminal \<Rightarrow> ('w, 'h) connection \<Rightarrow> str \<Rightarrow> ('w device \<times> 'o, unit) comp" where
  "cli_shell T N cmd =
     and_then (on_client (device_shell N cmd)) (\<lambda>out.
     and_then (on_source (io_err Io (tm_stdout T (stdout out)))) (\<lambda>_.
     and_then (on_source (io_err Io (tm_stderr T (stderr out)))) (\<lambda>_.
       case exit_code out of
         None \<Rightarrow> ret ()
       | Some c \<Rightarrow> if c = 0 then ret () else throw (exit_status c))))"

definition cli_screencap ::
  "'o terminal \<Rightarrow> 'o local_files \<Rightarrow> ('w, 'h) connection \<Rightarrow> str \<Rightarrow> ('w device \<times> 'o, unit) comp" where
  "cli_screencap T L N out =
     and_then (on_client (screencap N)) (\<lambda>png.
     and_then (on_source (io_err Io (lf_write L out png))) (\<lambda>_.
     on_source (eprintln T (out @ '': '' @ dec_of_nat (length png) @ '' bytes''))))"

definition no_device_needed :: error where
  "no_device_needed = InvalidArgument (Lit ''command does not need a device'')"

fun on_device ::
  "'o terminal \<Rightarrow> 'o local_files \<Rightarrow> ('w, 'h) connection \<Rightarrow> cli_command \<Rightarrow> ('w device \<times> 'o, unit) comp" where
  "on_device T L N (Shell ws) = cli_shell T N (join '' '' ws)"
| "on_device T L N (Exec ws) =
     and_then (on_client (device_exec N (join '' '' ws))) (\<lambda>out.
     on_source (io_err Io (tm_stdout T out)))"
| "on_device T L N (Pull rp lp) =
     and_then (pull_to_file N (lf_create L) (lf_out L) rp lp) (\<lambda>n.
     on_source (eprintln T (rp @ '' -> '' @ lp @ '': '' @ dec_of_nat (unat n) @ '' bytes'')))"
| "on_device T L N (Push lp rp) =
     and_then (push_file N (lf_metadata L) (lf_open L) (lf_in L) lp rp) (\<lambda>_.
     on_source (eprintln T (lp @ '' -> '' @ rp)))"
| "on_device T L N (Ls p) =
     and_then (on_client (list_dir N p)) (\<lambda>entries.
     on_source (print_lines T (map format_entry entries)))"
| "on_device T L N (Screencap out) = cli_screencap T L N out"
| "on_device T L N (Getprop (Some name)) =
     and_then (on_client (getprop N name)) (\<lambda>v. on_source (println T v))"
| "on_device T L N (Getprop None) =
     and_then (on_client (getprops N)) (\<lambda>ps. on_source (print_lines T (map listed_prop ps)))"
| "on_device T L N Devices = throw no_device_needed"
| "on_device T L N Keygen = throw no_device_needed"
| "on_device T L N (Connect_to a) = throw no_device_needed"

subsection \<open>What reaches the terminal\<close>

text \<open>A terminal that takes everything; \<open>shown\<close> and \<open>complained\<close> are what it has taken.\<close>

definition takes_output :: "'o terminal \<Rightarrow> ('o \<Rightarrow> bytes) \<Rightarrow> ('o \<Rightarrow> bytes) \<Rightarrow> bool" where
  "takes_output T shown complained \<longleftrightarrow>
     (\<forall>bs s. \<exists>s'. tm_stdout T bs s = Some (Inr (), s') \<and> shown s' = shown s @ bs \<and> complained s' = complained s)
   \<and> (\<forall>bs s. \<exists>s'. tm_stderr T bs s = Some (Inr (), s') \<and> shown s' = shown s \<and> complained s' = complained s @ bs)"

lemma takes_outputD:
  assumes "takes_output T shown complained"
  shows "\<exists>s'. tm_stdout T bs s = Some (Inr (), s') \<and> shown s' = shown s @ bs \<and> complained s' = complained s"
    and "\<exists>s'. tm_stderr T bs s = Some (Inr (), s') \<and> shown s' = shown s \<and> complained s' = complained s @ bs"
  using assms unfolding takes_output_def by blast+

definition line_bytes :: "str \<Rightarrow> bytes" where
  "line_bytes l = as_bytes (l @ [CHR 0x0A])"

lemma println_run:
  assumes "takes_output T shown complained"
  shows "\<exists>s'. println T l s = Some (Inr (), s') \<and> shown s' = shown s @ line_bytes l \<and> complained s' = complained s"
  using takes_outputD(1) [OF assms, of "line_bytes l" s] by (auto simp: println_def print_to_def line_bytes_def)

lemma eprintln_run:
  assumes "takes_output T shown complained"
  shows "\<exists>s'. eprintln T l s = Some (Inr (), s') \<and> shown s' = shown s \<and> complained s' = complained s @ line_bytes l"
  using takes_outputD(2) [OF assms, of "line_bytes l" s] by (auto simp: eprintln_def print_to_def line_bytes_def)

lemma print_lines_run:
  assumes "takes_output T shown complained"
  shows "\<exists>s'. print_lines T ls s = Some (Inr (), s') \<and> shown s' = shown s @ concat (map line_bytes ls)
     \<and> complained s' = complained s"
proof (induction ls arbitrary: s)
  case (Cons l ls)
  obtain s1 where s1: "println T l s = Some (Inr (), s1)" "shown s1 = shown s @ line_bytes l" "complained s1 = complained s"
    using println_run [OF assms] by blast
  from Cons.IH [of s1] s1 show ?case by (auto simp: and_then_ok)
qed simp

text \<open>The exit status of a remote command that ran.\<close>

definition shell_status :: "u8 option \<Rightarrow> unit result" where
  "shell_status status = (case status of None \<Rightarrow> Inr () | Some c \<Rightarrow> if c = 0 then Inr () else Inl (exit_status c))"

lemma cli_shell_run:
  assumes T: "takes_output T shown complained" and "device_shell N cmd d = Some (Inr out, d')"
  shows "\<exists>s'. cli_shell T N cmd (d, s) = Some (shell_status (exit_code out), (d', s'))
     \<and> shown s' = shown s @ stdout out \<and> complained s' = complained s @ stderr out"
proof -
  obtain s1 where s1: "tm_stdout T (stdout out) s = Some (Inr (), s1)" "shown s1 = shown s @ stdout out"
    "complained s1 = complained s"
    using takes_outputD(1) [OF T] by blast
  obtain s2 where s2: "tm_stderr T (stderr out) s1 = Some (Inr (), s2)" "shown s2 = shown s1"
    "complained s2 = complained s1 @ stderr out"
    using takes_outputD(2) [OF T] by blast
  have "on_client (device_shell N cmd) (d, s) = Some (Inr out, (d', s))" using assms(2) by (rule on_client_run)
  moreover have "on_source (io_err Io (tm_stdout T (stdout out))) (d', s) = Some (Inr (), (d', s1))"
    "on_source (io_err Io (tm_stderr T (stderr out))) (d', s1) = Some (Inr (), (d', s2))"
    using s1(1) s2(1) by (auto intro: on_source_io)
  ultimately have "cli_shell T N cmd (d, s) = Some (shell_status (exit_code out), (d', s2))"
    by (simp add: cli_shell_def and_then_ok shell_status_def split: option.split)
  with s1 s2 show ?thesis by simp
qed

lemma cli_exec_run:
  assumes T: "takes_output T shown complained" and "device_exec N (join '' '' ws) d = Some (Inr out, d')"
  shows "\<exists>s'. on_device T L N (Exec ws) (d, s) = Some (Inr (), (d', s'))
     \<and> shown s' = shown s @ out \<and> complained s' = complained s"
proof -
  obtain s1 where s1: "tm_stdout T out s = Some (Inr (), s1)" "shown s1 = shown s @ out" "complained s1 = complained s"
    using takes_outputD(1) [OF T] by blast
  have "on_client (device_exec N (join '' '' ws)) (d, s) = Some (Inr out, (d', s))"
    using assms(2) by (rule on_client_run)
  moreover have "on_source (io_err Io (tm_stdout T out)) (d', s) = Some (Inr (), (d', s1))"
    using s1(1) by (auto intro: on_source_io)
  ultimately show ?thesis using s1 by (simp add: and_then_ok)
qed

lemma cli_ls_run:
  assumes T: "takes_output T shown complained" and "list_dir N p d = Some (Inr es, d')"
  shows "\<exists>s'. on_device T L N (Ls p) (d, s) = Some (Inr (), (d', s'))
     \<and> shown s' = shown s @ concat (map (line_bytes \<circ> format_entry) es) \<and> complained s' = complained s"
proof -
  obtain s1 where s1: "print_lines T (map format_entry es) s = Some (Inr (), s1)"
    "shown s1 = shown s @ concat (map line_bytes (map format_entry es))" "complained s1 = complained s"
    using print_lines_run [OF T] by blast
  have "on_client (list_dir N p) (d, s) = Some (Inr es, (d', s))" using assms(2) by (rule on_client_run)
  with s1 show ?thesis by (simp add: and_then_ok on_source_run)
qed

end
