(* ===== verification/Keyfile.thy ===== *)
theory Keyfile
  imports Pubkey Transport
begin

section \<open>Key files\<close>

text \<open>
  \<open>src/auth/keyfile.rs\<close>, with the options of the command line that choose the files
  (\<open>src/bin/rsadb/connect.rs\<close>) and its exit codes (\<open>src/bin/rsadb/cli.rs\<close>). A path is the list of
  its components. The file system is a parameter: \<open>files\<close> holds the calls the code makes and
  \<open>holds_files\<close> their documented behaviour on the content of files. The lemmas show that a
  generated key is found again, and when it is not.
\<close>

subsection \<open>Paths\<close>

type_synonym path = "str list"

record key_paths =
  kp_private :: path
  kp_public :: path

definition in_dir :: "path \<Rightarrow> key_paths" where
  "in_dir dir = \<lparr>kp_private = dir @ [''adbkey''], kp_public = dir @ [''adbkey.pub'']\<rparr>"

definition or_else :: "'a option \<Rightarrow> 'a option \<Rightarrow> 'a option" where
  "or_else x y = (case x of None \<Rightarrow> y | Some v \<Rightarrow> Some v)"

definition default_key_paths :: "(str \<Rightarrow> path option) \<Rightarrow> key_paths result" where
  "default_key_paths env =
     (case or_else (env ''HOME'') (env ''USERPROFILE'') of
        None \<Rightarrow> Inl (Key (Lit ''neither HOME nor USERPROFILE is set''))
      | Some home \<Rightarrow> Inr (in_dir (home @ [''.android''])))"

subsection \<open>Reading and writing\<close>

record 'f files =
  fl_exists :: "path \<Rightarrow> 'f \<Rightarrow> bool"
  fl_read_to_string :: "path \<Rightarrow> ('f, str) io"
  fl_create_dir_all :: "path \<Rightarrow> ('f, unit) io"
  fl_open :: "path \<Rightarrow> nat \<Rightarrow> ('f, unit) io"  \<comment> \<open>write, create, truncate, with the mode of a new file\<close>
  fl_write_all :: "path \<Rightarrow> bytes \<Rightarrow> ('f, unit) io"  \<comment> \<open>on the file just opened\<close>
  fl_write :: "path \<Rightarrow> bytes \<Rightarrow> ('f, unit) io"

definition parent :: "path \<Rightarrow> path option" where
  "parent p = (if p = [] then None else Some (butlast p))"

definition read_key ::
  "'f files \<Rightarrow> ('sk, 'pk) crypto \<Rightarrow> key_paths \<Rightarrow> str \<Rightarrow> ('f, ('sk, 'pk) host_key) comp" where
  "read_key F C paths label =
     and_then (io_err Io (fl_read_to_string F (kp_private paths))) (\<lambda>pem.
     of_result (from_pem C pem label))"

definition write_private :: "'f files \<Rightarrow> path \<Rightarrow> bytes \<Rightarrow> ('f, unit) comp" where
  "write_private F p pem =
     and_then (io_err Io (fl_open F p (6 * 8 * 8))) (\<lambda>_. io_err Io (fl_write_all F p pem))"

definition write_key ::
  "'f files \<Rightarrow> ('sk, 'pk) crypto \<Rightarrow> key_paths \<Rightarrow> ('sk, 'pk) host_key \<Rightarrow> ('f, unit) comp" where
  "write_key F C paths key =
     and_then (case parent (kp_private paths) of
                 None \<Rightarrow> ret ()
               | Some dir \<Rightarrow> io_err Io (fl_create_dir_all F dir)) (\<lambda>_.
     and_then (of_result (to_pem C key)) (\<lambda>pem.
     and_then (write_private F (kp_private paths) (as_bytes pem)) (\<lambda>_.
     and_then (of_result (public_key_line C key)) (\<lambda>line.
     and_then (io_err Io (fl_write F (kp_public paths) (as_bytes (line @ [CHR 0x0A])))) (\<lambda>_.
     ret ())))))"

definition load_or_generate ::
  "'f files \<Rightarrow> ('sk, 'pk) crypto \<Rightarrow> (nat \<Rightarrow> msg_text + 'sk) \<Rightarrow> key_paths \<Rightarrow> str \<Rightarrow> ('f, ('sk, 'pk) host_key) comp" where
  "load_or_generate F C new_key paths label s =
     (if fl_exists F (kp_private paths) s then read_key F C paths label s
      else
        and_then (of_result (generate C new_key label)) (\<lambda>key.
        and_then (write_key F C paths key) (\<lambda>_.
        ret key)) s)"

subsection \<open>The command line\<close>

definition key_comment :: "(str \<Rightarrow> str option) \<Rightarrow> str" where
  "key_comment env =
     (let user = (case or_else (env ''USER'') (env ''USERNAME'') of None \<Rightarrow> ''rsadb'' | Some u \<Rightarrow> u);
          host = (case or_else (env ''HOSTNAME'') (env ''COMPUTERNAME'') of None \<Rightarrow> ''localhost'' | Some h \<Rightarrow> h)
      in user @ ''@'' @ host)"

text \<open>\<open>Path::with_extension\<close>: the part of the file name after its last dot, if one is not at its start.\<close>

definition file_stem :: "str \<Rightarrow> str" where
  "file_stem n =
     (case rsplit_once ''.'' n of
        Some (stem, ext) \<Rightarrow> if stem = [] then n else stem
      | None \<Rightarrow> n)"

definition with_extension :: "path \<Rightarrow> str \<Rightarrow> path" where
  "with_extension p ext =
     (if p = [] \<or> last p = ''..'' then p else butlast p @ [file_stem (last p) @ ''.'' @ ext])"

definition cli_key_paths :: "path option \<Rightarrow> (str \<Rightarrow> path option) \<Rightarrow> key_paths result" where
  "cli_key_paths key env =
     (case key of
        Some p \<Rightarrow> Inr \<lparr>kp_private = p, kp_public = with_extension p ''pub''\<rparr>
      | None \<Rightarrow> default_key_paths env)"

fun error_exit_code :: "error \<Rightarrow> u8" where
  "error_exit_code (InvalidArgument m) = 2"
| "error_exit_code (NoDevice m) = 3"
| "error_exit_code Unauthorized = 4"
| "error_exit_code (ClaimFailed m) = 5"
| "error_exit_code (Unsupported m) = 6"
| "error_exit_code (RemoteFailure m) = 7"
| "error_exit_code (ServiceRefused s) = 7"
| "error_exit_code e = 1"

subsection \<open>The contract of the file system and of PEM\<close>

definition holds_files :: "'f files \<Rightarrow> ('f \<Rightarrow> path \<Rightarrow> bytes option) \<Rightarrow> bool" where
  "holds_files F content \<longleftrightarrow>
     (\<forall>p s. fl_exists F p s \<longleftrightarrow> content s p \<noteq> None)
   \<and> (\<forall>p s bs. content s p = Some bs \<and> valid_utf8 bs \<longrightarrow>
        (\<exists>s'. fl_read_to_string F p s = Some (Inr (bytes_str bs), s') \<and> content s' = content s))
   \<and> (\<forall>p s. \<exists>s'. fl_create_dir_all F p s = Some (Inr (), s') \<and> content s' = content s)
   \<and> (\<forall>p m s. \<exists>s'. fl_open F p m s = Some (Inr (), s') \<and> content s' = (content s)(p \<mapsto> []))
   \<and> (\<forall>p s bs old. content s p = Some old \<longrightarrow>
        (\<exists>s'. fl_write_all F p bs s = Some (Inr (), s') \<and> content s' = (content s)(p \<mapsto> old @ bs)))
   \<and> (\<forall>p s bs. \<exists>s'. fl_write F p bs s = Some (Inr (), s') \<and> content s' = (content s)(p \<mapsto> bs))"

definition pem_codec :: "('sk, 'pk) crypto \<Rightarrow> bool" where
  "pem_codec C \<longleftrightarrow> (\<forall>sk pem. pkcs1_to_pem C sk = Inr pem \<longrightarrow>
     valid_utf8 (as_bytes pem) \<and> isl (pkcs8_from_pem C pem) \<and> pkcs1_from_pem C pem = Inr sk)"

lemma holds_filesD:
  assumes "holds_files F content"
  shows "fl_exists F p s \<longleftrightarrow> content s p \<noteq> None"
    and "content s p = Some bs \<Longrightarrow> valid_utf8 bs \<Longrightarrow>
        \<exists>s'. fl_read_to_string F p s = Some (Inr (bytes_str bs), s') \<and> content s' = content s"
    and "\<exists>s'. fl_create_dir_all F p s = Some (Inr (), s') \<and> content s' = content s"
    and "\<exists>s'. fl_open F p m s = Some (Inr (), s') \<and> content s' = (content s)(p \<mapsto> [])"
    and "content s p = Some old \<Longrightarrow>
        \<exists>s'. fl_write_all F p bs s = Some (Inr (), s') \<and> content s' = (content s)(p \<mapsto> old @ bs)"
    and "\<exists>s'. fl_write F p bs s = Some (Inr (), s') \<and> content s' = (content s)(p \<mapsto> bs)"
  using assms unfolding holds_files_def by blast+

lemma write_key_run:
  assumes F: "holds_files F content" and "to_pem C key = Inr pem" and "public_key_line C key = Inr line"
  shows "\<exists>s'. write_key F C paths key s = Some (Inr (), s')
     \<and> content s' = (content s)(kp_private paths \<mapsto> as_bytes pem, kp_public paths \<mapsto> as_bytes (line @ [CHR 0x0A]))"
proof -
  let ?dir = "case parent (kp_private paths) of None \<Rightarrow> ret () | Some dir \<Rightarrow> io_err Io (fl_create_dir_all F dir)"
  have "\<exists>s1. ?dir s = Some (Inr (), s1) \<and> content s1 = content s"
  proof (cases "parent (kp_private paths)")
    case (Some dir)
    with holds_filesD(3) [OF F, of dir s] show ?thesis by (auto simp: io_err_def)
  qed simp
  then obtain s1 where s1: "?dir s = Some (Inr (), s1)" "content s1 = content s" by blast
  obtain s2 where s2: "fl_open F (kp_private paths) (6 * 8 * 8) s1 = Some (Inr (), s2)"
    "content s2 = (content s1)(kp_private paths \<mapsto> [])"
    using holds_filesD(4) [OF F] by blast
  obtain s3 where s3: "fl_write_all F (kp_private paths) (as_bytes pem) s2 = Some (Inr (), s3)"
    "content s3 = (content s2)(kp_private paths \<mapsto> [] @ as_bytes pem)"
    using holds_filesD(5) [OF F, of s2 "kp_private paths" "[]" "as_bytes pem"] s2(2) by auto
  obtain s4 where s4: "fl_write F (kp_public paths) (as_bytes (line @ [CHR 0x0A])) s3 = Some (Inr (), s4)"
    "content s4 = (content s3)(kp_public paths \<mapsto> as_bytes (line @ [CHR 0x0A]))"
    using holds_filesD(6) [OF F] by blast
  have "write_private F (kp_private paths) (as_bytes pem) s1 = Some (Inr (), s3)"
    using s2(1) s3(1) by (simp add: write_private_def and_then_ok io_err_def)
  with s1 s4 have "write_key F C paths key s = Some (Inr (), s4)"
    using assms(2,3) by (simp add: write_key_def and_then_ok io_err_def)
  with s1 s2 s3 s4 show ?thesis by simp
qed

lemma write_key_fails:
  "to_pem C key = Inl e \<Longrightarrow> write_key F C paths key s \<noteq> Some (Inr u, s')"
  by (auto simp: write_key_def and_then_def split: option.splits sum.splits)

lemma generate_line: "generate C new_key label = Inr key \<Longrightarrow> \<exists>line. public_key_line C key = Inr line"
  by (auto simp: generate_def split: sum.splits dest!: from_private_line)

text \<open>What a call that generates a key leaves, and that it succeeds when the key has a PEM text.\<close>

lemma load_or_generate_stores:
  assumes F: "holds_files F content" and "content s (kp_private paths) = None"
    and gen: "generate C new_key label = Inr key" and pem: "to_pem C key = Inr pem"
    and line: "public_key_line C key = Inr line"
  shows "\<exists>s1. load_or_generate F C new_key paths label s = Some (Inr key, s1)
     \<and> content s1 = (content s)(kp_private paths \<mapsto> as_bytes pem, kp_public paths \<mapsto> as_bytes (line @ [CHR 0x0A]))"
  using write_key_run [OF F pem line, of paths s] holds_filesD(1) [OF F, of "kp_private paths" s] assms(2) gen
  by (auto simp: load_or_generate_def and_then_def)

lemma load_or_generate_new:
  assumes F: "holds_files F content" and "content s (kp_private paths) = None"
    and "load_or_generate F C new_key paths label s = Some (Inr key, s1)"
  shows "\<exists>pem line. generate C new_key label = Inr key \<and> to_pem C key = Inr pem \<and> public_key_line C key = Inr line
     \<and> content s1 = (content s)(kp_private paths \<mapsto> as_bytes pem, kp_public paths \<mapsto> as_bytes (line @ [CHR 0x0A]))"
proof -
  have run: "and_then (of_result (generate C new_key label)) (\<lambda>key. and_then (write_key F C paths key) (\<lambda>_. ret key)) s
      = Some (Inr key, s1)"
    using assms(2,3) holds_filesD(1) [OF F, of "kp_private paths" s] by (simp add: load_or_generate_def)
  then obtain k where k: "generate C new_key label = Inr k" by (cases "generate C new_key label") auto
  then obtain line where line: "public_key_line C k = Inr line" using generate_line by blast
  have written: "and_then (write_key F C paths k) (\<lambda>_. ret k) s = Some (Inr key, s1)" using run k by simp
  then obtain s2 where "write_key F C paths k s = Some (Inr (), s2)" by (auto elim!: and_then_SomeE)
  with write_key_fails [of C k _ F paths s "()" s2] obtain pem where pem: "to_pem C k = Inr pem"
    by (cases "to_pem C k") auto
  from load_or_generate_stores [OF F assms(2) k pem line] assms(3) k pem line show ?thesis by auto
qed

subsection \<open>Properties\<close>

text \<open>
  C34: a key that was generated is found again: the next call, whatever the generator would give
  then, returns the same key, and the public file holds the key's line.
\<close>

theorem generated_key_persists:
  assumes "holds_files F content" and "pem_codec C" and "kp_private paths \<noteq> kp_public paths"
    and "content s (kp_private paths) = None"
    and "load_or_generate F C new_key paths label s = Some (Inr key, s1)"
  shows "\<exists>line s2. public_key_line C key = Inr line
     \<and> content s1 (kp_public paths) = Some (as_bytes (line @ [CHR 0x0A]))
     \<and> load_or_generate F C other_key paths label s1 = Some (Inr key, s2)"
proof -
  obtain pem line where gen: "generate C new_key label = Inr key" and pem: "to_pem C key = Inr pem"
    and line: "public_key_line C key = Inr line"
    and stored: "content s1 = (content s)(kp_private paths \<mapsto> as_bytes pem, kp_public paths \<mapsto> as_bytes (line @ [CHR 0x0A]))"
    using load_or_generate_new [OF assms(1,4,5)] by blast
  have codec: "valid_utf8 (as_bytes pem)" "isl (pkcs8_from_pem C pem)" "pkcs1_from_pem C pem = Inr (private_key key)"
    using assms(2) pem by (auto simp: pem_codec_def to_pem_def key_err_def split: sum.splits)
  have stored_pem: "content s1 (kp_private paths) = Some (as_bytes pem)" using stored assms(3) by simp
  have "from_private C (private_key key) label = Inr key"
    using gen by (auto simp: generate_def from_private_def Let_def split: sum.splits)
  then have parsed: "from_pem C pem label = Inr key"
    using codec(2,3) by (cases "pkcs8_from_pem C pem") (simp_all add: from_pem_def)
  obtain s2 where "fl_read_to_string F (kp_private paths) s1 = Some (Inr (bytes_str (as_bytes pem)), s2)"
    using holds_filesD(2) [OF assms(1) stored_pem codec(1)] by blast
  then have "load_or_generate F C other_key paths label s1 = Some (Inr key, s2)"
    using stored_pem parsed holds_filesD(1) [OF assms(1), of "kp_private paths" s1]
    by (simp add: load_or_generate_def read_key_def and_then_ok io_err_def del: map_map)
  moreover have "content s1 (kp_public paths) = Some (as_bytes (line @ [CHR 0x0A]))" using stored by simp
  ultimately show ?thesis using line by blast
qed

text \<open>A file system that is the map from paths to contents, and keys whose PEM is a fixed text.\<close>

definition map_files :: "(path \<Rightarrow> bytes option) files" where
  "map_files =
     \<lparr>fl_exists = (\<lambda>p s. s p \<noteq> None),
      fl_read_to_string = (\<lambda>p s. case s p of
         None \<Rightarrow> Some (Inl (Io_error (Other_kind 2) (Lit ''No such file or directory'')), s)
       | Some bs \<Rightarrow> if valid_utf8 bs then Some (Inr (bytes_str bs), s)
           else Some (Inl (Io_error (Other_kind 0) (Lit ''stream did not contain valid UTF-8'')), s)),
      fl_create_dir_all = (\<lambda>p s. Some (Inr (), s)),
      fl_open = (\<lambda>p m s. Some (Inr (), s(p \<mapsto> []))),
      fl_write_all = (\<lambda>p bs s. case s p of
         None \<Rightarrow> Some (Inl (Io_error (Other_kind 2) (Lit ''No such file or directory'')), s)
       | Some old \<Rightarrow> Some (Inr (), s(p \<mapsto> old @ bs))),
      fl_write = (\<lambda>p bs s. Some (Inr (), s(p \<mapsto> bs)))\<rparr>"

lemma map_files_ok: "holds_files map_files id"
  by (simp add: holds_files_def map_files_def)

definition pem_crypto :: "(nat \<times> nat, nat \<times> nat) crypto" where
  "pem_crypto = sample_crypto
     \<lparr>pkcs1_to_pem := (\<lambda>k. if k = sample_key then Inr ''PEM'' else Inl (Lit ''no'')),
      pkcs1_from_pem := (\<lambda>p. if p = ''PEM'' then Inr sample_key else Inl (Lit ''no''))\<rparr>"

definition sample_host_key :: "(nat \<times> nat, nat \<times> nat) host_key" where
  "sample_host_key = \<lparr>private_key = sample_key, public_key = sample_key, comment = ''me@laptop''\<rparr>"

lemma pem_crypto_codec: "pem_codec pem_crypto"
proof -
  have "valid_utf8 (as_bytes ''PEM'')" by code_simp
  then show ?thesis
    by (simp add: pem_codec_def pem_crypto_def sample_crypto_def del: list.map)
qed

lemma pem_crypto_generates:
  "generate pem_crypto (\<lambda>n. Inr sample_key) ''me@laptop'' = Inr sample_host_key"
  "to_pem pem_crypto sample_host_key = Inr ''PEM''"
  "\<exists>line. public_key_line pem_crypto sample_host_key = Inr line"
proof -
  have "rsa_n pem_crypto = rsa_n sample_crypto" and "rsa_e pem_crypto = rsa_e sample_crypto"
    by (simp_all add: pem_crypto_def)
  with sample_encodable have "encodable pem_crypto sample_key" by (simp only: encodable_def simp_thms)
  from encode_encodable [OF this] obtain bs where bs: "encode pem_crypto sample_key = Inr bs" ..
  then show "\<exists>line. public_key_line pem_crypto sample_host_key = Inr line"
    by (simp add: public_key_line_def encode_line_def sample_host_key_def)
  have "rsa_to_public pem_crypto sample_key = sample_key" by (simp add: pem_crypto_def sample_crypto_def)
  with bs show "generate pem_crypto (\<lambda>n. Inr sample_key) ''me@laptop'' = Inr sample_host_key"
    by (simp add: generate_def key_err_def from_private_def sample_host_key_def)
  show "to_pem pem_crypto sample_host_key = Inr ''PEM''"
    by (simp add: to_pem_def key_err_def pem_crypto_def sample_host_key_def)
qed

lemma pem_crypto_call:
  "s (kp_private paths) = None \<Longrightarrow>
   \<exists>s1. load_or_generate map_files pem_crypto (\<lambda>n. Inr sample_key) paths ''me@laptop'' s = Some (Inr sample_host_key, s1)"
  using load_or_generate_stores [OF map_files_ok, of s paths pem_crypto "\<lambda>n. Inr sample_key" "''me@laptop''" sample_host_key]
    pem_crypto_generates by auto

theorem generated_key_persists_witness:
  "\<exists>line s1 s2. load_or_generate map_files pem_crypto (\<lambda>n. Inr sample_key) (in_dir [''home'', ''.android'']) ''me@laptop'' (\<lambda>_. None)
       = Some (Inr sample_host_key, s1)
     \<and> s1 [''home'', ''.android'', ''adbkey.pub''] = Some (as_bytes (line @ [CHR 0x0A]))
     \<and> load_or_generate map_files pem_crypto (\<lambda>n. Inl (Lit ''no entropy'')) (in_dir [''home'', ''.android'']) ''me@laptop'' s1
       = Some (Inr sample_host_key, s2)"
proof -
  let ?p = "in_dir [''home'', ''.android'']"
  obtain s1 where s1: "load_or_generate map_files pem_crypto (\<lambda>n. Inr sample_key) ?p ''me@laptop'' (\<lambda>_. None)
      = Some (Inr sample_host_key, s1)"
    using pem_crypto_call [of "\<lambda>_. None" ?p] by auto
  have "kp_private ?p \<noteq> kp_public ?p" by (simp add: in_dir_def)
  from generated_key_persists [OF map_files_ok pem_crypto_codec this _ s1, where other_key = "\<lambda>n. Inl (Lit ''no entropy'')"] s1
  show ?thesis by (auto simp: in_dir_def)
qed

text \<open>
  C40: with \<open>--key\<close> naming a file whose extension is already \<open>pub\<close>, both paths are the same file:
  a call that generates a key succeeds and leaves only the public line there, so the private
  key just accepted is lost.
\<close>

theorem pub_key_option_loses_key:
  assumes "holds_files F content" and "stem \<noteq> []"
    and "cli_key_paths (Some (dir @ [stem @ ''.pub''])) env = Inr paths"
    and "content s (dir @ [stem @ ''.pub'']) = None"
    and "load_or_generate F C new_key paths label s = Some (Inr key, s1)"
  shows "\<exists>line. public_key_line C key = Inr line
     \<and> content s1 = (content s)(dir @ [stem @ ''.pub''] \<mapsto> as_bytes (line @ [CHR 0x0A]))"
proof -
  have "file_stem (stem @ ''.pub'') = stem"
    using assms(2) rsplit_once_single [of "CHR ''.''" "''pub''" stem] by (simp add: file_stem_def)
  moreover have "stem @ ''.pub'' \<noteq> ''..''" by (cases stem) auto
  ultimately have paths: "paths = \<lparr>kp_private = dir @ [stem @ ''.pub''], kp_public = dir @ [stem @ ''.pub'']\<rparr>"
    using assms(3) by (auto simp: cli_key_paths_def with_extension_def)
  from load_or_generate_new [OF assms(1) _ assms(5)] assms(4) show ?thesis by (auto simp: paths)
qed

theorem pub_key_option_loses_key_witness:
  "\<exists>paths line s1. cli_key_paths (Some [''my.pub'']) (\<lambda>_. None) = Inr paths
     \<and> load_or_generate map_files pem_crypto (\<lambda>n. Inr sample_key) paths ''me@laptop'' (\<lambda>_. None)
         = Some (Inr sample_host_key, s1)
     \<and> s1 = [[''my.pub''] \<mapsto> as_bytes (line @ [CHR 0x0A])]"
proof -
  obtain paths where paths: "cli_key_paths (Some ([] @ [''my'' @ ''.pub''])) (\<lambda>_. None) = Inr paths"
    by (simp add: cli_key_paths_def)
  obtain s1 where s1: "load_or_generate map_files pem_crypto (\<lambda>n. Inr sample_key) paths ''me@laptop'' (\<lambda>_. None)
      = Some (Inr sample_host_key, s1)"
    using pem_crypto_call [of "\<lambda>_. None" paths] by auto
  from pub_key_option_loses_key [OF map_files_ok _ paths _ s1] paths s1 show ?thesis by auto
qed

end
