(* ===== verification/Endpoint.thy ===== *)
theory Endpoint
  imports Transport
begin

section \<open>TCP endpoints\<close>

text \<open>
  \<open>src/transport/tcp.rs\<close>: the address a user gives is split into host and port, and connecting
  wraps the socket's two ends in a \<open>StreamTransport\<close>. The socket is a parameter. The lemmas show
  that an address written with its port is read back, IPv6 literals included.
\<close>

definition DEFAULT_PORT :: nat where "DEFAULT_PORT = 5555"

definition tcp_connect ::
  "('n, 'r \<times> 'w) io \<Rightarrow> ('r \<times> 'w \<Rightarrow> ('n, unit) io) \<Rightarrow> ('n, ('r, 'w) stream_transport) comp" where
  "tcp_connect connect nodelay =
     and_then (io_err Io connect) (\<lambda>t.
     and_then (io_err Io (nodelay t)) (\<lambda>_.
     ret (new_stream_transport (fst t) (snd t))))"

definition bad_port :: "str \<Rightarrow> error" where
  "bad_port s = InvalidArgument (Fmt ''bad port {text:?}'' [Txt s])"

definition parse_port :: "str \<Rightarrow> nat result" where
  "parse_port s = (case from_str_radix 10 65536 s of None \<Rightarrow> Inl (bad_port s) | Some p \<Rightarrow> Inr p)"

definition empty_address :: error where
  "empty_address = InvalidArgument (Lit ''empty address'')"

definition unterminated_literal :: "str \<Rightarrow> error" where
  "unterminated_literal s = InvalidArgument (Fmt ''unterminated IPv6 literal {spec:?}'' [Txt s])"

definition unexpected_tail :: "str \<Rightarrow> error" where
  "unexpected_tail s = InvalidArgument (Fmt ''unexpected {tail:?} after host'' [Txt s])"

definition with_port :: "str \<Rightarrow> nat result \<Rightarrow> (str \<times> nat) result" where
  "with_port host r = (case r of Inl e \<Rightarrow> Inl e | Inr p \<Rightarrow> Inr (host, p))"

definition parse_endpoint :: "str \<Rightarrow> (str \<times> nat) result" where
  "parse_endpoint s =
     (let spec = trim s in
      if spec = [] then Inl empty_address
      else case strip_prefix ''['' spec of
        Some rest \<Rightarrow>
          (case split_once '']'' rest of
             None \<Rightarrow> Inl (unterminated_literal spec)
           | Some (host, after) \<Rightarrow>
               (case strip_prefix '':'' after of
                  Some p \<Rightarrow> with_port host (parse_port p)
                | None \<Rightarrow> if after = [] then Inr (host, DEFAULT_PORT) else Inl (unexpected_tail after)))
      | None \<Rightarrow>
          (case rsplit_once '':'' spec of
             Some (host, port) \<Rightarrow>
               if CHR '':'' \<notin> set host then with_port host (parse_port port) else Inr (spec, DEFAULT_PORT)
           | None \<Rightarrow> Inr (spec, DEFAULT_PORT)))"

subsection \<open>Trimming and decimal numbers\<close>

definition graphic :: "char \<Rightarrow> bool" where
  "graphic c \<longleftrightarrow> 33 \<le> (of_char c :: nat) \<and> (of_char c :: nat) \<le> 126"

lemma graphic_plain: "graphic c \<Longrightarrow> c \<notin> set (map hd ws_chars) \<union> set (map last ws_chars)"
  by (auto simp: graphic_def ws_chars_def)

lemma drop_any_none: "\<forall>w \<in> set ws. w \<noteq> [] \<and> hd w \<noteq> c \<Longrightarrow> drop_any ws (c # cs) = None"
proof (induction ws)
  case (Cons w ws)
  then show ?case by (cases w) auto
qed simp

lemma trim_graphic:
  assumes "s \<noteq> []" and "graphic (hd s)" and "graphic (last s)"
  shows "trim s = s"
proof -
  have "drop_any (map rev ws_chars) (rev s) = None"
  proof -
    obtain c cs where c: "rev s = c # cs" "c = last s" using assms(1) by (cases s rule: rev_cases) auto
    have "\<forall>w \<in> set (map rev ws_chars). w \<noteq> [] \<and> hd w \<noteq> c"
    proof
      fix w
      assume "w \<in> set (map rev ws_chars)"
      then obtain v where v: "v \<in> set ws_chars" "w = rev v" by auto
      have "last v \<in> set (map last ws_chars)" using v(1) by simp
      then have "last v \<noteq> last s" using graphic_plain [OF assms(3)] by (metis UnCI)
      moreover have "v \<noteq> []" using v(1) ws_chars_no_Nil(1) by metis
      ultimately show "w \<noteq> [] \<and> hd w \<noteq> c" by (simp add: v(2) c(2) hd_rev)
    qed
    then show ?thesis unfolding c(1) by (rule drop_any_none)
  qed
  then have "trim_rev (rev s) = rev s" by (simp add: trim_rev.simps)
  moreover have "drop_any ws_chars s = None"
  proof -
    obtain c cs where c: "s = c # cs" using assms(1) by (cases s) auto
    have "plain_char c" using graphic_plain [of c] assms(2) by (simp add: plain_char_def c)
    then show ?thesis unfolding c by (rule drop_any_plain)
  qed
  ultimately show ?thesis by (simp add: trim_def trim_start.simps)
qed

lemma digits_val_append:
  "digits_val r b acc (xs @ ys) = (case digits_val r b acc xs of None \<Rightarrow> None | Some v \<Rightarrow> digits_val r b v ys)"
  by (induction xs arbitrary: acc) (auto split: option.splits)

definition dec_digit :: "nat \<Rightarrow> char" where
  "dec_digit d = char_of (48 + d)"

lemma dec_digit_table:
  "\<forall>d \<in> set [0..<10]. digit_val 10 (dec_digit d) = Some d \<and> graphic (dec_digit d)
     \<and> dec_digit d \<notin> set ''+-:[]''"
  by code_simp

lemma dec_digit_ok:
  "d < 10 \<Longrightarrow> digit_val 10 (dec_digit d) = Some d" "d < 10 \<Longrightarrow> graphic (dec_digit d)"
  "d < 10 \<Longrightarrow> dec_digit d \<notin> set ''+-:[]''"
  using dec_digit_table by simp_all

lemma dec_of_nat_digits: "c \<in> set (dec_of_nat n) \<Longrightarrow> \<exists>d < 10. c = dec_digit d"
proof (induction n rule: dec_of_nat.induct)
  case (1 n)
  show ?case
  proof (cases "n < 10")
    case True
    with 1(2) show ?thesis by (auto simp: dec_of_nat.simps [of n] dec_digit_def)
  next
    case False
    with 1 show ?thesis
      by (auto simp: dec_of_nat.simps [of n] dec_digit_def intro: exI [of _ "n mod 10"])
  qed
qed

lemma dec_of_nat_not_Nil [simp]: "dec_of_nat n \<noteq> []"
  by (simp add: dec_of_nat.simps [of n])

lemma digits_val_dec: "n < bound \<Longrightarrow> digits_val 10 bound 0 (dec_of_nat n) = Some n"
proof (induction n rule: dec_of_nat.induct)
  case (1 n)
  show ?case
  proof (cases "n < 10")
    case True
    with 1(2) dec_digit_ok(1) [OF True] show ?thesis
      by (simp add: dec_of_nat.simps [of n] dec_digit_def)
  next
    case False
    have "digit_val 10 (dec_digit (n mod 10)) = Some (n mod 10)" by (simp add: dec_digit_ok)
    with False 1 show ?thesis
      by (simp add: dec_of_nat.simps [of n] digits_val_append dec_digit_def)
  qed
qed

lemma from_dec: "n < bound \<Longrightarrow> from_str_radix 10 bound (dec_of_nat n) = Some n"
proof -
  assume n: "n < bound"
  obtain c cs where c: "dec_of_nat n = c # cs" by (cases "dec_of_nat n") auto
  then have "c \<noteq> CHR ''+'' \<and> c \<noteq> CHR ''-''"
    using dec_of_nat_digits [of c n] dec_digit_ok(3) by auto
  with digits_val_dec [OF n] show ?thesis by (simp add: from_str_radix_def c)
qed

lemma parse_port_dec: "p < 65536 \<Longrightarrow> parse_port (dec_of_nat p) = Inr p"
  by (simp add: parse_port_def from_dec)

subsection \<open>Properties\<close>

definition host_ok :: "str \<Rightarrow> bool" where
  "host_ok h \<longleftrightarrow> h \<noteq> [] \<and> (\<forall>c \<in> set h. graphic c \<and> c \<noteq> CHR ''['' \<and> c \<noteq> CHR '']'')"

lemma dec_of_nat_chars: "\<forall>c \<in> set (dec_of_nat n). graphic c \<and> c \<notin> set ''+-:[]''"
  using dec_of_nat_digits dec_digit_ok(2,3) by blast

text \<open>
  A host with its port is read back, with IPv6 literals in brackets; a name or a bare IPv6
  address without a port gets port 5555.
\<close>

lemma endpoint_roundtrip:
  assumes "host_ok h" and "p < 65536"
  shows "parse_endpoint (if CHR '':'' \<in> set h then ''['' @ h @ '']:'' @ dec_of_nat p else h @ '':'' @ dec_of_nat p) = Inr (h, p)
     \<and> parse_endpoint (''['' @ h @ '']'') = Inr (h, DEFAULT_PORT)
     \<and> (CHR '':'' \<notin> set h \<longrightarrow> parse_endpoint h = Inr (h, DEFAULT_PORT))"
proof -
  have h: "h \<noteq> []" "graphic (hd h)" "graphic (last h)" "CHR '']'' \<notin> set h" "hd h \<noteq> CHR ''[''"
    using assms(1) by (auto simp: host_ok_def)
  have digits: "graphic (last (dec_of_nat p))" "CHR '':'' \<notin> set (dec_of_nat p)"
    using dec_of_nat_chars [of p] by auto
  have brackets: "graphic (CHR ''['')" "graphic (CHR '']'')" by (simp_all add: graphic_def)
  have no_bracket: "strip_prefix ''['' (h @ s) = None" for s
    using h(1,5) by (cases h) simp_all
  have cut: "split_once '']'' (h @ CHR '']'' # s) = Some (h, s)" for s
    using h(4) by (rule split_once_single)
  have trims: "trim (''['' @ h @ '']:'' @ dec_of_nat p) = ''['' @ h @ '']:'' @ dec_of_nat p"
    "trim (h @ '':'' @ dec_of_nat p) = h @ '':'' @ dec_of_nat p" "trim (''['' @ h @ '']'') = ''['' @ h @ '']''" "trim h = h"
    using h digits brackets by (simp_all add: trim_graphic)
  have literal: "parse_endpoint (''['' @ h @ '']:'' @ dec_of_nat p) = Inr (h, p)"
    using cut [of "'':'' @ dec_of_nat p"] trims(1)
    by (simp add: parse_endpoint_def parse_port_dec [OF assms(2)] with_port_def)
  moreover have "parse_endpoint (''['' @ h @ '']'') = Inr (h, DEFAULT_PORT)"
    using cut [of "[]"] trims(3) by (simp add: parse_endpoint_def)
  moreover have "parse_endpoint (h @ '':'' @ dec_of_nat p) = Inr (h, p)" if "CHR '':'' \<notin> set h"
    using trims(2) no_bracket [of "'':'' @ dec_of_nat p"] rsplit_once_single [OF digits(2), of h] that h(1)
    by (simp add: parse_endpoint_def parse_port_dec [OF assms(2)] with_port_def)
  moreover have "parse_endpoint h = Inr (h, DEFAULT_PORT)" if "CHR '':'' \<notin> set h"
    using trims(4) no_bracket [of "[]"] that h(1) split_once_single_None [of "CHR '':''" "rev h"]
    by (simp add: parse_endpoint_def rsplit_once_def)
  ultimately show ?thesis by simp
qed

end
