(* ===== verification/Direct.thy ===== *)
theory Direct
  imports Device
begin

section \<open>Services over a direct session\<close>

text \<open>
  \<open>impl Connection for Session\<close> (\<open>src/session/mod.rs\<close>) and \<open>impl Channel for Stream\<close>: the channels of
  a session are its streams, so the services of the device run over the reader and the writer task.
  The locale \<open>served_stream\<close> is the contract of the other side: however its actions interleave with
  the owner's, the device acknowledges every \<open>WRTE\<close> once, sends its chunks in order, and either
  closes the stream after the last one or keeps it open. Under it a stream keeps every law of the
  locale \<open>channel\<close>, in particular its operations return, and what was proved there of the services
  holds of a direct session as it does behind an adb server.
\<close>

subsection \<open>The connection\<close>

definition stream_ops :: "'d env \<Rightarrow> ('d world, stream) channel_ops" where
  "stream_ops E = \<lparr>ch_recv = stream_recv E, ch_send = stream_send E, ch_close = stream_close E\<rparr>"

definition session_connection :: "'d env \<Rightarrow> ('d world, stream) connection" where
  "session_connection E =
     \<lparr>cn_channel = stream_ops E, cn_open = open_stream E,
      cn_features = (\<lambda>w. Some (Inr (session_features (sess w)), w))\<rparr>"

subsection \<open>Wake-ups\<close>

text \<open>
  What the other tasks do to a stream's wake-up permit: they store it exactly when they acknowledge
  or close, and never take it.
\<close>

definition alerts :: "nat \<Rightarrow> session \<Rightarrow> session \<Rightarrow> bool" where
  "alerts i s s' \<longleftrightarrow> acked i (history s) \<le> acked i (history s')
     \<and> (closed (stream_of s i) \<longrightarrow> closed (stream_of s' i))
     \<and> (wake (stream_of s' i) \<longrightarrow> wake (stream_of s i) \<or> acked i (history s) < acked i (history s')
          \<or> closed (stream_of s' i))
     \<and> (wake (stream_of s i) \<or> acked i (history s) < acked i (history s')
          \<or> closed (stream_of s' i) \<and> \<not> closed (stream_of s i) \<longrightarrow> wake (stream_of s' i))"

lemma alerts_refl [simp]: "alerts i s s"
  by (simp add: alerts_def)

lemma alerts_trans: "alerts i s s1 \<Longrightarrow> alerts i s1 s2 \<Longrightarrow> alerts i s s2"
  unfolding alerts_def by (meson le_less_trans le_trans less_le_trans not_less)

lemma alerts_same:
  "stream_of s' i = stream_of s i \<Longrightarrow> acked i (history s') = acked i (history s) \<Longrightarrow> alerts i s s'"
  by (simp add: alerts_def)

lemma alerts_marked:
  "stream_of s' i = mark_closed (stream_of s i) \<Longrightarrow> acked i (history s') = acked i (history s) \<Longrightarrow> alerts i s s'"
  by (simp add: alerts_def state_simps)

lemma alerts_post [simp]: "alerts i s (snd (post m s))"
  by (rule alerts_same) (simp_all add: effect_simps)

lemma alerts_close_all:
  assumes "i < length (states (reg s))" and "reg s' = close_all (reg s)" and "history s' = history s"
  shows "alerts i s s'"
proof (cases "i \<in> snd ` set (streams (reg s))")
  case True
  show ?thesis by (rule alerts_marked) (use True assms in \<open>simp_all add: stream_of_def close_all_sel\<close>)
next
  case False
  show ?thesis by (rule alerts_same) (use False assms in \<open>simp_all add: stream_of_def close_all_sel\<close>)
qed

lemma alerts_stop: "i < length (states (reg s)) \<Longrightarrow> alerts i s (reader_stop s)"
  by (rule alerts_close_all) (simp_all add: reader_stop_def)

lemma alerts_dispatch:
  assumes "i < length (states (reg s))"
  shows "alerts i s (snd (dispatch m s))"
proof (cases "m_command m")
  case Okay
  show ?thesis
  proof (cases "get (m_arg1 m) (reg s)")
    case (Some j)
    with Okay assms show ?thesis
      by (cases "j = i") (auto simp: dispatch_def alerts_def state_simps effect_simps)
  qed (simp add: dispatch_def Okay)
next
  case Write
  show ?thesis
  proof (cases "get (m_arg1 m) (reg s)")
    case (Some j)
    with Write assms show ?thesis
      by (cases "data_tx (stream_of s j) \<and> rx_alive (stream_of s j)")
        (auto simp: dispatch_def deliver_def alerts_def effect_simps)
  qed (simp add: dispatch_def Write)
next
  case Close
  show ?thesis
  proof (cases "map_of (streams (reg s)) (m_arg1 m)")
    case None
    with Close show ?thesis
      by (intro alerts_same) (simp_all add: dispatch_def remove_def stream_of_def state_at_def)
  next
    case (Some j)
    with Close assms show ?thesis
      by (cases "j = i")
        (auto simp: dispatch_def remove_def stream_of_def state_at_def update_stream_def on_state_def
          intro: alerts_same alerts_marked)
  qed
qed (simp_all add: dispatch_def)

lemma alerts_happen:
  assumes "alien i l e" and "enabled e s" and i: "i < length (states (reg s))"
  shows "alerts i s (happen e s)"
proof (cases e)
  case (Received r)
  show ?thesis
  proof (cases r)
    case (Inr m)
    note d = alerts_dispatch [OF i, of m]
    have "i < length (states (reg (snd (dispatch m s))))"
      using progress_dispatch [OF i, of l m] progress_len i by blast
    then have "alerts i s (reader_stop (snd (dispatch m s)))" by (rule alerts_trans [OF d alerts_stop])
    with d Received Inr show ?thesis
      by (cases "dispatch m s") (auto simp: read_step_def split: sum.splits)
  qed (use Received alerts_stop [OF i] in \<open>simp add: read_step_def\<close>)
next
  case (Written f)
  then show ?thesis
    by (intro alerts_same) (auto simp: write_step_def stream_of_def split: list.splits option.splits)
next
  case Session_closed
  with i show ?thesis by (intro alerts_close_all) (simp_all add: session_close_def)
next
  case Registers
  obtain j r where reg: "register (reg s) = (j, r)" by fastforce
  from register_sel [OF reg] i Registers reg show ?thesis
    by (intro alerts_same) (simp_all add: register_stream_def stream_of_def state_at_def nth_append)
next
  case (Takes j)
  with assms show ?thesis
    by (intro alerts_same) (auto simp: take_chunk_def take_data_def effect_simps split: list.splits)
next
  case (Marks j)
  with assms show ?thesis by (cases "j = i") (auto intro: alerts_same alerts_marked)
next
  case (Removes lid)
  then show ?thesis
    by (intro alerts_same) (simp_all add: remove_stream_def remove_def stream_of_def state_at_def)
qed (use assms in \<open>auto intro: alerts_same\<close>)

lemma alerts_happens:
  "list_all (alien i l) es \<Longrightarrow> i < length (states (reg s)) \<Longrightarrow> alerts i s (happens es s)"
proof (induction es arbitrary: s)
  case (Cons e es)
  let ?s = "if enabled e s then happen e s else s"
  have step: "alerts i s ?s" using alerts_happen [of i l e s] Cons.prems by simp
  have "\<exists>h. progress i l s ?s h"
    using progress_happen [of i l e s] Cons.prems by (cases "enabled e s") auto
  then have "i < length (states (reg ?s))" using progress_len Cons.prems(2) by blast
  with Cons step show ?case by (simp add: alerts_trans [OF step])
qed simp

subsection \<open>What the device does for one stream\<close>

text \<open>
  The state a served stream is in while the device has the chunks \<open>rest\<close> left: it is open until the
  last one, the device has its id, and never acknowledges more than the \<open>OPEN\<close> and the \<open>WRTE\<close>s that
  were posted. \<open>owed\<close> says that an acknowledgement is due.
\<close>

definition served :: "nat \<Rightarrow> u32 \<Rightarrow> bool \<Rightarrow> bytes list \<Rightarrow> session \<Rightarrow> bool" where
  "served i l closes rest s \<longleftrightarrow>
     i < length (states (reg s)) \<and> local_id (stream_of s i) = l \<and> remote_id (stream_of s i) \<noteq> 0
     \<and> rx_alive (stream_of s i) \<and> writer_alive s \<and> own_posts l (history s) \<noteq> []
     \<and> (closed (stream_of s i) \<longleftrightarrow> \<not> data_tx (stream_of s i))
     \<and> (if closed (stream_of s i) then closes \<and> rest = [] else reader_alive s \<and> get l (reg s) = Some i)
     \<and> acks (stream_of s i) = word_of_nat (acked i (history s))
     \<and> acked i (history s) \<le> Suc (length (own_writes l (history s)))"

definition owed :: "nat \<Rightarrow> u32 \<Rightarrow> session \<Rightarrow> bool" where
  "owed i l s \<longleftrightarrow> acked i (history s) \<le> length (own_writes l (history s))"

definition starved :: "nat \<Rightarrow> bool \<Rightarrow> bytes list \<Rightarrow> session \<Rightarrow> bool" where
  "starved i closes rest s \<longleftrightarrow>
     data_q (stream_of s i) = [] \<and> \<not> closed (stream_of s i) \<and> (rest \<noteq> [] \<or> closes)"

locale served_stream =
  fixes E :: "'d env" and st :: stream and l :: u32
    and closes :: bool  \<comment> \<open>the device closes the stream after its last chunk\<close>
    and todo :: "'d \<Rightarrow> bytes list"  \<comment> \<open>the chunks it still sends\<close>
    and delay :: "'d \<Rightarrow> session \<Rightarrow> nat"  \<comment> \<open>a bound on the rounds until it acts\<close>
  assumes cut: "0 < max_chunk st"
    and answers: "\<exists>es d'. E d s = Some (es, d') \<and> list_all (alien (state_ix st) l) es"
    and serves: "E d s = Some (es, d') \<Longrightarrow> served (state_ix st) l closes (todo d) s \<Longrightarrow>
        served (state_ix st) l closes (todo d') (happens es s)
      \<and> data_q (stream_of (happens es s) (state_ix st)) @ todo d' = data_q (stream_of s (state_ix st)) @ todo d"
    and acknowledges: "E d s = Some (es, d') \<Longrightarrow> served (state_ix st) l closes (todo d) s \<Longrightarrow>
        owed (state_ix st) l s \<Longrightarrow> \<not> closed (stream_of s (state_ix st)) \<Longrightarrow>
        \<not> owed (state_ix st) l (happens es s) \<or> delay d' (happens es s) < delay d s"
    and delivers: "E d s = Some (es, d') \<Longrightarrow> served (state_ix st) l closes (todo d) s \<Longrightarrow>
        starved (state_ix st) closes (todo d) s \<Longrightarrow>
        data_q (stream_of (happens es s) (state_ix st)) \<noteq> [] \<or> closed (stream_of (happens es s) (state_ix st))
        \<or> delay d' (happens es s) < delay d s"
begin

abbreviation i :: nat where "i \<equiv> state_ix st"

abbreviation live :: "'d world \<Rightarrow> bool" where
  "live w \<equiv> served i l closes (todo (sched w)) (sess w)"

text \<open>The chunks still to be received, and the \<open>WRTE\<close>s of the owner.\<close>

abbreviation coming :: "'d world \<Rightarrow> bytes list" where
  "coming w \<equiv> data_q (stream_of (sess w) i) @ todo (sched w)"

abbreviation wrote :: "'d world \<Rightarrow> bytes list" where
  "wrote w \<equiv> own_writes l (history (sess w))"

lemma alone: "leaves_alone E i l"
  unfolding leaves_alone_def using answers by (metis option.inject prod.inject)

text \<open>One round of the other tasks.\<close>

lemma round:
  assumes "live w"
  obtains es d w' where "E (sched w) (sess w) = Some (es, d)" and "w' = \<lparr>sess = happens es (sess w), sched = d\<rparr>"
    and "live w'" and "coming w' = coming w" and "wrote w' = wrote w"
    and "acked i (history (sess w)) \<le> acked i (history (sess w'))" and "alerts i (sess w) (sess w')"
    and "closed (stream_of (sess w) i) \<longrightarrow> closed (stream_of (sess w') i)"
proof -
  obtain es d where E: "E (sched w) (sess w) = Some (es, d)" and al: "list_all (alien i l) es"
    using answers by blast
  have len: "i < length (states (reg (sess w)))" using assms by (simp add: served_def)
  from env_progress [OF alone len E] obtain h where h: "progress i l (sess w) (happens es (sess w)) h" by blast
  have "alerts i (sess w) (happens es (sess w))" by (rule alerts_happens [OF al len])
  moreover have "own_writes l (history (happens es (sess w))) = wrote w"
    using h progress_silent [OF h] by (simp add: progress_def effect_simps)
  ultimately show thesis
    using serves [OF E assms] by (intro that [OF E refl]) (simp_all add: alerts_def)
qed

lemma pause_live:
  assumes "live w"
  obtains w' where "pause E w = Some (Inr (), w')" and "live w'" and "coming w' = coming w" and "wrote w' = wrote w"
    and "acked i (history (sess w)) \<le> acked i (history (sess w'))"
    and "closed (stream_of (sess w) i) \<longrightarrow> closed (stream_of (sess w') i)"
proof -
  from round [OF assms] obtain es d w' where
    "E (sched w) (sess w) = Some (es, d)" "w' = \<lparr>sess = happens es (sess w), sched = d\<rparr>" "live w'"
    "coming w' = coming w" "wrote w' = wrote w" "acked i (history (sess w)) \<le> acked i (history (sess w'))"
    "closed (stream_of (sess w) i) \<longrightarrow> closed (stream_of (sess w') i)" by metis
  then show thesis by (intro that [of w']) (simp_all add: pause_def)
qed

text \<open>Receiving: the call returns, with the next chunk or, after the last one, the end.\<close>

lemma recv_ready:
  assumes "live w" and "data_q (stream_of (sess w) i) \<noteq> [] \<or> closed (stream_of (sess w) i)"
  shows "\<exists>x w'. recv_data E i w = Some (Inr x, w') \<and> live w' \<and> wrote w' = wrote w
     \<and> acked i (history (sess w)) \<le> acked i (history (sess w'))
     \<and> (case x of None \<Rightarrow> coming w = [] \<and> coming w' = [] | Some c \<Rightarrow> coming w = c # coming w')"
proof (cases "data_q (stream_of (sess w) i)")
  case Nil
  with assms have "take_chunk i (sess w) = (Ready None, sess w)" and "todo (sched w) = []"
    by (auto simp: take_chunk_def take_data_def served_def)
  with Nil assms(1) show ?thesis by (simp add: recv_data.simps [of E i w])
next
  case (Cons c cs)
  let ?st = "(stream_of (sess w) i)\<lparr>data_q := cs\<rparr>"
  let ?s = "note_effect (Taken i c) (update_stream i (\<lambda>_. ?st) (sess w))"
  have "take_chunk i (sess w) = (Ready (Some c), ?s)"
    using Cons by (simp add: take_chunk_def take_data_def)
  moreover have "served i l closes (todo (sched w)) ?s"
    using assms(1) by (auto simp: served_def effect_simps get_def)
  moreover have "i < length (states (reg (sess w)))" using assms(1) by (simp add: served_def)
  ultimately show ?thesis using Cons
    by (simp add: recv_data.simps [of E i w] effect_simps)
qed

lemma recv_data_live:
  "live w \<Longrightarrow> coming w \<noteq> [] \<or> closes \<Longrightarrow>
   \<exists>x w'. recv_data E i w = Some (Inr x, w') \<and> live w' \<and> wrote w' = wrote w
     \<and> acked i (history (sess w)) \<le> acked i (history (sess w'))
     \<and> (case x of None \<Rightarrow> coming w = [] \<and> coming w' = [] | Some c \<Rightarrow> coming w = c # coming w')"
proof (induction "delay (sched w) (sess w)" arbitrary: w rule: less_induct)
  case less
  show ?case
  proof (cases "data_q (stream_of (sess w) i) \<noteq> [] \<or> closed (stream_of (sess w) i)")
    case True
    then show ?thesis by (rule recv_ready [OF less.prems(1)])
  next
    case False
    from round [OF less.prems(1)] obtain es d w1 where
      E: "E (sched w) (sess w) = Some (es, d)" and w1: "w1 = \<lparr>sess = happens es (sess w), sched = d\<rparr>"
      and live1: "live w1" and same: "coming w1 = coming w" "wrote w1 = wrote w"
        "acked i (history (sess w)) \<le> acked i (history (sess w1))" by metis
    have "take_chunk i (sess w) = (Pending, sess w)"
      using False less.prems(1) by (simp add: take_chunk_def take_data_def served_def)
    then have eq: "recv_data E i w = recv_data E i w1"
      by (simp add: recv_data.simps [of E i w] E w1)
    have "starved i closes (todo (sched w)) (sess w)"
      using False less.prems(2) by (auto simp: starved_def)
    from delivers [OF E less.prems(1) this] consider
      "data_q (stream_of (sess w1) i) \<noteq> [] \<or> closed (stream_of (sess w1) i)"
      | "delay (sched w1) (sess w1) < delay (sched w) (sess w)" by (auto simp: w1)
    then have "\<exists>x w'. recv_data E i w1 = Some (Inr x, w') \<and> live w' \<and> wrote w' = wrote w1
     \<and> acked i (history (sess w1)) \<le> acked i (history (sess w'))
     \<and> (case x of None \<Rightarrow> coming w1 = [] \<and> coming w' = [] | Some c \<Rightarrow> coming w1 = c # coming w')"
    proof cases
      case 1
      then show ?thesis by (rule recv_ready [OF live1])
    next
      case 2
      then show ?thesis by (rule less.hyps [OF _ live1]) (use same(1) less.prems(2) in simp)
    qed
    then show ?thesis using le_trans [OF same(3)] by (simp only: eq same(1,2)) blast
  qed
qed

text \<open>A message of the owner that is not a \<open>WRTE\<close>.\<close>

lemma post_live:
  assumes "live w" and "m_arg0 m = l" and "m_command m = Okay"
  shows "\<exists>w'. post_message m w = Some (Inr (), w') \<and> live w' \<and> coming w' = coming w \<and> wrote w' = wrote w
     \<and> acked i (history (sess w')) = acked i (history (sess w))"
proof -
  let ?s = "snd (post m (sess w))"
  have "served i l closes (todo (sched w)) ?s"
    using assms by (auto simp: served_def effect_simps)
  moreover have "post_message m w = Some (Inr (), w\<lparr>sess := ?s\<rparr>)"
    using assms(1) by (simp add: post_message_def split_beta served_def)
  ultimately show ?thesis using assms by (simp add: effect_simps)
qed

lemma ids_live:
  assumes "live w"
  shows "\<exists>r w'. ids E i w = Some (r, w') \<and> live w' \<and> coming w' = coming w \<and> wrote w' = wrote w
     \<and> acked i (history (sess w)) \<le> acked i (history (sess w'))
     \<and> (if closed (stream_of (sess w) i) then r = Inl StreamClosed else \<exists>b. r = Inr (l, b))"
proof (cases "closed (stream_of (sess w) i)")
  case True
  with assms show ?thesis by (simp add: ids_closed)
next
  case False
  from pause_live [OF assms] obtain w1 where w1: "pause E w = Some (Inr (), w1)" "live w1" "coming w1 = coming w"
    "wrote w1 = wrote w" "acked i (history (sess w)) \<le> acked i (history (sess w1))" by metis
  have "remote (stream_of (sess w1) i) = Some (remote_id (stream_of (sess w1) i))" "local_id (stream_of (sess w1) i) = l"
    using w1(2) by (simp_all add: served_def remote_def)
  with False w1 show ?thesis by (simp add: ids_def look_def and_then_ok)
qed

lemma stream_recv_live:
  assumes "live w" and "coming w \<noteq> [] \<or> closes"
  shows "\<exists>x w'. stream_recv E st w = Some (Inr x, w') \<and> live w' \<and> wrote w' = wrote w
     \<and> acked i (history (sess w)) \<le> acked i (history (sess w'))
     \<and> (case x of None \<Rightarrow> coming w = [] \<and> coming w' = [] | Some c \<Rightarrow> coming w = c # coming w')"
proof -
  from recv_data_live [OF assms] obtain x w1 where
    w1: "recv_data E i w = Some (Inr x, w1)" "live w1" "wrote w1 = wrote w"
      "acked i (history (sess w)) \<le> acked i (history (sess w1))"
    and x: "case x of None \<Rightarrow> coming w = [] \<and> coming w1 = [] | Some c \<Rightarrow> coming w = c # coming w1" by blast
  show ?thesis
  proof (cases x)
    case None
    have "stream_recv E st w = Some (Inr None, w1)" using w1(1) None by (simp add: stream_recv_def and_then_ok Let_def)
    with w1 x None show ?thesis by (intro exI [of _ None] exI [of _ w1]) simp
  next
    case (Some c)
    from pause_live [OF w1(2)] obtain w2 where w2: "pause E w1 = Some (Inr (), w2)" "live w2" "coming w2 = coming w1"
      "wrote w2 = wrote w1" "acked i (history (sess w1)) \<le> acked i (history (sess w2))" by metis
    from ids_live [OF w2(2)] obtain r w3 where w3: "ids E i w2 = Some (r, w3)" "live w3" "coming w3 = coming w2"
      "wrote w3 = wrote w2" "acked i (history (sess w2)) \<le> acked i (history (sess w3))"
      and r: "if closed (stream_of (sess w2) i) then r = Inl StreamClosed else \<exists>b. r = Inr (l, b)" by blast
    let ?k = "\<lambda>r. case r of
        Inr (l, rid) \<Rightarrow> and_then (post_message (empty_message Okay l rid)) (\<lambda>_. ret (Some c))
      | Inl _ \<Rightarrow> ret (Some c)"
    have run: "stream_recv E st w = ?k r w3"
      using w1(1) w2(1) w3(1) Some by (simp add: stream_recv_def and_then_ok handle_run Let_def)
    have "\<exists>w'. ?k r w3 = Some (Inr (Some c), w') \<and> live w' \<and> coming w' = coming w3 \<and> wrote w' = wrote w3
       \<and> acked i (history (sess w3)) \<le> acked i (history (sess w'))"
    proof (cases r)
      case (Inl e)
      with w3(2) show ?thesis by simp
    next
      case (Inr p)
      with r obtain b where "r = Inr (l, b)" by (auto split: if_splits)
      then show ?thesis
        using post_live [OF w3(2), of "empty_message Okay l b"] by (auto simp: and_then_ok)
    qed
    then obtain w' where w': "?k r w3 = Some (Inr (Some c), w')" "live w'" "coming w' = coming w3" "wrote w' = wrote w3"
      "acked i (history (sess w3)) \<le> acked i (history (sess w'))" by blast
    have "acked i (history (sess w)) \<le> acked i (history (sess w'))"
      using w1(4) w2(5) w3(5) w'(5) by linarith
    with w' w1(3) w2(3,4) w3(3,4) x Some run show ?thesis
      by (intro exI [of _ "Some c"] exI [of _ w']) simp
  qed
qed

text \<open>
  Sending to a device that keeps the stream open: one acknowledgement is due, \<open>notified\<close> returns when
  it is there, and \<open>wait_ack\<close> answers after at most one stale permit.
\<close>

lemma still_open: "live w \<Longrightarrow> \<not> closes \<Longrightarrow> \<not> closed (stream_of (sess w) i)"
  by (auto simp: served_def)

lemma permit_live:
  assumes "live w" and "wake (stream_of (sess w) i)"
  shows "\<exists>w'. notified E i w = Some (Inr (), w') \<and> live w' \<and> coming w' = coming w \<and> wrote w' = wrote w
     \<and> acked i (history (sess w')) = acked i (history (sess w)) \<and> \<not> wake (stream_of (sess w') i)"
proof -
  let ?s = "update_stream i (\<lambda>st. snd (take_permit st)) (sess w)"
  have len: "i < length (states (reg (sess w)))" using assms(1) by (simp add: served_def)
  then have "served i l closes (todo (sched w)) ?s"
    using assms(1) by (auto simp: served_def state_simps get_def)
  with assms(2) len show ?thesis by (simp add: notified.simps [of E i w] state_simps)
qed

lemma notified_live:
  "live w \<Longrightarrow> \<not> closes \<Longrightarrow> acked i (history (sess w)) = length (wrote w) \<Longrightarrow> \<not> wake (stream_of (sess w) i) \<Longrightarrow>
   \<exists>w'. notified E i w = Some (Inr (), w') \<and> live w' \<and> coming w' = coming w \<and> wrote w' = wrote w
     \<and> acked i (history (sess w')) = Suc (length (wrote w))"
proof (induction "delay (sched w) (sess w)" arbitrary: w rule: less_induct)
  case less
  from round [OF less.prems(1)] obtain es d w1 where
    E: "E (sched w) (sess w) = Some (es, d)" and w1: "w1 = \<lparr>sess = happens es (sess w), sched = d\<rparr>"
    and live1: "live w1" and same: "coming w1 = coming w" "wrote w1 = wrote w"
    and more_acks: "acked i (history (sess w)) \<le> acked i (history (sess w1))"
    and alert: "alerts i (sess w) (sess w1)" by metis
  have eq: "notified E i w = notified E i w1"
    using less.prems(4) by (simp add: notified.simps [of E i w] E w1)
  have upto: "acked i (history (sess w1)) \<le> Suc (length (wrote w))"
    using live1 same(2) by (simp add: served_def)
  show ?case
  proof (cases "wake (stream_of (sess w1) i)")
    case True
    with alert less.prems(4) still_open [OF live1 less.prems(2)] less.prems(3) upto
    have "acked i (history (sess w1)) = Suc (length (wrote w))" by (auto simp: alerts_def)
    with permit_live [OF live1 True] same show ?thesis by (simp only: eq) auto
  next
    case False
    with alert less.prems(3) more_acks have acks1: "acked i (history (sess w1)) = length (wrote w1)"
      by (auto simp: alerts_def same(2))
    have "owed i l (sess w)" "owed i l (happens es (sess w))"
      using less.prems(3) acks1 by (simp_all add: owed_def w1)
    with acknowledges [OF E less.prems(1)] still_open [OF less.prems(1,2)]
    have "delay (sched w1) (sess w1) < delay (sched w) (sess w)" by (auto simp: w1)
    from less.hyps [OF this live1 less.prems(2) acks1 False] show ?thesis by (simp only: eq same)
  qed
qed

lemma wait_ack_live:
  assumes "live w" and "\<not> closes" and "length (wrote w) \<le> acked i (history (sess w))"
    and "Suc (length (wrote w)) < 2 ^ 64"
  shows "\<exists>w'. wait_ack E i (word_of_nat (length (wrote w))) w = Some (Inr True, w') \<and> live w' \<and> coming w' = coming w
     \<and> wrote w' = wrote w \<and> acked i (history (sess w')) = Suc (length (wrote w))"
proof -
  let ?n = "length (wrote w)"
  have poll: "poll_ack (word_of_nat ?n) (stream_of (sess v) i) =
      (if acked i (history (sess v)) = ?n then None else Some True)"
    if "live v" "acked i (history (sess v)) = ?n \<or> acked i (history (sess v)) = Suc ?n" for v
  proof -
    have "(word_of_nat ?n :: u64) < word_of_nat (Suc ?n)"
      using assms(4) by (simp add: word_less_nat_alt unsigned_of_nat take_bit_nat_eq_self del: of_nat_Suc)
    with that still_open [OF that(1) assms(2)] show ?thesis
      by (auto simp: poll_ack_def served_def simp del: of_nat_Suc)
  qed
  have ready: "wait_ack E i (word_of_nat ?n) v = Some (Inr True, v)"
    if "live v" "acked i (history (sess v)) = Suc ?n" for v
    using poll [OF that(1)] that(2) by (simp add: wait_ack.simps [of E i _ v])
  have asleep: "\<exists>w'. wait_ack E i (word_of_nat ?n) v = Some (Inr True, w') \<and> live w' \<and> coming w' = coming v
     \<and> wrote w' = wrote v \<and> acked i (history (sess w')) = Suc ?n"
    if v: "live v" "acked i (history (sess v)) = ?n" "wrote v = wrote w" "\<not> wake (stream_of (sess v) i)" for v
  proof -
    from notified_live [OF v(1) assms(2)] v(2-4) obtain w' where w': "notified E i v = Some (Inr (), w')" "live w'"
      "coming w' = coming v" "wrote w' = wrote v" "acked i (history (sess w')) = Suc ?n" by auto
    with poll [OF v(1)] v(2) ready [OF w'(2,5)] show ?thesis by (simp add: wait_ack.simps [of E i _ v])
  qed
  have upto: "acked i (history (sess w)) \<le> Suc ?n" using assms(1) by (simp add: served_def)
  consider "acked i (history (sess w)) = Suc ?n" | "acked i (history (sess w)) = ?n" "wake (stream_of (sess w) i)"
    | "acked i (history (sess w)) = ?n" "\<not> wake (stream_of (sess w) i)" using upto assms(3) by linarith
  then show ?thesis
  proof cases
    case 1
    with ready assms(1) show ?thesis by blast
  next
    case 2
    from permit_live [OF assms(1) 2(2)] obtain v where v: "notified E i w = Some (Inr (), v)" "live v" "coming v = coming w"
      "wrote v = wrote w" "acked i (history (sess v)) = ?n" "\<not> wake (stream_of (sess v) i)" using 2(1) by auto
    have "wait_ack E i (word_of_nat ?n) w = wait_ack E i (word_of_nat ?n) v"
      using poll [OF assms(1)] 2(1) v(1) by (simp add: wait_ack.simps [of E i _ w])
    with asleep [OF v(2,5,4,6)] v(3,4) show ?thesis by simp
  next
    case 3
    with asleep [OF assms(1)] show ?thesis by blast
  qed
qed

text \<open>Between the owner's operations no acknowledgement is due.\<close>

abbreviation settled :: "'d world \<Rightarrow> bool" where
  "settled w \<equiv> live w \<and> acked i (history (sess w)) = Suc (length (wrote w))"

lemma settled_later:
  "settled w \<Longrightarrow> live w' \<Longrightarrow> wrote w' = wrote w \<Longrightarrow>
     acked i (history (sess w)) \<le> acked i (history (sess w')) \<Longrightarrow> settled w'"
  by (simp add: served_def)

lemma post_write_live:
  assumes "live w" and "m_arg0 m = l" and "m_command m = Write"
  shows "\<exists>w'. post_message m w = Some (Inr (), w') \<and> live w' \<and> coming w' = coming w
     \<and> wrote w' = wrote w @ [payload m] \<and> acked i (history (sess w')) = acked i (history (sess w))"
proof -
  let ?s = "snd (post m (sess w))"
  have wa: "writer_alive (sess w)" using assms(1) by (simp add: served_def)
  have "served i l closes (todo (sched w)) ?s"
    using assms by (auto simp: served_def effect_simps)
  moreover have "post_message m w = Some (Inr (), w\<lparr>sess := ?s\<rparr>)"
    using wa by (simp add: post_message_def split_beta)
  ultimately show ?thesis using assms wa by (simp add: effect_simps)
qed

lemma write_chunk_live:
  assumes "settled w" and "\<not> closes" and "Suc (Suc (length (wrote w))) < 2 ^ 64"
  shows "\<exists>w'. write_chunk E i chunk w = Some (Inr (), w') \<and> settled w' \<and> coming w' = coming w
     \<and> wrote w' = wrote w @ [chunk]"
proof -
  have lw: "live w" using assms(1) by simp
  from ids_live [OF lw] still_open [OF lw assms(2)] obtain b w1 where
    w1: "ids E i w = Some (Inr (l, b), w1)" "live w1" "coming w1 = coming w" "wrote w1 = wrote w"
      "acked i (history (sess w)) \<le> acked i (history (sess w1))" by auto
  note s1 = settled_later [OF assms(1) w1(2,4,5)]
  from pause_live [OF w1(2)] obtain w2 where w2: "pause E w1 = Some (Inr (), w2)" "live w2" "coming w2 = coming w1"
    "wrote w2 = wrote w1" "acked i (history (sess w1)) \<le> acked i (history (sess w2))" by metis
  note s2 = settled_later [OF s1 w2(2,4,5)]
  have seen: "acks (stream_of (sess w2) i) = word_of_nat (Suc (length (wrote w)))"
    using s2 w1(4) w2(4) by (simp add: served_def)
  from pause_live [OF w2(2)] obtain w3 where w3: "pause E w2 = Some (Inr (), w3)" "live w3" "coming w3 = coming w2"
    "wrote w3 = wrote w2" "acked i (history (sess w2)) \<le> acked i (history (sess w3))" by metis
  note s3 = settled_later [OF s2 w3(2,4,5)]
  let ?m = "new_message Write l b chunk"
  from post_write_live [OF w3(2), of ?m] obtain w4 where
    w4: "post_message ?m w3 = Some (Inr (), w4)" "live w4" "coming w4 = coming w3" "wrote w4 = wrote w3 @ [chunk]"
      "acked i (history (sess w4)) = acked i (history (sess w3))" by auto
  from pause_live [OF w4(2)] obtain w5 where w5: "pause E w4 = Some (Inr (), w5)" "live w5" "coming w5 = coming w4"
    "wrote w5 = wrote w4" "acked i (history (sess w4)) \<le> acked i (history (sess w5))" by metis
  have len: "length (wrote w5) = Suc (length (wrote w))" using w5(4) w4(4) w3(4) w2(4) w1(4) by simp
  have "length (wrote w5) \<le> acked i (history (sess w5))"
    using w5(5) w4(5) s3 w3(4) w2(4) w1(4) len by simp
  from wait_ack_live [OF w5(2) assms(2) this] assms(3) len obtain w6 where
    w6: "wait_ack E i (word_of_nat (Suc (length (wrote w)))) w5 = Some (Inr True, w6)" "live w6"
      "coming w6 = coming w5" "wrote w6 = wrote w5" "acked i (history (sess w6)) = Suc (length (wrote w5))"
    by (auto simp del: of_nat_Suc)
  have "write_chunk E i chunk w = Some (Inr (), w6)"
    using w1(1) w2(1) w3(1) w4(1) w5(1) w6(1) seen
    by (simp add: write_chunk_def and_then_ok look_def del: of_nat_Suc)
  with w6 w5 w4 w3 w2 w1 show ?thesis by simp
qed

lemma send_rest_live:
  "settled w \<Longrightarrow> \<not> closes \<Longrightarrow> Suc (length (wrote w)) + length data < 2 ^ 64 \<Longrightarrow>
   \<exists>w'. send_rest E i (max_chunk st) data w = Some (Inr (), w') \<and> settled w' \<and> coming w' = coming w
     \<and> concat (wrote w') = concat (wrote w) @ data \<and> length (wrote w') \<le> length (wrote w) + length data"
proof (induction "length data" arbitrary: data w rule: less_induct)
  case less
  let ?k = "max_chunk st"
  show ?case
  proof (cases "data = []")
    case True
    with less.prems show ?thesis by (simp add: send_rest.simps [of E i _ "[]"])
  next
    case False
    then have "0 < length data" by simp
    then have "Suc (Suc (length (wrote w))) < 2 ^ 64" using less.prems(3) by linarith
    from write_chunk_live [OF less.prems(1,2) this, of "take ?k data"] obtain w1 where
      w1: "write_chunk E i (take ?k data) w = Some (Inr (), w1)" "settled w1" "coming w1 = coming w"
        "wrote w1 = wrote w @ [take ?k data]" by blast
    have shorter: "length (drop ?k data) < length data" using cut False by simp
    have "Suc (length (wrote w1)) + length (drop ?k data) < 2 ^ 64"
      using less.prems(3) w1(4) shorter by simp
    from less.hyps [OF shorter w1(2) less.prems(2) this] obtain w' where
      w': "send_rest E i ?k (drop ?k data) w1 = Some (Inr (), w')" "settled w'" "coming w' = coming w1"
        "concat (wrote w') = concat (wrote w1) @ drop ?k data"
        "length (wrote w') \<le> length (wrote w1) + length (drop ?k data)" by blast
    have "send_rest E i ?k data w = Some (Inr (), w')"
      using False w1(1) w'(1) by (simp add: send_rest.simps [of E i _ data] and_then_ok)
    moreover have "length (wrote w') \<le> length (wrote w) + length data"
      using w'(5) w1(4) shorter by simp
    ultimately show ?thesis using w'(2-4) w1(3,4) by simp
  qed
qed

text \<open>Closing returns whatever the other side does, and sends no data.\<close>

lemma pause_any:
  assumes "i < length (states (reg (sess w)))"
  obtains w' where "pause E w = Some (Inr (), w')" and "i < length (states (reg (sess w')))" and "wrote w' = wrote w"
proof -
  obtain es d where E: "E (sched w) (sess w) = Some (es, d)" using answers by blast
  from env_progress [OF alone assms E] obtain h where h: "progress i l (sess w) (happens es (sess w)) h" by blast
  have "own_writes l (history (happens es (sess w))) = wrote w"
    using h progress_silent [OF h] by (simp add: progress_def effect_simps)
  with progress_len [OF h assms] E show thesis
    by (intro that [of "\<lparr>sess = happens es (sess w), sched = d\<rparr>"]) (simp_all add: pause_def)
qed

lemma close_quiet:
  assumes "i < length (states (reg (sess w)))"
  shows "\<exists>w'. stream_close E st w = Some (Inr (), w') \<and> wrote w' = wrote w"
proof (cases "closed (stream_of (sess w) i)")
  case True
  then show ?thesis by (simp add: stream_close_def close_now_closed)
next
  case False
  from pause_any [OF assms] obtain w1 where w1: "pause E w = Some (Inr (), w1)"
    "i < length (states (reg (sess w1)))" "wrote w1 = wrote w" by metis
  from pause_any [OF w1(2)] obtain w2 where w2: "pause E w1 = Some (Inr (), w2)"
    "i < length (states (reg (sess w2)))" "wrote w2 = wrote w1" by metis
  let ?w3 = "w2\<lparr>sess := update_stream i mark_closed (sess w2)\<rparr>"
  have "i < length (states (reg (sess ?w3)))" using w2(2) by simp
  from pause_any [OF this] obtain w4 where w4: "pause E ?w3 = Some (Inr (), w4)"
    "i < length (states (reg (sess w4)))" "wrote w4 = wrote ?w3" by metis
  define a where "a = local_id (stream_of (sess w1) i)"
  let ?w5 = "w4\<lparr>sess := remove_stream a (sess w4)\<rparr>"
  have "i < length (states (reg (sess ?w5)))" "wrote ?w5 = wrote w4"
    using w4(2) by (simp_all add: remove_stream_def remove_def)
  with pause_any [of ?w5] obtain w6 where w6: "pause E ?w5 = Some (Inr (), w6)" "wrote w6 = wrote w4" by metis
  let ?m = "empty_message Close a (case remote (stream_of (sess w1) i) of None \<Rightarrow> 0 | Some r \<Rightarrow> r)"
  have "stream_close E st w = Some (Inr (), w6\<lparr>sess := snd (post ?m (sess w6))\<rparr>)"
    using False w1(1) w2(1) w4(1) w6(1)
    by (simp add: stream_close_def close_now_def and_then_ok look_def modify_def atomic_def a_def [symmetric] Let_def
        handle_run post_message_def split_beta)
  moreover have "own_writes l (history (snd (post ?m (sess w6)))) = wrote w6"
    by (simp add: effect_simps)
  ultimately show ?thesis using w6(2) w4(3) w2(3) w1(3) by simp
qed

end

text \<open>The laws of a channel.\<close>

sublocale served_stream \<subseteq> channel "stream_ops E" st "\<lambda>w. concat (coming w)" "\<lambda>w. length (coming w)" closes
  "\<lambda>w. concat (wrote w)" "\<lambda>w n. \<not> closes \<and> Suc (length (wrote w)) + n < 2 ^ 64" settled
proof
  fix w
  assume w: "settled w" and more_data: "concat (coming w) \<noteq> [] \<or> closes"
  from more_data have "coming w \<noteq> [] \<or> closes" by auto
  with stream_recv_live [of w] w obtain x w' where x: "stream_recv E st w = Some (Inr x, w')" "live w'"
    "wrote w' = wrote w" "acked i (history (sess w)) \<le> acked i (history (sess w'))"
    "case x of None \<Rightarrow> coming w = [] \<and> coming w' = [] | Some c \<Rightarrow> coming w = c # coming w'" by blast
  from settled_later [OF w x(2-4)] have "settled w'" .
  with x show "\<exists>r w'. ch_recv (stream_ops E) st w = Some (Inr r, w') \<and> settled w' \<and> concat (wrote w') = concat (wrote w)
      \<and> (case r of None \<Rightarrow> concat (coming w) = [] \<and> concat (coming w') = []
         | Some c \<Rightarrow> concat (coming w) = c @ concat (coming w') \<and> length (coming w') < length (coming w)
             \<and> (\<lambda>n. \<not> closes \<and> Suc (length (wrote w')) + n < 2 ^ 64) = (\<lambda>n. \<not> closes \<and> Suc (length (wrote w)) + n < 2 ^ 64))"
    by (intro exI [of _ x] exI [of _ w']) (cases x; simp add: stream_ops_def)
next
  fix w and bs :: bytes and n
  assume w: "settled w" and room: "\<not> closes \<and> Suc (length (wrote w)) + (length bs + n) < 2 ^ 64"
  from send_rest_live [OF w, of bs] room obtain w' where w': "stream_send E st bs w = Some (Inr (), w')" "settled w'"
    "coming w' = coming w" "concat (wrote w') = concat (wrote w) @ bs" "length (wrote w') \<le> length (wrote w) + length bs"
    by (auto simp: stream_send_def)
  have rest: "Suc (length (wrote w')) + n < 2 ^ 64" using w'(5) room by linarith
  have same: "concat (coming w') = concat (coming w)" by (simp only: w'(3))
  show "\<exists>w'. ch_send (stream_ops E) st bs w = Some (Inr (), w') \<and> settled w'
      \<and> (\<not> closes \<and> Suc (length (wrote w')) + n < 2 ^ 64) \<and> concat (wrote w') = concat (wrote w) @ bs
      \<and> concat (coming w') = concat (coming w)"
    using room rest same w'(1,2,4) by (auto simp: stream_ops_def)
next
  fix w
  assume "settled w"
  then have "i < length (states (reg (sess w)))" by (simp add: served_def)
  from close_quiet [OF this] show "\<exists>w'. ch_close (stream_ops E) st w = Some (Inr (), w') \<and> concat (wrote w') = concat (wrote w)"
    by (auto simp: stream_ops_def)
qed simp_all

text \<open>The services on a stream that was opened.\<close>

context served_stream
begin

lemma direct_ready:
  assumes "served i l closes (todo (sched w)) (sess w)" and "\<not> owed i l (sess w)"
  shows "settled w"
  using assms by (simp add: served_def owed_def)

lemma pull_over:
  assumes "\<not> closes" and "device_sync (session_connection E) s = Some (Inr (st, F), s1)"
    and "settled (dv_world s1)" and "length (wrote (dv_world s1)) < 2 ^ 63"
    and "concat (coming (dv_world s1)) = concat (map data_frame pieces) @ sync_word DONE_ID t @ rest"
    and "\<forall>d \<in> set pieces. length d \<le> DATA_MAX" and "length path < 2 ^ 32"
  shows "\<exists>s'. pull_bytes (session_connection E) path s = Some (Inr (concat pieces), s')
     \<and> concat (wrote (dv_world s')) = concat (wrote (dv_world s1)) @ pull_request F path"
proof -
  have "length (pull_request F path) \<le> length path + 24"
    by (simp add: pull_request_def request_bytes_def sync_word_def sized_def sync_ids)
  then have room: "\<not> closes \<and> Suc (length (wrote (dv_world s1))) + length (pull_request F path) < 2 ^ 64"
    using assms(1,4,7) by simp
  have "cn_channel (session_connection E) = stream_ops E" by (simp add: session_connection_def)
  from pull_bytes_run [OF this assms(2,3) room assms(7,5,6) does_next_done] show ?thesis by simp
qed

lemma exec_over:
  assumes closes and "open_stream E (''exec:'' @ cmd) w = Some (Inr st, w1)" and "CHR 0x00 \<notin> set cmd"
    and "settled w1"
  shows "\<exists>w'. exec (session_connection E) cmd w = Some (Inr (concat (coming w1)), w')"
proof -
  from drain_all [OF assms(1,4)] obtain w' where "drain (stream_ops E) st w1 = Some (Inr (concat (coming w1)), w')" by blast
  with assms(2,3) show ?thesis
    by (simp add: exec_def check_command_def open_and_drain_def session_connection_def and_then_ok)
qed

end

subsection \<open>Opening a stream\<close>

text \<open>
  A stream that was registered and not yet answered. The locale \<open>opened_stream\<close> adds to the contract
  that the device leaves it alone until the \<open>OPEN\<close> is posted, and then, after a bounded number of
  rounds, acknowledges it; it may send chunks, and even close, in the same round. Under it
  \<open>open_stream\<close> returns a served stream.
\<close>

definition waiting :: "nat \<Rightarrow> u32 \<Rightarrow> session \<Rightarrow> bool" where
  "waiting i l s \<longleftrightarrow> i < length (states (reg s)) \<and> stream_of s i = new_state l \<and> get l (reg s) = Some i
     \<and> reader_alive s \<and> writer_alive s \<and> acked i (history s) = 0 \<and> own_writes l (history s) = []"

lemma waiting_registered:
  assumes "register_stream s = (i, s')" and "l = fst (fresh_id (next_id (reg s)))"
    and "reader_alive s" and "writer_alive s" and "acked i (history s) = 0" and "own_posts l (history s) = []"
  shows "waiting i l s'" and "own_posts l (history s') = []" and "agreed s' = agreed s"
  using register_stream_sel [OF assms(1)] assms(2-6) no_own_posts [OF assms(6)] by (simp_all add: waiting_def)

locale opened_stream = served_stream +
  assumes patient: "E d s = Some (es, d') \<Longrightarrow> waiting (state_ix st) l s \<Longrightarrow> own_posts l (history s) = [] \<Longrightarrow>
        waiting (state_ix st) l (happens es s) \<and> todo d' = todo d"
    and accepts: "E d s = Some (es, d') \<Longrightarrow> waiting (state_ix st) l s \<Longrightarrow> own_posts l (history s) \<noteq> [] \<Longrightarrow>
        waiting (state_ix st) l (happens es s) \<and> todo d' = todo d \<and> delay d' (happens es s) < delay d s
      \<or> served (state_ix st) l closes (todo d') (happens es s) \<and> \<not> owed (state_ix st) l (happens es s)
        \<and> data_q (stream_of (happens es s) (state_ix st)) @ todo d' = todo d"
begin

text \<open>Asked and not yet answered; and answered, with the chunks \<open>cs\<close> to come.\<close>

abbreviation asked :: "'a world \<Rightarrow> bool" where
  "asked w \<equiv> waiting i l (sess w) \<and> own_posts l (history (sess w)) \<noteq> []"

abbreviation given :: "bytes list \<Rightarrow> 'a world \<Rightarrow> bool" where
  "given cs w \<equiv> live w \<and> \<not> owed i l (sess w) \<and> coming w = cs \<and> wrote w = []"

lemma asked_round:
  assumes "asked w"
  obtains es d w' where "E (sched w) (sess w) = Some (es, d)" and "w' = \<lparr>sess = happens es (sess w), sched = d\<rparr>"
    and "agreed (sess w') = agreed (sess w)"
    and "asked w' \<and> todo (sched w') = todo (sched w) \<and> delay (sched w') (sess w') < delay (sched w) (sess w)
      \<or> given (todo (sched w)) w' \<and> wake (stream_of (sess w') i)"
proof -
  obtain es d where E: "E (sched w) (sess w) = Some (es, d)" and al: "list_all (alien i l) es" using answers by blast
  let ?w = "\<lparr>sess = happens es (sess w), sched = d\<rparr>"
  have len: "i < length (states (reg (sess w)))" using assms by (simp add: waiting_def)
  from env_progress [OF alone len E] obtain h where h: "progress i l (sess w) (sess ?w) h" by auto
  have same: "own_posts l (history (sess ?w)) = own_posts l (history (sess w))" "agreed (sess ?w) = agreed (sess w)"
    using h by (simp_all add: progress_def effect_simps)
  have "wrote ?w = wrote w" using h progress_silent [OF h] by (simp add: progress_def effect_simps)
  then have quiet: "wrote ?w = []" using assms by (simp add: waiting_def)
  have "alerts i (sess w) (sess ?w)" using alerts_happens [OF al len] by simp
  then have "wake (stream_of (sess ?w) i)" if "\<not> owed i l (sess ?w)"
    using that assms by (auto simp: alerts_def owed_def waiting_def)
  with accepts [OF E] assms same quiet show thesis by (intro that [OF E refl]) auto
qed

lemma given_later:
  assumes "given cs w" and "live w'" and "coming w' = coming w" and "wrote w' = wrote w"
    and "acked i (history (sess w)) \<le> acked i (history (sess w'))"
  shows "given cs w'"
  using assms by (auto simp: owed_def)

lemma given_ready:
  assumes "given cs w"
  shows "wait_ack E i 0 w = Some (Inr True, w)"
proof -
  have "acked i (history (sess w)) \<le> Suc (length (wrote w))" "length (wrote w) < acked i (history (sess w))"
    using assms unfolding served_def owed_def by linarith+
  moreover have "wrote w = []" using assms by simp
  ultimately have "acked i (history (sess w)) = 1" by simp
  then have "acks (stream_of (sess w) i) = 1" using assms by (simp add: served_def)
  then show ?thesis by (simp add: wait_ack.simps [of E i 0 w] poll_ack_def)
qed

text \<open>The answer comes: the wake-up returns when it is there.\<close>

lemma notified_asked:
  "asked w \<Longrightarrow> \<exists>w'. notified E i w = Some (Inr (), w') \<and> given (todo (sched w)) w' \<and> agreed (sess w') = agreed (sess w)"
proof (induction "delay (sched w) (sess w)" arbitrary: w rule: less_induct)
  case less
  from asked_round [OF less.prems] obtain es d w1 where
    E: "E (sched w) (sess w) = Some (es, d)" "w1 = \<lparr>sess = happens es (sess w), sched = d\<rparr>"
    and ag: "agreed (sess w1) = agreed (sess w)"
    and w1: "asked w1 \<and> todo (sched w1) = todo (sched w) \<and> delay (sched w1) (sess w1) < delay (sched w) (sess w)
      \<or> given (todo (sched w)) w1 \<and> wake (stream_of (sess w1) i)" by metis
  have eq: "notified E i w = notified E i w1"
    using less.prems E by (simp add: notified.simps [of E i w] waiting_def state_simps)
  from w1 show ?case
  proof
    assume "asked w1 \<and> todo (sched w1) = todo (sched w) \<and> delay (sched w1) (sess w1) < delay (sched w) (sess w)"
    with less.hyps [of w1] ag show ?thesis by (simp add: eq)
  next
    assume g: "given (todo (sched w)) w1 \<and> wake (stream_of (sess w1) i)"
    let ?w = "w1\<lparr>sess := update_stream i (\<lambda>st. snd (take_permit st)) (sess w1)\<rparr>"
    from g permit_live [of w1] obtain w' where
      w': "notified E i w1 = Some (Inr (), w')" "live w'" "coming w' = coming w1" "wrote w' = wrote w1"
        "acked i (history (sess w')) = acked i (history (sess w1))" by blast
    have "w' = ?w" using w'(1) g by (simp add: notified.simps [of E i w1])
    then have "agreed (sess w') = agreed (sess w)" using ag by simp
    moreover have "given (todo (sched w)) w'" using given_later [where cs = "todo (sched w)" and w = w1 and w' = w'] g w'(2-5) by simp
    ultimately show ?thesis using w'(1) eq by auto
  qed
qed

lemma wait_ack_asked:
  assumes "asked w \<and> todo (sched w) = cs \<or> given cs w"
  shows "\<exists>w'. wait_ack E i 0 w = Some (Inr True, w') \<and> given cs w' \<and> agreed (sess w') = agreed (sess w)"
  using assms
proof
  assume a: "asked w \<and> todo (sched w) = cs"
  then obtain w' where w': "notified E i w = Some (Inr (), w')" "given cs w'" "agreed (sess w') = agreed (sess w)"
    using notified_asked [of w] by auto
  have "poll_ack 0 (stream_of (sess w) i) = None" using a by (simp add: waiting_def poll_ack_def state_simps)
  with w'(1) given_ready [OF w'(2)] have "wait_ack E i 0 w = Some (Inr True, w')" by (simp add: wait_ack.simps [of E i 0 w])
  with w' show ?thesis by blast
qed (use given_ready in blast)

lemma opens_served:
  assumes "i = length (states (reg (sess w)))" and "l = fst (fresh_id (next_id (reg (sess w))))"
    and "reader_alive (sess w)" and "writer_alive (sess w)"
    and "acked i (history (sess w)) = 0" and "own_posts l (history (sess w)) = []"
    and "max_chunk st = unat (n_max_payload (agreed (sess w)))" and "CHR 0x00 \<notin> set svc"
  shows "\<exists>w'. open_stream E svc w = Some (Inr st, w') \<and> given (todo (sched w)) w'"
proof -
  obtain s1 where reg: "register_stream (sess w) = (i, s1)"
    using register_stream_sel(1) [of "sess w"] assms(1) by (cases "register_stream (sess w)") auto
  note w1 = waiting_registered [OF reg assms(2-6)]
  obtain es d where E: "E (sched w) s1 = Some (es, d)" using answers by blast
  let ?w2 = "\<lparr>sess = happens es s1, sched = d\<rparr>"
  have len: "i < length (states (reg s1))" using w1(1) by (simp add: waiting_def)
  from env_progress [OF alone len E] obtain h where h: "progress i l s1 (sess ?w2) h" by auto
  have ag2: "agreed (sess ?w2) = agreed (sess w)" "own_posts l (history (sess ?w2)) = []"
    using h w1 by (simp_all add: progress_def effect_simps)
  have w2: "waiting i l (sess ?w2)" "todo (sched ?w2) = todo (sched w)" using patient [OF E w1(1,2)] by simp_all
  let ?m = "open_request l svc"
  let ?w3 = "?w2\<lparr>sess := snd (post ?m (sess ?w2))\<rparr>"
  have w3: "asked ?w3" using w2(1) by (auto simp: waiting_def effect_simps open_request_def get_def)
  from asked_round [OF w3] obtain es3 d3 w4 where
    E3: "E (sched ?w3) (sess ?w3) = Some (es3, d3)" "w4 = \<lparr>sess = happens es3 (sess ?w3), sched = d3\<rparr>"
    and ag4: "agreed (sess w4) = agreed (sess ?w3)"
    and w4: "asked w4 \<and> todo (sched w4) = todo (sched ?w3) \<and> delay (sched w4) (sess w4) < delay (sched ?w3) (sess ?w3)
      \<or> given (todo (sched ?w3)) w4 \<and> wake (stream_of (sess w4) i)" by metis
  have "asked w4 \<and> todo (sched w4) = todo (sched w) \<or> given (todo (sched w)) w4" using w4 w2(2) by auto
  from wait_ack_asked [OF this] obtain w5 where
    w5: "wait_ack E i 0 w4 = Some (Inr True, w5)" "given (todo (sched w)) w5" "agreed (sess w5) = agreed (sess w4)" by blast
  from w5(2) have live5: "live w5" by simp
  from round [OF live5] obtain es5 d5 w6 where
    E5: "E (sched w5) (sess w5) = Some (es5, d5)" and e6: "w6 = \<lparr>sess = happens es5 (sess w5), sched = d5\<rparr>"
    and w6: "live w6" "coming w6 = coming w5" "wrote w6 = wrote w5" "acked i (history (sess w5)) \<le> acked i (history (sess w6))"
    by metis
  note given6 = given_later [OF w5(2) w6]
  have "i < length (states (reg (sess w5)))" using live5 by (simp add: served_def)
  from env_progress [OF alone this E5] have "agreed (sess w6) = agreed (sess w)"
    using w5(3) ag4 ag2 by (auto simp: progress_def e6)
  then have st: "new_stream i (sess w6) = st" using assms(7) by simp
  obtain b where "remote (stream_of (sess w6) i) = Some b" using w6(1) by (simp add: served_def remote_def)
  moreover have "pause E (w\<lparr>sess := s1\<rparr>) = Some (Inr (), ?w2)" "pause E ?w3 = Some (Inr (), w4)"
    "pause E w5 = Some (Inr (), w6)" using E E3 E5 e6 by (simp_all add: pause_def)
  moreover have "local_id (stream_of (sess ?w2) i) = l" "writer_alive (sess ?w2)"
    using w2(1) by (simp_all add: waiting_def state_simps)
  ultimately have "open_stream E svc w = Some (Inr st, w6)"
    using assms(8) reg w5(1) st
    by (simp add: open_stream_eq await_open_def and_then_def atomic_def look_def handle_def post_message_def split_beta
        del: new_stream_def)
  with given6 show ?thesis by blast
qed

end

text \<open>A whole \<open>exec\<close> on a fresh session, and the first stream of one.\<close>

context opened_stream
begin

lemma exec_fresh:
  assumes closes and "st = \<lparr>state_ix = 0, max_chunk = unat (n_max_payload n)\<rparr>" and "l = 1" and "CHR 0x00 \<notin> set cmd"
  shows "\<exists>w'. exec (session_connection E) cmd \<lparr>sess = session_start n, sched = d\<rparr> = Some (Inr (concat (todo d)), w')"
proof -
  let ?w = "\<lparr>sess = session_start n, sched = d\<rparr>"
  have "\<exists>w'. open_stream E (''exec:'' @ cmd) ?w = Some (Inr st, w') \<and> given (todo (sched ?w)) w'"
    by (rule opens_served) (use assms in \<open>simp_all add: session_start_def new_registry_def fresh_id_def\<close>)
  then obtain w1 where w1: "open_stream E (''exec:'' @ cmd) ?w = Some (Inr st, w1)" "given (todo d) w1" by auto
  have "settled w1" using w1(2) direct_ready [of w1] by simp
  from exec_over [OF assms(1) w1(1) assms(4) this] w1(2) show ?thesis by simp
qed

end

subsection \<open>A device that keeps the contract\<close>

text \<open>
  Each time it is asked it does one thing: acknowledge what is due, or send its next chunk, or, when
  there is none, close the stream if it is to be closed.
\<close>

definition device_env :: "nat \<Rightarrow> u32 \<Rightarrow> u32 \<Rightarrow> bool \<Rightarrow> bytes list env" where
  "device_env i l r closes d s = Some
     (if own_posts l (history s) = [] \<or> closed (stream_of s i) then ([], d)
      else if owed i l s then ([Received (Inr (empty_message Okay r l))], d)
      else case d of
             c # cs \<Rightarrow> ([Received (Inr (new_message Write r l c))], cs)
           | [] \<Rightarrow> (if closes then [Received (Inr (empty_message Close r l))] else [], []))"

definition device_delay :: "nat \<Rightarrow> u32 \<Rightarrow> bytes list \<Rightarrow> session \<Rightarrow> nat" where
  "device_delay i l d s = Suc (length (own_writes l (history s))) - acked i (history s)"

lemma device_env_okay:
  assumes "served i l closes d s" and "owed i l s" and "\<not> closed (stream_of s i)"
    and "s' = happens [Received (Inr (empty_message Okay r l))] s"
  shows "served i l closes d s'" and "data_q (stream_of s' i) = data_q (stream_of s i)"
    and "device_delay i l d' s' < device_delay i l d s"
  using assms
  by (auto simp: served_def owed_def device_delay_def read_step_def dispatch_def state_simps effect_simps get_def)

lemma device_env_write:
  assumes "served i l closes (c # cs) s" and "\<not> closed (stream_of s i)"
    and "s' = happens [Received (Inr (new_message Write r l c))] s"
  shows "served i l closes cs s'" and "data_q (stream_of s' i) = data_q (stream_of s i) @ [c]"
  using assms
  by (auto simp: served_def read_step_def dispatch_def deliver_def effect_simps get_def)

lemma device_env_close:
  assumes "served i l True [] s" and "\<not> closed (stream_of s i)"
    and "s' = happens [Received (Inr (empty_message Close r l))] s"
  shows "served i l True [] s'" and "data_q (stream_of s' i) = data_q (stream_of s i)" and "closed (stream_of s' i)"
proof -
  have r: "reader_alive s" "map_of (streams (reg s)) l = Some i" "i < length (states (reg s))"
    using assms(1,2) by (auto simp: served_def get_def)
  have s': "s' = update_stream i mark_closed (s\<lparr>reg := snd (remove l (reg s))\<rparr>)"
    using r assms(3) by (simp add: read_step_def dispatch_def remove_def)
  have st: "stream_of s' i = mark_closed (stream_of s i)" and "history s' = history s" "writer_alive s' = writer_alive s"
    "length (states (reg s')) = length (states (reg s))"
    using r(3) by (simp_all add: s' remove_def stream_of_def state_at_def)
  with assms(1) show "served i l True [] s'" by (simp add: served_def state_simps)
  show "data_q (stream_of s' i) = data_q (stream_of s i)" "closed (stream_of s' i)" by (simp_all add: st state_simps)
qed

lemma device_env_serves:
  assumes "0 < max_chunk st"
  shows "served_stream (device_env (state_ix st) l r closes) st l closes (\<lambda>d. d) (device_delay (state_ix st) l)"
proof
  let ?i = "state_ix st"
  show "0 < max_chunk st" by (rule assms)
  show "\<exists>es d'. device_env ?i l r closes d s = Some (es, d') \<and> list_all (alien ?i l) es" for d s
    by (auto simp: device_env_def split: list.splits)
  have act: "served ?i l closes d' (happens es s)
      \<and> data_q (stream_of (happens es s) ?i) @ d' = data_q (stream_of s ?i) @ d
      \<and> (owed ?i l s \<and> \<not> closed (stream_of s ?i) \<longrightarrow> device_delay ?i l d' (happens es s) < device_delay ?i l d s)
      \<and> (starved ?i closes d s \<longrightarrow> data_q (stream_of (happens es s) ?i) \<noteq> [] \<or> closed (stream_of (happens es s) ?i)
          \<or> device_delay ?i l d' (happens es s) < device_delay ?i l d s)"
    if E: "device_env ?i l r closes d s = Some (es, d')" and sv: "served ?i l closes d s" for d s es d'
  proof (cases "closed (stream_of s ?i)")
    case True
    with E sv show ?thesis by (simp add: device_env_def starved_def)
  next
    case False
    have ready: "own_posts l (history s) \<noteq> []" using sv by (simp add: served_def)
    show ?thesis
    proof (cases "owed ?i l s")
      case True
      with E False ready have "es = [Received (Inr (empty_message Okay r l))]" "d' = d"
        by (simp_all add: device_env_def)
      with device_env_okay(1,2) [OF sv True False refl, where r = r]
        device_env_okay(3) [OF sv True False refl, where r = r and d' = d] show ?thesis by simp
    next
      case not_owed: False
      show ?thesis
      proof (cases d)
        case (Cons c cs)
        with E False ready not_owed have "es = [Received (Inr (new_message Write r l c))]" "d' = cs"
          by (simp_all add: device_env_def)
        with device_env_write [OF sv [unfolded Cons] False refl, of r] Cons not_owed show ?thesis by simp
      next
        case Nil
        show ?thesis
        proof (cases closes)
          case True
          with E False ready not_owed Nil have "es = [Received (Inr (empty_message Close r l))]" "d' = []"
            by (simp_all add: device_env_def)
          moreover have "served ?i l True [] s" using sv True Nil by simp
          ultimately show ?thesis using device_env_close [OF _ False refl, of l r] True Nil not_owed by simp
        qed (use E False ready not_owed Nil sv in \<open>simp add: device_env_def starved_def\<close>)
      qed
    qed
  qed
  show "served ?i l closes d' (happens es s)
      \<and> data_q (stream_of (happens es s) ?i) @ d' = data_q (stream_of s ?i) @ d"
    if "device_env ?i l r closes d s = Some (es, d')" "served ?i l closes d s" for d s es d'
    using act [OF that] by blast
  show "\<not> owed ?i l (happens es s) \<or> device_delay ?i l d' (happens es s) < device_delay ?i l d s"
    if "device_env ?i l r closes d s = Some (es, d')" "served ?i l closes d s" "owed ?i l s"
      "\<not> closed (stream_of s ?i)" for d s es d'
    using act [OF that(1,2)] that(3,4) by blast
  show "data_q (stream_of (happens es s) ?i) \<noteq> [] \<or> closed (stream_of (happens es s) ?i)
        \<or> device_delay ?i l d' (happens es s) < device_delay ?i l d s"
    if "device_env ?i l r closes d s = Some (es, d')" "served ?i l closes d s" "starved ?i closes d s" for d s es d'
    using act [OF that(1,2)] that(3) by blast
qed

text \<open>It waits for the \<open>OPEN\<close>, and acknowledges it at once.\<close>

lemma device_env_accepts:
  assumes "0 < max_chunk st" and "r \<noteq> 0"
  shows "opened_stream (device_env (state_ix st) l r closes) st l closes (\<lambda>d. d) (device_delay (state_ix st) l)"
proof (intro opened_stream.intro opened_stream_axioms.intro device_env_serves [OF assms(1)])
  fix d s es d'
  assume E: "device_env (state_ix st) l r closes d s = Some (es, d')" and w: "waiting (state_ix st) l s"
  show "waiting (state_ix st) l (happens es s) \<and> d' = d" if "own_posts l (history s) = []"
    using E w that by (auto simp: device_env_def)
  show "waiting (state_ix st) l (happens es s) \<and> d' = d
        \<and> device_delay (state_ix st) l d' (happens es s) < device_delay (state_ix st) l d s
      \<or> served (state_ix st) l closes d' (happens es s) \<and> \<not> owed (state_ix st) l (happens es s)
        \<and> data_q (stream_of (happens es s) (state_ix st)) @ d' = d" if "own_posts l (history s) \<noteq> []"
  proof -
    have "owed (state_ix st) l s" "\<not> closed (stream_of s (state_ix st))"
      using w by (simp_all add: waiting_def owed_def state_simps)
    with E that have "es = [Received (Inr (empty_message Okay r l))]" "d' = d" by (simp_all add: device_env_def)
    with w that assms(2) show ?thesis
      by (auto simp: waiting_def served_def owed_def read_step_def dispatch_def state_simps effect_simps get_def)
  qed
qed

definition first_stream :: stream where
  "first_stream = \<lparr>state_ix = 0, max_chunk = 4096\<rparr>"

interpretation kept_open: served_stream "device_env 0 1 7 False" first_stream 1 False "\<lambda>d. d" "device_delay 0 1"
  using device_env_serves [of first_stream 1 7 False] by (simp add: first_stream_def)

interpretation run_out: served_stream "device_env 0 1 7 True" first_stream 1 True "\<lambda>d. d" "device_delay 0 1"
  using device_env_serves [of first_stream 1 7 True] by (simp add: first_stream_def)

interpretation run_opened: opened_stream "device_env 0 1 7 True" first_stream 1 True "\<lambda>d. d" "device_delay 0 1"
  using device_env_accepts [of first_stream 7 1 True] by (simp add: first_stream_def)

text \<open>Opening the first stream of a session with that device, which has two chunks to send.\<close>

definition opened :: "bytes \<Rightarrow> bytes \<Rightarrow> str \<Rightarrow> bytes list world" where
  "opened a b svc =
     \<lparr>sess = \<lparr>reg = \<lparr>streams = [(1, 0)], next_id = 2, states = [\<lparr>local_id = 1, remote_id = 7, closed = False, acks = 1,
         wake = True, data_tx = True, data_q = [a], rx_alive = True\<rparr>]\<rparr>,
       outbox = [new_message Open 1 0 (as_bytes svc @ [0])], writer_alive = True, reader_alive = True, on_wire = [],
       agreed = sample_agreed,
       history = [Posted (new_message Open 1 0 (as_bytes svc @ [0])), Acked 0, Delivered 0 a]\<rparr>,
      sched = [b]\<rparr>"

lemma device_env_opens:
  assumes "CHR 0x00 \<notin> set svc"
  shows "open_stream (device_env 0 1 7 closes) svc \<lparr>sess = session_start sample_agreed, sched = [a, b]\<rparr>
     = Some (Inr first_stream, opened a b svc)"
  using assms
  by (simp add: open_stream_def wait_ack_ready atomic_def stream_eval sample_agreed_def session_start_def
      device_env_def owed_def opened_def first_stream_def del: list.map map_append)

lemma opened_served: "served 0 1 closes [b] (sess (opened a b svc))"
  and opened_settled: "\<not> owed 0 1 (sess (opened a b svc))"
  by (simp_all add: served_def owed_def opened_def get_def stream_of_def state_at_def)

subsection \<open>Properties\<close>

text \<open>
  C16: a pull over a direct session returns: whatever the interleaving of the reader, the writer
  and other streams with the caller, when the device acknowledges its \<open>WRTE\<close>s and sends the file in
  pieces cut anywhere, it is sent exactly the request, and the caller gets exactly the file.
\<close>

theorem direct_pull:
  assumes "served_stream E st l False todo delay"
    and "device_sync (session_connection E) s = Some (Inr (st, F), s1)"
    and "served (state_ix st) l False (todo (sched (dv_world s1))) (sess (dv_world s1))"
    and "\<not> owed (state_ix st) l (sess (dv_world s1))"
    and "length (own_writes l (history (sess (dv_world s1)))) < 2 ^ 63"
    and "concat (data_q (stream_of (sess (dv_world s1)) (state_ix st)) @ todo (sched (dv_world s1)))
         = concat (map data_frame pieces) @ sync_word DONE_ID t @ rest"
    and "\<forall>d \<in> set pieces. length d \<le> DATA_MAX" and "length path < 2 ^ 32"
  shows "\<exists>s'. pull_bytes (session_connection E) path s = Some (Inr (concat pieces), s')
     \<and> concat (own_writes l (history (sess (dv_world s'))))
        = concat (own_writes l (history (sess (dv_world s1)))) @ pull_request F path"
  using served_stream.pull_over [OF assms(1) _ assms(2) served_stream.direct_ready [OF assms(1,3,4)] assms(5-8)] by simp

definition fresh_device :: "bytes \<Rightarrow> bytes \<Rightarrow> bytes list world device" where
  "fresh_device a b =
     \<lparr>dv_world = \<lparr>sess = session_start sample_agreed, sched = [a, b]\<rparr>, dv_features = Some [''sendrecv_v2'']\<rparr>"

lemma fresh_device_sync:
  "device_sync (session_connection (device_env 0 1 7 closes)) (fresh_device a b)
     = Some (Inr (first_stream, from_features [''sendrecv_v2'']),
         \<lparr>dv_world = opened a b ''sync:'', dv_features = Some [''sendrecv_v2'']\<rparr>)"
  using device_env_opens [of "''sync:''" closes a b]
  by (simp add: device_sync_def device_features_def fresh_device_def and_then_ok on_conn_run session_connection_def)

theorem direct_pull_witness:
  "\<exists>s'. pull_bytes (session_connection (device_env 0 1 7 False)) ''/f''
       (fresh_device (data_frame [1, 2] @ [0x44]) (tl (data_frame [3]) @ sync_word DONE_ID 0))
     = Some (Inr (concat [[1, 2], [3]]), s')"
proof -
  let ?a = "data_frame [1, 2] @ [0x44]" and ?b = "tl (data_frame [3]) @ sync_word DONE_ID 0"
  have "byte_of CHR ''D'' = 0x44" by code_simp
  then have "concat (data_q (stream_of (sess (opened ?a ?b ''sync:'')) 0) @ [?b])
      = concat (map data_frame [[1, 2], [3]]) @ sync_word DONE_ID 0 @ []"
    by (simp add: opened_def stream_of_def state_at_def data_frame_def DATA_ID_def)
  then show ?thesis
    using direct_pull [OF kept_open.served_stream_axioms fresh_device_sync [of False ?a ?b], of "[[1, 2], [3]]" 0 "[]" "''/f''"]
      opened_served [of False ?b ?a "''sync:''"] opened_settled [of ?a ?b "''sync:''"]
    by (auto simp: first_stream_def opened_def DATA_MAX_def simp del: concat.simps)
qed

text \<open>
  A command run with \<open>exec:\<close> over a direct session gives back exactly what the device sends until
  it closes the stream, in order and complete, whatever the interleaving.
\<close>

lemma direct_exec:
  assumes "served_stream E st l True todo delay"
    and "open_stream E (''exec:'' @ cmd) w = Some (Inr st, w1)" and "CHR 0x00 \<notin> set cmd"
    and "served (state_ix st) l True (todo (sched w1)) (sess w1)" and "\<not> owed (state_ix st) l (sess w1)"
  shows "\<exists>w'. exec (session_connection E) cmd w
     = Some (Inr (concat (data_q (stream_of (sess w1) (state_ix st)) @ todo (sched w1))), w')"
  using served_stream.exec_over [OF assms(1) _ assms(2,3) served_stream.direct_ready [OF assms(1,4,5)]] by simp

end
