(* ===== verification/Cli.thy ===== *)
theory Cli
  imports Console Keyfile Endpoint Direct
begin

section \<open>The command line program\<close>

text \<open>
  \<open>src/bin/rsadb/main.rs\<close>, \<open>cli.rs\<close>, \<open>connect.rs\<close> and the rest of \<open>commands.rs\<close>: from parsed options to an
  exit code. What the process runs on is the record \<open>machine\<close>: the environment, files, keys, sockets
  and USB, each with the calls the code makes. A run keeps two states, that of the connections to the
  adb server and that of everything else. The session tasks of a direct connection take the
  transport with them; \<open>ln_tasks\<close> is the schedule they start with. Parsing the arguments is clap's.

  The lemmas follow a whole run: what a command behind the adb server sends, what it prints and the
  exit code.
\<close>

subsection \<open>Options\<close>

record target =
  tg_serial :: "str option"
  tg_tcp :: "str option"
  tg_server :: bool

record cli =
  cl_target :: target
  cl_auth_wait :: u64
  cl_key :: "path option"
  cl_command :: cli_command

subsection \<open>The machine\<close>

text \<open>What a direct session needs of its transport: the timer, and how its tasks are scheduled.\<close>

record ('t, 'e) link =
  ln_timeout :: "'t timeout"
  ln_tasks :: "'t \<Rightarrow> 'e"

record ('o, 'n, 'r, 'w, 'i, 'd, 'f, 'a, 'b, 'e, 'sk, 'pk) machine =
  mc_terminal :: "'o terminal"
  mc_local :: "'o local_files"
  mc_var :: "str \<Rightarrow> str option"
  mc_var_os :: "str \<Rightarrow> path option"
  mc_path_text :: "path \<Rightarrow> str"
  mc_files :: "'o files"
  mc_crypto :: "('sk, 'pk) crypto"
  mc_new_key :: "nat \<Rightarrow> msg_text + 'sk"
  mc_dial :: "str \<times> nat \<Rightarrow> ('o, 'r \<times> 'w) io"
  mc_nodelay :: "'r \<times> 'w \<Rightarrow> ('o, unit) io"
  mc_tcp_link :: "(('r, 'w) stream_transport, 'e) link"
  mc_usb :: "('o, 'i, 'd, 'f, 'a, 'b) nusb"
  mc_bulk_in :: "'a bulk_in"
  mc_bulk_out :: "'b bulk_out"
  mc_usb_link :: "(('a, 'b) usb_transport, 'e) link"
  mc_env :: "'e env"
  mc_server :: "('n, 'r, 'w) network"
  mc_shutdown :: "('w, unit) io"

text \<open>A machine whose sockets are the streams a channel through the adb server is made of.\<close>

type_synonym ('o, 'r, 'w, 'i, 'd, 'f, 'a, 'b, 'e, 'sk, 'pk) host_machine =
  "('o, ('r, 'w) host_channel, 'r, 'w, 'i, 'd, 'f, 'a, 'b, 'e, 'sk, 'pk) machine"

subsection \<open>Connecting\<close>

definition cli_paths :: "('o, 'n, 'r, 'w, 'i, 'd, 'f, 'a, 'b, 'e, 'sk, 'pk) machine \<Rightarrow> cli \<Rightarrow> key_paths result" where
  "cli_paths M c = cli_key_paths (cl_key c) (mc_var_os M)"

definition load_key ::
  "('o, 'n, 'r, 'w, 'i, 'd, 'f, 'a, 'b, 'e, 'sk, 'pk) machine \<Rightarrow> cli \<Rightarrow> ('o, ('sk, 'pk) host_key) comp" where
  "load_key M c =
     and_then (of_result (cli_paths M c)) (\<lambda>paths.
     load_or_generate (mc_files M) (mc_crypto M) (mc_new_key M) paths (key_comment (mc_var M)))"

text \<open>\<open>Session::connect\<close> on a transport just opened, and the session with its tasks.\<close>

definition start_session ::
  "('sk, 'pk) crypto \<Rightarrow> ('t, 'e) link \<Rightarrow> 't transport_ops \<Rightarrow> ('sk, 'pk) host_key \<Rightarrow> nat \<Rightarrow> 't
     \<Rightarrow> ('o, 'e world) comp" where
  "start_session C K T key auth_wait t s =
     (case session_connect C key (ln_timeout K) auth_wait T t of
        None \<Rightarrow> None
      | Some (Inl e, _) \<Rightarrow> Some (Inl e, s)
      | Some (Inr session, t') \<Rightarrow> Some (Inr \<lparr>sess = session, sched = ln_tasks K t'\<rparr>, s))"

definition cli_tcp_session ::
  "('o, 'n, 'r, 'w, 'i, 'd, 'f, 'a, 'b, 'e, 'sk, 'pk) machine \<Rightarrow> cli \<Rightarrow> ('sk, 'pk) host_key \<Rightarrow> str \<times> nat
     \<Rightarrow> ('o, 'e world) comp" where
  "cli_tcp_session M c key addr =
     and_then (tcp_connect (mc_dial M addr) (mc_nodelay M)) (\<lambda>t.
     start_session (mc_crypto M) (mc_tcp_link M)
       (stream_transport_ops (nw_read (mc_server M)) (nw_write (mc_server M))) key (unat (cl_auth_wait c)) t)"

definition cli_usb_session ::
  "('o, 'n, 'r, 'w, 'i, 'd, 'f, 'a, 'b, 'e, 'sk, 'pk) machine \<Rightarrow> cli \<Rightarrow> ('sk, 'pk) host_key \<Rightarrow> ('o, 'e world) comp" where
  "cli_usb_session M c key =
     and_then (usb_find (nu_devices (mc_usb M)) (tg_serial (cl_target c))) (\<lambda>info.
     and_then (usb_open (mc_usb M) info) (\<lambda>t.
     start_session (mc_crypto M) (mc_usb_link M) (usb_transport_ops (mc_bulk_in M) (mc_bulk_out M)) key
       (unat (cl_auth_wait c)) t))"

text \<open>\<open>AnyDevice\<close>: a session's device, or the serial of one behind the server.\<close>

datatype 'e any_device = Direct_device "'e world device" | Server_device str

definition cli_connect ::
  "('o, 'n, 'r, 'w, 'i, 'd, 'f, 'a, 'b, 'e, 'sk, 'pk) machine \<Rightarrow> cli \<Rightarrow> ('n \<times> 'o, 'e any_device) comp" where
  "cli_connect M c =
     (let t = cl_target c in
      if tg_server t then
        and_then (case tg_serial t of Some s \<Rightarrow> ret s | None \<Rightarrow> on_client (only_device (mc_server M))) (\<lambda>sr.
        ret (Server_device sr))
      else
        and_then (on_source (load_key M c)) (\<lambda>key.
        and_then (case tg_tcp t of
            Some spec \<Rightarrow>
              and_then (of_result (parse_endpoint spec)) (\<lambda>addr.
              on_source (cli_tcp_session M c key addr))
          | None \<Rightarrow> on_source (cli_usb_session M c key)) (\<lambda>session.
        ret (Direct_device (new_device session)))))"

subsection \<open>Commands without a device\<close>

definition cli_devices ::
  "('o, 'n, 'r, 'w, 'i, 'd, 'f, 'a, 'b, 'e, 'sk, 'pk) machine \<Rightarrow> cli \<Rightarrow> ('n \<times> 'o, unit) comp" where
  "cli_devices M c =
     (if tg_server (cl_target c) then
        and_then (on_client (devices (mc_server M))) (\<lambda>ds.
        on_source (print_lines (mc_terminal M) (map server_line ds)))
      else
        and_then (on_source (usb_list (nu_devices (mc_usb M)))) (\<lambda>ds.
        and_then (if ds = [] then on_source (println (mc_terminal M) ''no ADB USB devices attached'') else ret ()) (\<lambda>_.
        on_source (print_lines (mc_terminal M) (map usb_line ds)))))"

definition cli_keygen ::
  "('o, 'n, 'r, 'w, 'i, 'd, 'f, 'a, 'b, 'e, 'sk, 'pk) machine \<Rightarrow> cli \<Rightarrow> ('o, unit) comp" where
  "cli_keygen M c =
     and_then (of_result (cli_paths M c)) (\<lambda>paths s.
       let existed = fl_exists (mc_files M) (kp_private paths) s in
       and_then (load_or_generate (mc_files M) (mc_crypto M) (mc_new_key M) paths (key_comment (mc_var M))) (\<lambda>key.
       and_then (eprintln (mc_terminal M)
           ((if existed then ''using'' else ''created'') @ '' '' @ mc_path_text M (kp_private paths))) (\<lambda>_.
       and_then (of_result (public_key_line (mc_crypto M) key)) (println (mc_terminal M)))) s)"

definition cli_connect_tcp ::
  "('o, 'n, 'r, 'w, 'i, 'd, 'f, 'a, 'b, 'e, 'sk, 'pk) machine \<Rightarrow> cli \<Rightarrow> str \<Rightarrow> ('o, unit) comp" where
  "cli_connect_tcp M c address =
     and_then (of_result (parse_endpoint address)) (\<lambda>(host, port).
     and_then (load_key M c) (\<lambda>key.
     and_then (cli_tcp_session M c key (host, port)) (\<lambda>w.
       let b = session_banner (sess w) in
       println (mc_terminal M) (''connected to '' @ host @ '':'' @ dec_of_nat port @ '': '' @ kind b @ '' '' @ to_wire b))))"

subsection \<open>A run\<close>

text \<open>A command on a device of its own; the device is dropped at the end, the states stay.\<close>

definition on_direct ::
  "'e world device \<Rightarrow> ('e world device \<times> 'o, unit) comp \<Rightarrow> ('n \<times> 'o, unit) comp" where
  "on_direct d m s =
     (case m (d, snd s) of None \<Rightarrow> None | Some (r, (_, os)) \<Rightarrow> Some (r, (fst s, os)))"

definition on_server :: "('n device \<times> 'o, unit) comp \<Rightarrow> ('n \<times> 'o, unit) comp" where
  "on_server m s =
     (case m (new_device (fst s), snd s) of None \<Rightarrow> None | Some (r, (d, os)) \<Rightarrow> Some (r, (dv_world d, os)))"

definition cli_run ::
  "('o, 'r, 'w, 'i, 'd, 'f, 'a, 'b, 'e, 'sk, 'pk) host_machine \<Rightarrow> cli \<Rightarrow> (('r, 'w) host_channel \<times> 'o, unit) comp" where
  "cli_run M c =
     (let T = mc_terminal M; L = mc_local M in
      case cl_command c of
        Devices \<Rightarrow> cli_devices M c
      | Keygen \<Rightarrow> on_source (cli_keygen M c)
      | Connect_to address \<Rightarrow> on_source (cli_connect_tcp M c address)
      | cmd \<Rightarrow>
          and_then (cli_connect M c) (\<lambda>dev.
            case dev of
              Direct_device d \<Rightarrow> on_direct d (on_device T L (session_connection (mc_env M)) cmd)
            | Server_device sr \<Rightarrow> on_server (on_device T L (host_device (mc_server M) (mc_shutdown M) sr) cmd)))"

definition cli_main ::
  "('o, 'r, 'w, 'i, 'd, 'f, 'a, 'b, 'e, 'sk, 'pk) host_machine \<Rightarrow> cli \<Rightarrow> ('r, 'w) host_channel \<times> 'o
     \<Rightarrow> (u8 \<times> (('r, 'w) host_channel \<times> 'o)) option" where
  "cli_main M c s =
     (case cli_run M c s of
        None \<Rightarrow> None
      | Some (Inr _, s') \<Rightarrow> Some (0, s')
      | Some (Inl e, s') \<Rightarrow>
          (case on_source (eprintln (mc_terminal M) (''rsadb: '' @ tm_render (mc_terminal M) (display e))) s' of
             None \<Rightarrow> None
           | Some (_, s'') \<Rightarrow> Some (error_exit_code e, s'')))"

subsection \<open>A command behind the server\<close>

lemma cli_connect_serial:
  "tg_server (cl_target c) \<Longrightarrow> tg_serial (cl_target c) = Some sr \<Longrightarrow> cli_connect M c s = Some (Inr (Server_device sr), s)"
  by (simp add: cli_connect_def Let_def)

lemma on_server_run:
  "m (new_device n, os) = Some (r, (d, os')) \<Longrightarrow> on_server m (n, os) = Some (r, (dv_world d, os'))"
  by (simp add: on_server_def)

text \<open>The end of \<open>main\<close>.\<close>

definition error_line :: "'o terminal \<Rightarrow> error \<Rightarrow> bytes" where
  "error_line T e = line_bytes (''rsadb: '' @ tm_render T (display e))"

lemma cli_main_run:
  assumes T: "takes_output (mc_terminal M) shown complained" and "cli_run M c s = Some (r, (n, os))"
  shows "\<exists>os'. cli_main M c s = Some (case r of Inl e \<Rightarrow> error_exit_code e | Inr _ \<Rightarrow> 0, (n, os')) \<and> shown os' = shown os
     \<and> complained os' = complained os @ (case r of Inl e \<Rightarrow> error_line (mc_terminal M) e | Inr _ \<Rightarrow> [])"
proof (cases r)
  case (Inl e)
  obtain os' where "eprintln (mc_terminal M) (''rsadb: '' @ tm_render (mc_terminal M) (display e)) os = Some (Inr (), os')"
    "shown os' = shown os" "complained os' = complained os @ error_line (mc_terminal M) e"
    using eprintln_run [OF T] by (auto simp: error_line_def)
  with assms(2) Inl show ?thesis by (simp add: cli_main_def on_source_run)
qed (use assms(2) in \<open>simp add: cli_main_def\<close>)

lemma exit_status_code [simp]: "error_exit_code (exit_status x) = 7"
  by (simp add: exit_status_def)

text \<open>A run on a device behind the server asks for the features on the first stream, and runs its service on another.\<close>

lemma server_features_run:
  assumes "reads_bytes (nw_read W) avail" and "writes_bytes (nw_write W) out"
    and "nw_connect W n = Some (Inr (r1, w1), n1)" and "nw_nodelay W (r1, w1) n1 = Some (Inr (), n2)"
    and "avail r1 = as_bytes ''OKAY'' @ host_block reply @ rest"
    and "length reply \<le> 0xFFFF" and "wf_str reply" and "length (''host-serial:'' @ sr @ '':features'') \<le> 0xFFFF"
  shows "\<exists>t. device_features (host_device W shutdown sr) (new_device n)
      = Some (Inr (split_features reply), \<lparr>dv_world = nw_dropped W t n2, dv_features = Some (split_features reply)\<rparr>)
     \<and> out (snd t) = out w1 @ host_block (''host-serial:'' @ sr @ '':features'')"
proof -
  obtain t where t: "query W (''host-serial:'' @ sr @ '':features'') n = Some (Inr reply, nw_dropped W t n2)"
    "out (snd t) = out w1 @ host_block (''host-serial:'' @ sr @ '':features'')"
    using query_run [OF assms(1-5) assms(8,6,7)] by blast
  then have "cn_features (host_device W shutdown sr) n = Some (Inr (split_features reply), nw_dropped W t n2)"
    by (simp add: host_device_def host_device_features_def and_then_ok)
  with t(2) show ?thesis by (intro exI [of _ t]) (simp add: device_features_def new_device_def on_conn_run)
qed

text \<open>
  A server that is asked twice: when the first stream is dropped, and it has carried exactly the bytes
  \<open>asked\<close>, the server accepts another, on which the device's side is \<open>bs\<close>; \<open>out\<close> goes on counting what
  the server receives.
\<close>

definition then_serves ::
  "('n, 'r, 'w) network \<Rightarrow> ('r \<Rightarrow> bytes) \<Rightarrow> ('w \<Rightarrow> bytes) \<Rightarrow> 'n \<Rightarrow> bytes \<Rightarrow> bytes \<Rightarrow> bool" where
  "then_serves W avail out n asked bs \<longleftrightarrow>
     (\<forall>t. out (snd t) = asked \<longrightarrow>
        (\<exists>r w n1 n2. nw_connect W (nw_dropped W t n) = Some (Inr (r, w), n1) \<and> nw_nodelay W (r, w) n1 = Some (Inr (), n2)
           \<and> avail r = bs \<and> out w = asked))"

lemma server_shell_run:
  assumes R: "reads_bytes (nw_read W) avail" and O: "writes_bytes (nw_write W) out" and S: "shuts_down shutdown out"
    and first: "nw_connect W n = Some (Inr (r1, w1), n1)" "nw_nodelay W (r1, w1) n1 = Some (Inr (), n2)"
      "avail r1 = as_bytes ''OKAY'' @ host_block reply @ rest"
    and reply: "length reply \<le> 0xFFFF" "wf_str reply" "SHELL_V2_FEATURE \<in> set (split_features reply)"
    and asked: "asked = out w1 @ host_block (''host-serial:'' @ sr @ '':features'')"
      "then_serves W avail out n2 asked (as_bytes ''OKAY'' @ as_bytes ''OKAY'' @ encode_all fs)"
    and small: "length (''host-serial:'' @ sr @ '':features'') \<le> 0xFFFF" "length (''shell,v2:'' @ cmd) \<le> 0xFFFF"
      "\<forall>fr \<in> set fs. length (fr_data fr) < 2 ^ 32"
    and nul: "CHR 0x00 \<notin> set cmd"
  shows "\<exists>d. device_shell (host_device W shutdown sr) cmd (new_device n)
       = Some (Inr \<lparr>stdout = data_of Stdout fs, stderr = data_of Stderr fs, exit_code = code_of fs\<rparr>, d)
     \<and> out (hc_out (dv_world d)) = asked @ host_block (transport_request sr) @ host_block (''shell,v2:'' @ cmd) @ stdin_frames []"
proof -
  let ?N = "host_device W shutdown sr"
  obtain t where cached: "device_features ?N (new_device n)
      = Some (Inr (split_features reply), \<lparr>dv_world = nw_dropped W t n2, dv_features = Some (split_features reply)\<rparr>)"
    and t: "out (snd t) = asked"
    using server_features_run [OF R O first reply(1,2) small(1)] asked(1) by blast
  then obtain r2 w2 n3 n4 where second: "nw_connect W (nw_dropped W t n2) = Some (Inr (r2, w2), n3)"
    "nw_nodelay W (r2, w2) n3 = Some (Inr (), n4)" "avail r2 = as_bytes ''OKAY'' @ as_bytes ''OKAY'' @ encode_all fs"
    and w2: "out w2 = asked"
    using asked(2) unfolding then_serves_def by blast
  have "length (transport_request sr) \<le> 0xFFFF" using small(1) by (simp add: transport_request_def)
  from host_open_run [OF R O second this small(2)] obtain c where
    c: "cn_open ?N (''shell,v2:'' @ cmd) (nw_dropped W t n2) = Some (Inr (), c)" "avail (hc_in c) = encode_all fs"
      "out (hc_out c) = asked @ host_block (transport_request sr) @ host_block (''shell,v2:'' @ cmd)"
    unfolding w2 by blast
  have "cn_channel ?N = host_channel_ops (nw_read W) (nw_write W) shutdown" by (simp add: host_device_def)
  from channel.shell_v2_run [OF host_channel_contract [OF R O S] TrueI this c(1) TrueI nul TrueI, of "[]"]
  obtain w' where w': "shell_v2 ?N cmd [] (nw_dropped W t n2)
        = Some (Inr \<lparr>stdout = data_of Stdout fs, stderr = data_of Stderr fs, exit_code = code_of fs\<rparr>, w')"
      "out (hc_out w') = out (hc_out c) @ stdin_frames []"
    by (auto simp: c(2) collected_def parse_encode_all [OF small(3)] apply_frames)
  then show ?thesis
    using c(3) reply(3) cached by (simp add: device_shell_def and_then_ok on_conn_run shell_def)
qed

text \<open>The client of the \<open>sync:\<close> service.\<close>

lemma server_sync_run:
  assumes R: "reads_bytes (nw_read W) avail" and O: "writes_bytes (nw_write W) out"
    and first: "nw_connect W n = Some (Inr (r1, w1), n1)" "nw_nodelay W (r1, w1) n1 = Some (Inr (), n2)"
      "avail r1 = as_bytes ''OKAY'' @ host_block reply @ rest"
    and reply: "length reply \<le> 0xFFFF" "wf_str reply"
    and asked: "asked = out w1 @ host_block (''host-serial:'' @ sr @ '':features'')"
      "then_serves W avail out n2 asked (as_bytes ''OKAY'' @ as_bytes ''OKAY'' @ bs)"
    and small: "length (''host-serial:'' @ sr @ '':features'') \<le> 0xFFFF"
  shows "\<exists>d. device_sync (host_device W shutdown sr) (new_device n) = Some (Inr ((), from_features (split_features reply)), d)
     \<and> avail (hc_in (dv_world d)) = bs
     \<and> out (hc_out (dv_world d)) = asked @ host_block (transport_request sr) @ host_block ''sync:''"
proof -
  let ?N = "host_device W shutdown sr"
  obtain t where cached: "device_features ?N (new_device n)
      = Some (Inr (split_features reply), \<lparr>dv_world = nw_dropped W t n2, dv_features = Some (split_features reply)\<rparr>)"
    and t: "out (snd t) = asked"
    using server_features_run [OF R O first reply small] asked(1) by blast
  then obtain r2 w2 n3 n4 where second: "nw_connect W (nw_dropped W t n2) = Some (Inr (r2, w2), n3)"
    "nw_nodelay W (r2, w2) n3 = Some (Inr (), n4)" "avail r2 = as_bytes ''OKAY'' @ as_bytes ''OKAY'' @ bs"
    and w2: "out w2 = asked"
    using asked(2) unfolding then_serves_def by blast
  have "length (transport_request sr) \<le> 0xFFFF" using small by (simp add: transport_request_def)
  moreover have "length ''sync:'' \<le> 0xFFFF" by simp
  ultimately obtain w where w: "cn_open ?N ''sync:'' (nw_dropped W t n2) = Some (Inr (), w)" "avail (hc_in w) = bs"
      "out (hc_out w) = out w2 @ host_block (transport_request sr) @ host_block ''sync:''"
    using host_open_run [OF R O second] by blast
  with cached w2 show ?thesis by (simp add: device_sync_def and_then_ok on_conn_run)
qed

subsection \<open>A direct session\<close>

lemma tcp_session_run:
  assumes over: "over_stream (mc_crypto M) key (ln_timeout (mc_tcp_link M)) (nw_read (mc_server M)) avail (nw_write (mc_server M)) out w"
    and sockets: "mc_dial M addr s = Some (Inr (r, w), s1)" "mc_nodelay M (r, w) s1 = Some (Inr (), s2)"
    and run: "hs_run (mc_crypto M) key hs_init (deframe_all INITIAL (avail r)) = Some (res, sent, rest)"
  shows "\<exists>t. cli_tcp_session M c key addr s = Some (case res of Inl e \<Rightarrow> Inl e
       | Inr terms \<Rightarrow> Inr \<lparr>sess = session_start terms, sched = ln_tasks (mc_tcp_link M) t\<rparr>, s2)"
proof -
  obtain t where t: "handshake (mc_crypto M) key (ln_timeout (mc_tcp_link M)) (unat (cl_auth_wait c))
      (stream_transport_ops (nw_read (mc_server M)) (nw_write (mc_server M))) (new_stream_transport r w) = Some (res, t)"
    using stream_handshake_run [OF over run] by blast
  have "tcp_connect (mc_dial M addr) (mc_nodelay M) s = Some (Inr (new_stream_transport r w), s2)"
    using sockets by (simp add: tcp_connect_def and_then_ok io_err_def)
  then show ?thesis
    using t by (cases res)
      (auto simp: cli_tcp_session_def and_then_ok and_then_err start_session_def session_connect_def)
qed

lemma cli_connect_over_tcp:
  assumes "\<not> tg_server (cl_target c)" and "tg_tcp (cl_target c) = Some spec" and "load_key M c os = Some (Inr key, os1)"
    and "parse_endpoint spec = Inr addr" and "cli_tcp_session M c key addr os1 = Some (Inr w, os2)"
  shows "cli_connect M c (n, os) = Some (Inr (Direct_device (new_device w)), (n, os2))"
proof -
  have "on_source (load_key M c) (n, os) = Some (Inr key, (n, os1))" using assms(3) by (rule on_source_run)
  moreover have "on_source (cli_tcp_session M c key addr) (n, os1) = Some (Inr w, (n, os2))"
    using assms(5) by (rule on_source_run)
  ultimately show ?thesis using assms(1,2,4) by (simp add: cli_connect_def Let_def and_then_ok)
qed

subsection \<open>Properties\<close>

text \<open>
  C11: a whole run of \<open>rsadb --server -s SERIAL shell \<dots>\<close>, from the parsed options to the exit code: the
  server is asked for the device's features and then for the service, with the words joined by
  spaces; standard output and standard error receive exactly what the remote command wrote, and the
  process exits with 0 when the command did, or reported nothing, and with 7 and one line on
  standard error otherwise.
\<close>

theorem cli_shell_over_server:
  assumes "takes_output (mc_terminal M) shown complained"
    and "reads_bytes (nw_read (mc_server M)) avail" and "writes_bytes (nw_write (mc_server M)) out"
    and "shuts_down (mc_shutdown M) out"
    and "cl_command c = Shell ws" and "tg_server (cl_target c)" and "tg_serial (cl_target c) = Some sr"
    and "nw_connect (mc_server M) n = Some (Inr (r1, w1), n1)"
    and "nw_nodelay (mc_server M) (r1, w1) n1 = Some (Inr (), n2)"
    and "avail r1 = as_bytes ''OKAY'' @ host_block reply @ rest"
    and "length reply \<le> 0xFFFF" and "wf_str reply" and "SHELL_V2_FEATURE \<in> set (split_features reply)"
    and "asked = out w1 @ host_block (''host-serial:'' @ sr @ '':features'')"
    and "then_serves (mc_server M) avail out n2 asked (as_bytes ''OKAY'' @ as_bytes ''OKAY'' @ encode_all fs)"
    and "length (''host-serial:'' @ sr @ '':features'') \<le> 0xFFFF" and "length (''shell,v2:'' @ join '' '' ws) \<le> 0xFFFF"
    and "\<forall>fr \<in> set fs. length (fr_data fr) < 2 ^ 32" and "CHR 0x00 \<notin> set (join '' '' ws)"
  shows "\<exists>n' os'. cli_main M c (n, os) = Some (if code_of fs = None \<or> code_of fs = Some 0 then 0 else 7, (n', os'))
     \<and> shown os' = shown os @ data_of Stdout fs
     \<and> complained os' = complained os @ data_of Stderr fs
          @ (case code_of fs of None \<Rightarrow> [] | Some x \<Rightarrow> if x = 0 then [] else error_line (mc_terminal M) (exit_status x))
     \<and> out (hc_out n') = out w1 @ host_block (''host-serial:'' @ sr @ '':features'')
          @ host_block (transport_request sr) @ host_block (''shell,v2:'' @ join '' '' ws) @ stdin_frames []"
proof -
  let ?N = "host_device (mc_server M) (mc_shutdown M) sr"
  obtain d where d: "device_shell ?N (join '' '' ws) (new_device n)
       = Some (Inr \<lparr>stdout = data_of Stdout fs, stderr = data_of Stderr fs, exit_code = code_of fs\<rparr>, d)"
     "out (hc_out (dv_world d)) = asked @ host_block (transport_request sr) @ host_block (''shell,v2:'' @ join '' '' ws) @ stdin_frames []"
    using server_shell_run [OF assms(2-4,8-19)] by blast
  obtain os1 where os1: "cli_shell (mc_terminal M) ?N (join '' '' ws) (new_device n, os) = Some (shell_status (code_of fs), (d, os1))"
    "shown os1 = shown os @ data_of Stdout fs" "complained os1 = complained os @ data_of Stderr fs"
    using cli_shell_run [OF assms(1) d(1), of os] by auto
  have "cli_run M c (n, os) = Some (shell_status (code_of fs), (dv_world d, os1))"
    using os1(1) assms(5) cli_connect_serial [OF assms(6,7), of M]
    by (simp add: cli_run_def Let_def and_then_ok on_server_run)
  from cli_main_run [OF assms(1) this] os1(2,3) d(2) assms(14) show ?thesis
    by (auto simp: shell_status_def split: option.splits)
qed

text \<open>
  A machine for the witnesses. Its adb server answers each connection with the next script of the
  state, its terminal keeps both outputs, its files are \<open>map_files\<close>, and it has no USB bus.
\<close>

type_synonym sample_os = "bytes \<times> bytes \<times> (path \<Rightarrow> bytes option)"

definition sample_terminal :: "sample_os terminal" where
  "sample_terminal =
     \<lparr>tm_stdout = (\<lambda>bs (a, b, m). Some (Inr (), (a @ bs, b, m))),
      tm_stderr = (\<lambda>bs (a, b, m). Some (Inr (), (a, b @ bs, m))),
      tm_render = (\<lambda>m. case m of Lit s \<Rightarrow> s | Fmt s args \<Rightarrow> s)\<rparr>"

lemma sample_terminal_ok: "takes_output sample_terminal fst (\<lambda>s. fst (snd s))"
  by (auto simp: takes_output_def sample_terminal_def)

definition on_files :: "((path \<Rightarrow> bytes option), 'a) io \<Rightarrow> (sample_os, 'a) io" where
  "on_files m s = (case m (snd (snd s)) of None \<Rightarrow> None | Some (r, f) \<Rightarrow> Some (r, (fst s, fst (snd s), f)))"

definition sample_files :: "sample_os files" where
  "sample_files =
     \<lparr>fl_exists = (\<lambda>p s. fl_exists map_files p (snd (snd s))),
      fl_read_to_string = (\<lambda>p. on_files (fl_read_to_string map_files p)),
      fl_create_dir_all = (\<lambda>p. on_files (fl_create_dir_all map_files p)),
      fl_open = (\<lambda>p m. on_files (fl_open map_files p m)),
      fl_write_all = (\<lambda>p bs. on_files (fl_write_all map_files p bs)),
      fl_write = (\<lambda>p bs. on_files (fl_write map_files p bs))\<rparr>"

definition no_such_file :: io_error where
  "no_such_file = Io_error (Other_kind 2) (Lit ''No such file or directory'')"

definition sample_local :: "sample_os local_files" where
  "sample_local =
     \<lparr>lf_create = (\<lambda>p s. if p = ''.'' then Some (Inl (Io_error (Other_kind 21) (Lit ''Is a directory'')), s) else Some (Inr (), s)),
      lf_out = \<lparr>aw_write_all = (\<lambda>bs s. Some (Inr (), s)), aw_flush = (\<lambda>s. Some (Inr (), s))\<rparr>,
      lf_metadata = (\<lambda>p s. Some (Inl no_such_file, s)), lf_open = (\<lambda>p s. Some (Inl no_such_file, s)),
      lf_in = \<lparr>ar_read = (\<lambda>n s. Some (Inr [], s)), ar_read_exact = (\<lambda>n s. Some (Inl no_such_file, s))\<rparr>,
      lf_write = (\<lambda>p bs s. Some (Inr (), s))\<rparr>"

definition sample_usb :: "(sample_os, nat, unit, unit, unit, unit) nusb" where
  "sample_usb =
     \<lparr>nu_devices = (\<lambda>s. Some (Inr [], s)), nu_open = (\<lambda>d s. Some (Inr (), s)), nu_claim = (\<lambda>d i s. Some (Inr (), s)),
      nu_descriptor = (\<lambda>f. None), nu_bulk_in = (\<lambda>f a s. Some (Inr (), s)), nu_bulk_out = (\<lambda>f a s. Some (Inr (), s))\<rparr>"

definition scripted_server :: "((bytes list, bytes) host_channel, bytes list, bytes) network" where
  "scripted_server =
     \<lparr>nw_read = chunk_reader, nw_write = byte_sink,
      nw_connect = (\<lambda>n. case hc_in n of
          [] \<Rightarrow> Some (Inl (Io_error (Other_kind 111) (Lit ''Connection refused'')), n)
        | bs # rest \<Rightarrow> Some (Inr ([bs], hc_out n), n\<lparr>hc_in := rest\<rparr>)),
      nw_nodelay = (\<lambda>_ n. Some (Inr (), n)), nw_addr = ''127.0.0.1:5037'',
      nw_dropped = (\<lambda>t n. n\<lparr>hc_out := snd t\<rparr>)\<rparr>"

lemma scripted_then_serves:
  "hc_in n = [bs] \<Longrightarrow> then_serves scripted_server concat id n asked bs"
  by (auto simp: then_serves_def scripted_server_def)

text \<open>\<open>input\<close> is what a TCP device says in the handshake, \<open>todo\<close> what it sends on the stream opened then.\<close>

definition sample_machine ::
  "bytes list \<Rightarrow> bytes list
     \<Rightarrow> (sample_os, bytes list, bytes, nat, unit, unit, unit, unit, bytes list, nat \<times> nat, nat \<times> nat) host_machine" where
  "sample_machine input todo =
     \<lparr>mc_terminal = sample_terminal, mc_local = sample_local,
      mc_var = [''USER'' \<mapsto> ''me'', ''HOSTNAME'' \<mapsto> ''laptop''], mc_var_os = [''HOME'' \<mapsto> [''home'']],
      mc_path_text = concat, mc_files = sample_files, mc_crypto = pem_crypto, mc_new_key = (\<lambda>n. Inr sample_key),
      mc_dial = (\<lambda>addr s. Some (Inr (input, []), s)), mc_nodelay = (\<lambda>t s. Some (Inr (), s)),
      mc_tcp_link = \<lparr>ln_timeout = sample_timeout, ln_tasks = (\<lambda>t. todo)\<rparr>,
      mc_usb = sample_usb,
      mc_bulk_in = \<lparr>bi_transfer = (\<lambda>n e. None), bi_packet = 512\<rparr>,
      mc_bulk_out = \<lparr>bo_transfer = (\<lambda>bs e. None), bo_packet = 512\<rparr>,
      mc_usb_link = \<lparr>ln_timeout = sample_timeout, ln_tasks = (\<lambda>t. [])\<rparr>,
      mc_env = device_env 0 1 7 True, mc_server = scripted_server, mc_shutdown = no_shutdown\<rparr>"

lemma sample_machine_sel [simp]:
  "mc_terminal (sample_machine input todo) = sample_terminal" "mc_server (sample_machine input todo) = scripted_server"
  "mc_shutdown (sample_machine input todo) = no_shutdown" "mc_crypto (sample_machine input todo) = pem_crypto"
  by (simp_all add: sample_machine_def)

definition shell_options :: cli where
  "shell_options = \<lparr>cl_target = \<lparr>tg_serial = Some ''x'', tg_tcp = None, tg_server = True\<rparr>, cl_auth_wait = 60,
     cl_key = None, cl_command = Shell [''false'']\<rparr>"

theorem cli_shell_over_server_witness:
  "\<exists>n' os'. cli_main (sample_machine [] []) shell_options
      (new_host_channel [as_bytes ''OKAY0008shell_v2'', as_bytes ''OKAYOKAY'' @ [2, 1, 0, 0, 0, 0x21, 3, 1, 0, 0, 0, 1]] [],
       ([], [], \<lambda>_. None)) = Some (7, (n', os'))
     \<and> fst os' = [] \<and> fst (snd os') = [0x21] @ error_line sample_terminal (exit_status 1)
     \<and> hc_out n' = host_block ''host-serial:x:features'' @ host_block ''host:transport:x''
          @ host_block ''shell,v2:false'' @ stdin_frames []"
proof -
  let ?fs = "[\<lparr>fr_id = Stderr, fr_data = [0x21]\<rparr>, \<lparr>fr_id = Exit, fr_data = [1]\<rparr>]"
  let ?b1 = "as_bytes ''OKAY0008shell_v2''"
  let ?b2 = "as_bytes ''OKAYOKAY'' @ [2, 1, 0, 0, 0, 0x21, 3, 1, 0, 0, 0, 1]"
  have b1: "concat [?b1] = as_bytes ''OKAY'' @ host_block ''shell_v2'' @ []" unfolding host_block_def by code_simp
  have b2: "?b2 = as_bytes ''OKAY'' @ as_bytes ''OKAY'' @ encode_all ?fs"
    by (simp add: encode_all_def frame_encode_def u32_to_le_cells)
  have next_one: "then_serves (mc_server (sample_machine [] [])) concat id (new_host_channel [?b2] [])
      (id [] @ host_block (''host-serial:'' @ ''x'' @ '':features'')) (as_bytes ''OKAY'' @ as_bytes ''OKAY'' @ encode_all ?fs)"
    unfolding b2 [symmetric] sample_machine_sel by (rule scripted_then_serves) (simp add: new_host_channel_def)
  have wf: "wf_str ''shell_v2''" by code_simp
  have fts: "SHELL_V2_FEATURE \<in> set (split_features ''shell_v2'')" unfolding SHELL_V2_FEATURE_def by code_simp
  note cli_shell_over_server [where M = "sample_machine [] []" and out = id and c = shell_options and ws = "[''false'']"
      and n = "new_host_channel [?b1, ?b2] []" and ?n2.0 = "new_host_channel [?b2] []"
      and ?n1.0 = "new_host_channel [?b2] []" and ?w1.0 = "[]"
      and sr = "''x''" and shown = fst and complained = "\<lambda>s. fst (snd s)" and os = "([], [], \<lambda>_. None)",
      OF _ _ _ _ _ _ _ _ _ b1 _ wf fts refl next_one]
  then show ?thesis
    by (fastforce simp: sample_terminal_ok no_shutdown_ok shell_options_def scripted_server_def new_host_channel_def
        data_of_def code_of_def transport_request_def)
qed

text \<open>
  C17: a whole run of \<open>rsadb connect HOST:PORT\<close>: what the device says in the handshake decides it. When
  the abstract protocol accepts, the address and the banner are printed and the exit code is 0; when
  it ends in an error, nothing is printed but the error's line, and the exit code is the error's, 4
  for a key the device has not authorised.
\<close>

theorem cli_connect_reports:
  assumes "takes_output (mc_terminal M) shown complained" and "cl_command c = Connect_to address"
    and "parse_endpoint address = Inr (host, port)" and "load_key M c os = Some (Inr key, os1)"
    and "mc_dial M (host, port) os1 = Some (Inr (r, w), os2)" and "mc_nodelay M (r, w) os2 = Some (Inr (), os3)"
    and "over_stream (mc_crypto M) key (ln_timeout (mc_tcp_link M)) (nw_read (mc_server M)) avail (nw_write (mc_server M)) out w"
    and "hs_run (mc_crypto M) key hs_init (deframe_all INITIAL (avail r)) = Some (res, sent, rest)"
  shows "\<exists>os'. cli_main M c (n, os) = Some (case res of Inl e \<Rightarrow> error_exit_code e | Inr _ \<Rightarrow> 0, (n, os'))
     \<and> shown os' = shown os3 @ (case res of Inl _ \<Rightarrow> [] | Inr terms \<Rightarrow>
          line_bytes (''connected to '' @ host @ '':'' @ dec_of_nat port @ '': '' @ kind (n_banner terms) @ '' '' @ to_wire (n_banner terms)))
     \<and> complained os' = complained os3 @ (case res of Inl e \<Rightarrow> error_line (mc_terminal M) e | Inr _ \<Rightarrow> [])"
proof -
  obtain t where session: "cli_tcp_session M c key (host, port) os1 = Some (case res of Inl e \<Rightarrow> Inl e
       | Inr terms \<Rightarrow> Inr \<lparr>sess = session_start terms, sched = ln_tasks (mc_tcp_link M) t\<rparr>, os3)"
    using tcp_session_run [OF assms(7,5,6,8)] by blast
  have run: "cli_run M c (n, os) = on_source (cli_connect_tcp M c address) (n, os)"
    by (simp add: cli_run_def assms(2))
  show ?thesis
  proof (cases res)
    case (Inl e)
    then have "cli_run M c (n, os) = Some (Inl e, (n, os3))"
      using session assms(3,4)
      by (auto simp: run cli_connect_tcp_def and_then_ok and_then_err intro!: on_source_run)
    from cli_main_run [OF assms(1) this] Inl show ?thesis by auto
  next
    case (Inr terms)
    let ?l = "''connected to '' @ host @ '':'' @ dec_of_nat port @ '': '' @ kind (n_banner terms) @ '' '' @ to_wire (n_banner terms)"
    obtain os4 where os4: "println (mc_terminal M) ?l os3 = Some (Inr (), os4)" "shown os4 = shown os3 @ line_bytes ?l"
      "complained os4 = complained os3"
      using println_run [OF assms(1)] by blast
    have "cli_run M c (n, os) = Some (Inr (), (n, os4))"
      using session assms(3,4) os4(1) Inr
      by (auto simp: run cli_connect_tcp_def and_then_ok session_banner_def session_start_def Let_def intro!: on_source_run)
    from cli_main_run [OF assms(1) this] Inr os4 show ?thesis by auto
  qed
qed

text \<open>Its witness: a device that asks for nothing, with the key already on the disk.\<close>

definition open_device :: "message list" where
  "open_device = [new_message Connect VERSION 4096 []]"

lemma open_device_accepts:
  "hs_run C key hs_init (deframe_all INITIAL (concat (sample_input open_device))) = Some (Inr sample_agreed, [], [])"
proof -
  have "deframe_all INITIAL (concat (sample_input open_device)) = open_device"
    by (rule deframe_sample) (simp add: open_device_def)
  moreover have "negotiate (new_message Connect VERSION 4096 []) = Inr sample_agreed"
    by (simp add: negotiate_def sample_agreed_def VERSION_def VERSION_MIN_def MAX_PAYLOAD_def) code_simp
  ultimately show ?thesis by (simp add: open_device_def hs_decide_def)
qed

lemma pem_key_read: "from_pem pem_crypto ''PEM'' ''me@laptop'' = Inr sample_host_key"
proof -
  have "from_private pem_crypto sample_key ''me@laptop'' = Inr sample_host_key"
    using pem_crypto_generates(1) by (simp add: generate_def key_err_def)
  moreover have "pkcs1_to_pem pem_crypto sample_key = Inr ''PEM''"
    using pem_crypto_generates(2) by (simp add: to_pem_def sample_host_key_def key_err_def split: sum.splits)
  then have "isl (pkcs8_from_pem pem_crypto ''PEM'')" "pkcs1_from_pem pem_crypto ''PEM'' = Inr sample_key"
    using pem_crypto_codec unfolding pem_codec_def by blast+
  ultimately show ?thesis by (cases "pkcs8_from_pem pem_crypto ''PEM''") (simp_all add: from_pem_def)
qed

definition stored_key :: "path \<Rightarrow> bytes option" where
  "stored_key = [[''home'', ''.android'', ''adbkey''] \<mapsto> as_bytes ''PEM'']"

lemma sample_key_loaded:
  assumes "cl_key c = None"
  shows "load_key (sample_machine input todo) c (a, b, stored_key) = Some (Inr sample_host_key, (a, b, stored_key))"
proof -
  have label: "key_comment [''USER'' \<mapsto> ''me'', ''HOSTNAME'' \<mapsto> ''laptop''] = ''me@laptop''"
    by (simp add: key_comment_def or_else_def)
  have "bytes_str (as_bytes ''PEM'') = ''PEM''" "valid_utf8 (as_bytes ''PEM'')" by code_simp+
  then have "load_or_generate sample_files pem_crypto (\<lambda>n. Inr sample_key) (in_dir [''home'', ''.android'']) ''me@laptop'' (a, b, stored_key)
      = Some (Inr sample_host_key, (a, b, stored_key))"
    using pem_key_read
    by (simp add: load_or_generate_def read_key_def sample_files_def map_files_def in_dir_def stored_key_def on_files_def
        io_err_def and_then_def of_result_def del: list.map)
  then show ?thesis
    using assms label by (simp add: load_key_def cli_paths_def cli_key_paths_def default_key_paths_def or_else_def sample_machine_def)
qed

lemma pem_over_stream: "over_stream pem_crypto sample_host_key sample_timeout chunk_reader concat byte_sink id []"
proof -
  have "rsa_n pem_crypto = rsa_n sample_crypto" "rsa_e pem_crypto = rsa_e sample_crypto"
    by (simp_all add: pem_crypto_def)
  then have "encode pem_crypto k = encode sample_crypto k" for k by (simp only: encode_def)
  moreover have "b64_encode pem_crypto = b64_encode sample_crypto" by (simp add: pem_crypto_def)
  ultimately have "public_key_payload pem_crypto k = public_key_payload sample_crypto k" for k
    by (simp add: public_key_payload_def public_key_line_def encode_line_def cong: sum.case_cong)
  moreover have "sign_token pem_crypto k t = sign_token sample_crypto k t" for k t
    by (simp add: sign_token_def pem_crypto_def)
  ultimately show ?thesis
    using sample_over_stream by (simp add: over_stream_def small_auth_def sample_host_key_def sample_host_def)
qed

theorem cli_connect_reports_witness:
  "\<exists>os'. cli_main (sample_machine (sample_input [empty_message Open 0 0]) [])
       \<lparr>cl_target = \<lparr>tg_serial = None, tg_tcp = None, tg_server = False\<rparr>, cl_auth_wait = 60, cl_key = None,
         cl_command = Connect_to ''h''\<rparr> (new_host_channel [] [], ([], [], stored_key))
     = Some (1, (new_host_channel [] [], os')) \<and> fst os' = []
     \<and> fst (snd os') = error_line sample_terminal (Protocol (Fmt ''unexpected {other} during handshake'' [Txt (mnemonic Open)]))"
proof -
  let ?M = "sample_machine (sample_input [empty_message Open 0 0]) []"
  let ?c = "\<lparr>cl_target = \<lparr>tg_serial = None, tg_tcp = None, tg_server = False\<rparr>, cl_auth_wait = 60, cl_key = None,
         cl_command = Connect_to ''h''\<rparr> :: cli"
  have "deframe_all INITIAL (concat (sample_input [empty_message Open 0 0])) = [empty_message Open 0 0]"
    by (rule deframe_sample) simp
  then have run: "hs_run (mc_crypto ?M) sample_host_key hs_init (deframe_all INITIAL (concat (sample_input [empty_message Open 0 0])))
      = Some (Inl (Protocol (Fmt ''unexpected {other} during handshake'' [Txt (mnemonic Open)])), [], [])"
    by (simp add: hs_decide_def)
  have addr: "parse_endpoint ''h'' = Inr (''h'', DEFAULT_PORT)"
    by (simp add: parse_endpoint_def trim_graphic graphic_def rsplit_once_def split_once_single_None)
  have key: "load_key ?M ?c ([], [], stored_key) = Some (Inr sample_host_key, ([], [], stored_key))"
    by (rule sample_key_loaded) simp
  have over: "over_stream (mc_crypto ?M) sample_host_key (ln_timeout (mc_tcp_link ?M)) (nw_read (mc_server ?M)) concat
      (nw_write (mc_server ?M)) id []"
    using pem_over_stream by (simp add: sample_machine_def scripted_server_def)
  note cli_connect_reports [where M = ?M and c = ?c and shown = fst and complained = "\<lambda>s. fst (snd s)"
      and ?os2.0 = "([], [], stored_key)" and ?os3.0 = "([], [], stored_key)" and n = "new_host_channel [] []",
      OF _ _ addr key _ _ over run]
  then show ?thesis by (auto simp: sample_terminal_ok sample_machine_def)
qed

text \<open>
  C10: a whole run of \<open>rsadb -t HOST exec \<dots>\<close> without an adb server, through every layer: the device accepts
  the handshake, acknowledges the \<open>OPEN\<close> within a bounded number of rounds after it was posted, sends
  the chunks \<open>cs\<close> and closes the stream (the contract \<open>opened_stream\<close>). However the reader, the writer and
  the command interleave, the run returns, standard output receives exactly those chunks, nothing goes
  to standard error, and the exit code is 0.
\<close>

theorem cli_exec_over_tcp:
  assumes "takes_output (mc_terminal M) shown complained" and "cl_command c = Exec ws"
    and "\<not> tg_server (cl_target c)" and "tg_tcp (cl_target c) = Some spec" and "parse_endpoint spec = Inr addr"
    and "load_key M c os = Some (Inr key, os1)"
    and "mc_dial M addr os1 = Some (Inr (r, w), os2)" and "mc_nodelay M (r, w) os2 = Some (Inr (), os3)"
    and "over_stream (mc_crypto M) key (ln_timeout (mc_tcp_link M)) (nw_read (mc_server M)) avail (nw_write (mc_server M)) out w"
    and "hs_run (mc_crypto M) key hs_init (deframe_all INITIAL (avail r)) = Some (Inr terms, sent, rest)"
    and "opened_stream (mc_env M) \<lparr>state_ix = 0, max_chunk = unat (n_max_payload terms)\<rparr> 1 True todo delay"
    and "\<And>t. todo (ln_tasks (mc_tcp_link M) t) = cs" and "CHR 0x00 \<notin> set (join '' '' ws)"
  shows "\<exists>os'. cli_main M c (n, os) = Some (0, (n, os'))
     \<and> shown os' = shown os3 @ concat cs \<and> complained os' = complained os3"
proof -
  let ?out = "concat cs" and ?st = "\<lparr>state_ix = 0, max_chunk = unat (n_max_payload terms)\<rparr>"
  let ?N = "session_connection (mc_env M)"
  obtain t where "cli_tcp_session M c key addr os1
      = Some (Inr \<lparr>sess = session_start terms, sched = ln_tasks (mc_tcp_link M) t\<rparr>, os3)"
    using tcp_session_run [OF assms(9,7,8,10)] by auto
  then obtain d where connected: "cli_connect M c (n, os) = Some (Inr (Direct_device (new_device d)), (n, os3))"
    and d: "d = \<lparr>sess = session_start terms, sched = ln_tasks (mc_tcp_link M) t\<rparr>"
    using cli_connect_over_tcp [OF assms(3,4,6,5)] by blast
  from opened_stream.exec_fresh [OF assms(11) TrueI refl refl assms(13), of "ln_tasks (mc_tcp_link M) t"]
  obtain w' where "exec ?N (join '' '' ws) d = Some (Inr ?out, w')"
    using assms(12) d by auto
  then have "device_exec ?N (join '' '' ws) (new_device d) = Some (Inr ?out, (new_device d)\<lparr>dv_world := w'\<rparr>)"
    by (simp add: device_exec_def on_conn_run new_device_def)
  from cli_exec_run [OF assms(1) this, of "mc_local M" os3] obtain os' where
    os': "on_device (mc_terminal M) (mc_local M) ?N (Exec ws) (new_device d, os3)
        = Some (Inr (), ((new_device d)\<lparr>dv_world := w'\<rparr>, os'))"
      "shown os' = shown os3 @ ?out" "complained os' = complained os3" by blast
  then have "cli_run M c (n, os) = Some (Inr (), (n, os'))"
    using connected assms(2) by (simp add: cli_run_def Let_def and_then_ok on_direct_def)
  from cli_main_run [OF assms(1) this] os' show ?thesis by auto
qed

theorem cli_exec_over_tcp_witness:
  "\<exists>os'. cli_main (sample_machine (sample_input open_device) [[1, 2], [3]])
       \<lparr>cl_target = \<lparr>tg_serial = None, tg_tcp = Some ''h'', tg_server = False\<rparr>, cl_auth_wait = 60, cl_key = None,
         cl_command = Exec [''id'']\<rparr> (new_host_channel [] [], ([], [], stored_key))
     = Some (0, (new_host_channel [] [], os')) \<and> fst os' = [1, 2, 3] \<and> fst (snd os') = []"
proof -
  let ?M = "sample_machine (sample_input open_device) [[1, 2], [3]]"
  let ?c = "\<lparr>cl_target = \<lparr>tg_serial = None, tg_tcp = Some ''h'', tg_server = False\<rparr>, cl_auth_wait = 60, cl_key = None,
         cl_command = Exec [''id'']\<rparr> :: cli"
  have addr: "parse_endpoint ''h'' = Inr (''h'', DEFAULT_PORT)"
    by (simp add: parse_endpoint_def trim_graphic graphic_def rsplit_once_def split_once_single_None)
  have key: "load_key ?M ?c ([], [], stored_key) = Some (Inr sample_host_key, ([], [], stored_key))"
    by (rule sample_key_loaded) simp
  have over: "over_stream (mc_crypto ?M) sample_host_key (ln_timeout (mc_tcp_link ?M)) (nw_read (mc_server ?M)) concat
      (nw_write (mc_server ?M)) id []"
    using pem_over_stream by (simp add: sample_machine_def scripted_server_def)
  have opened: "opened_stream (mc_env ?M) \<lparr>state_ix = 0, max_chunk = unat (n_max_payload sample_agreed)\<rparr> 1 True
      (\<lambda>d. d) (device_delay 0 1)"
    using run_opened.opened_stream_axioms by (simp add: sample_machine_def first_stream_def sample_agreed_def)
  note cli_exec_over_tcp [where M = ?M and c = ?c and shown = fst and complained = "\<lambda>s. fst (snd s)"
      and ?os2.0 = "([], [], stored_key)" and ?os3.0 = "([], [], stored_key)" and n = "new_host_channel [] []"
      and spec = "''h''" and ws = "[''id'']",
      OF _ _ _ _ addr key _ _ over open_device_accepts opened]
  then show ?thesis by (auto simp: sample_terminal_ok sample_machine_def)
qed

text \<open>
  C38: a whole run of \<open>rsadb --server -s SERIAL pull REMOTE LOCAL\<close> whose local path cannot be created as a
  file, as for the directory \<open>.\<close> that the README's example names: the path is taken as it is, so the
  run sends the request, reads no content, prints the operating system's error and exits with 1.
\<close>

theorem cli_pull_into_directory:
  assumes "takes_output (mc_terminal M) shown complained"
    and "reads_bytes (nw_read (mc_server M)) avail" and "writes_bytes (nw_write (mc_server M)) out"
    and "shuts_down (mc_shutdown M) out"
    and "cl_command c = Pull rp lp" and "tg_server (cl_target c)" and "tg_serial (cl_target c) = Some sr"
    and "nw_connect (mc_server M) n = Some (Inr (r1, w1), n1)"
    and "nw_nodelay (mc_server M) (r1, w1) n1 = Some (Inr (), n2)"
    and "avail r1 = as_bytes ''OKAY'' @ host_block reply @ rest" and "length reply \<le> 0xFFFF" and "wf_str reply"
    and "asked = out w1 @ host_block (''host-serial:'' @ sr @ '':features'')"
    and "then_serves (mc_server M) avail out n2 asked (as_bytes ''OKAY'' @ as_bytes ''OKAY'' @ bs)"
    and "length (''host-serial:'' @ sr @ '':features'') \<le> 0xFFFF" and "length rp < 2 ^ 32"
    and "lf_create (mc_local M) lp os = Some (Inl e, os1)"
  shows "\<exists>n' os'. cli_main M c (n, os) = Some (1, (n', os'))
     \<and> shown os' = shown os1 \<and> complained os' = complained os1 @ error_line (mc_terminal M) (Io e)
     \<and> out (hc_out n') = out w1 @ host_block (''host-serial:'' @ sr @ '':features'')
          @ host_block (transport_request sr) @ host_block ''sync:''
          @ pull_request (from_features (split_features reply)) rp"
proof -
  let ?N = "host_device (mc_server M) (mc_shutdown M) sr"
  obtain d where d: "device_sync ?N (new_device n) = Some (Inr ((), from_features (split_features reply)), d)"
    "out (hc_out (dv_world d)) = asked @ host_block (transport_request sr) @ host_block ''sync:''"
    using server_sync_run [OF assms(2,3,8-15)] by blast
  have ch: "cn_channel ?N = host_channel_ops (nw_read (mc_server M)) (nw_write (mc_server M)) (mc_shutdown M)"
    by (simp add: host_device_def)
  obtain d' where d': "pull_to_file ?N (lf_create (mc_local M)) (lf_out (mc_local M)) rp lp (new_device n, os)
       = Some (Inl (Io e), (d', os1))"
     "out (hc_out (dv_world d')) = out (hc_out (dv_world d)) @ pull_request (from_features (split_features reply)) rp"
    using channel.pull_to_file_no_local [OF host_channel_contract [OF assms(2-4)] ch d(1) TrueI TrueI assms(16),
        where create = "lf_create (mc_local M)", OF assms(17)] by blast
  have "on_device (mc_terminal M) (mc_local M) ?N (Pull rp lp) (new_device n, os) = Some (Inl (Io e), (d', os1))"
    using d'(1) by (simp add: and_then_err)
  then have "cli_run M c (n, os) = Some (Inl (Io e), (dv_world d', os1))"
    using assms(5) cli_connect_serial [OF assms(6,7), of M]
    by (simp add: cli_run_def Let_def and_then_ok on_server_run)
  from cli_main_run [OF assms(1) this] d d' assms(13) show ?thesis by auto
qed

theorem cli_pull_into_directory_witness:
  "\<exists>n' os'. cli_main (sample_machine [] [])
       \<lparr>cl_target = \<lparr>tg_serial = Some ''x'', tg_tcp = None, tg_server = True\<rparr>, cl_auth_wait = 60, cl_key = None,
         cl_command = Pull ''/f'' ''.''\<rparr>
       (new_host_channel [as_bytes ''OKAY0000'', as_bytes ''OKAYOKAY'' @ data_frame [1] @ sync_word DONE_ID 0] [], ([], [], \<lambda>_. None))
     = Some (1, (n', os')) \<and> fst os' = []
     \<and> fst (snd os') = error_line sample_terminal (Io (Io_error (Other_kind 21) (Lit ''Is a directory'')))"
proof -
  let ?b1 = "as_bytes ''OKAY0000''"
  let ?rest = "data_frame [1] @ sync_word DONE_ID 0"
  let ?b2 = "as_bytes ''OKAYOKAY'' @ ?rest"
  let ?c = "\<lparr>cl_target = \<lparr>tg_serial = Some ''x'', tg_tcp = None, tg_server = True\<rparr>, cl_auth_wait = 60, cl_key = None,
         cl_command = Pull ''/f'' ''.''\<rparr> :: cli"
  have b1: "concat [?b1] = as_bytes ''OKAY'' @ host_block [] @ []" unfolding host_block_def by code_simp
  have b2: "?b2 = as_bytes ''OKAY'' @ as_bytes ''OKAY'' @ ?rest" by simp
  have next_one: "then_serves (mc_server (sample_machine [] [])) concat id (new_host_channel [?b2] [])
      (id [] @ host_block (''host-serial:'' @ ''x'' @ '':features'')) (as_bytes ''OKAY'' @ as_bytes ''OKAY'' @ ?rest)"
    unfolding b2 [symmetric] sample_machine_sel by (rule scripted_then_serves) (simp add: new_host_channel_def)
  have wf: "wf_str []" by simp
  note cli_pull_into_directory [where M = "sample_machine [] []" and out = id and c = ?c and rp = "''/f''" and lp = "''.''"
      and n = "new_host_channel [?b1, ?b2] []" and ?n2.0 = "new_host_channel [?b2] []"
      and ?n1.0 = "new_host_channel [?b2] []" and ?w1.0 = "[]"
      and sr = "''x''" and shown = fst and complained = "\<lambda>s. fst (snd s)" and os = "([], [], \<lambda>_. None)"
      and ?os1.0 = "([], [], \<lambda>_. None)" and e = "Io_error (Other_kind 21) (Lit ''Is a directory'')",
      OF _ _ _ _ _ _ _ _ _ b1 _ wf refl next_one]
  then show ?thesis
    by (fastforce simp: sample_terminal_ok no_shutdown_ok sample_machine_def sample_local_def scripted_server_def
        new_host_channel_def)
qed

end
