(* ===== verification/Examples.thy ===== *)
theory Examples
  imports Cli
begin

section \<open>The example programs\<close>

text \<open>
  The programs of \<open>examples/\<close> on the \<open>machine\<close> of the command line program: each connects to the only
  attached USB device with the default host key and runs one operation. A run ends in the \<open>Result\<close> of
  its \<open>main\<close>; arguments are the texts after the program's name. The lemmas show what each prints once
  it is connected.
\<close>

subsection \<open>Connecting\<close>

definition example_connect ::
  "('o, 'n, 'r, 'w, 'i, 'd, 'f, 'a, 'b, 'e, 'sk, 'pk) machine \<Rightarrow> ('o, 'e world device) comp" where
  "example_connect M =
     and_then (of_result (default_key_paths (mc_var_os M))) (\<lambda>paths.
     and_then (load_or_generate (mc_files M) (mc_crypto M) (mc_new_key M) paths ''rsadb-example@host'') (\<lambda>key.
     and_then (usb_find (nu_devices (mc_usb M)) None) (\<lambda>info.
     and_then (usb_open (mc_usb M) info) (\<lambda>t.
     and_then (start_session (mc_crypto M) (mc_usb_link M) (usb_transport_ops (mc_bulk_in M) (mc_bulk_out M)) key 60 t) (\<lambda>w.
     ret (new_device w))))))"

text \<open>The device is dropped at the end of \<open>main\<close>.\<close>

definition with_device ::
  "('o, 'n, 'r, 'w, 'i, 'd, 'f, 'a, 'b, 'e, 'sk, 'pk) machine
     \<Rightarrow> (('e world, stream) connection \<Rightarrow> ('e world device \<times> 'o, unit) comp) \<Rightarrow> ('o, unit) comp" where
  "with_device M body =
     and_then (example_connect M) (\<lambda>d s.
       case body (session_connection (mc_env M)) (d, s) of
         None \<Rightarrow> None
       | Some (r, (_, s')) \<Rightarrow> Some (r, s'))"

definition arg_or :: "str \<Rightarrow> str list \<Rightarrow> nat \<Rightarrow> str" where
  "arg_or d args i = (if i < length args then args ! i else d)"

text \<open>\<open>print!\<close> and \<open>eprint!\<close>: a text without a newline.\<close>

definition print_text :: "(bytes \<Rightarrow> ('o, unit) io) \<Rightarrow> str \<Rightarrow> ('o, unit) comp" where
  "print_text put t s =
     (case put (as_bytes t) s of
        Some (Inr _, s') \<Rightarrow> Some (Inr (), s')
      | _ \<Rightarrow> None)"

subsection \<open>The programs\<close>

definition exit_line :: "u8 option \<Rightarrow> str" where
  "exit_line status = ''exit code: '' @ (case status of
      None \<Rightarrow> ''None'' | Some c \<Rightarrow> ''Some('' @ dec_of_nat (unat c) @ '')'')"

definition example_shell ::
  "('o, 'n, 'r, 'w, 'i, 'd, 'f, 'a, 'b, 'e, 'sk, 'pk) machine \<Rightarrow> str list \<Rightarrow> ('o, unit) comp" where
  "example_shell M args =
     with_device M (\<lambda>N.
       and_then (on_client (device_shell N (arg_or ''id'' args 0))) (\<lambda>out.
       and_then (on_source (print_text (tm_stdout (mc_terminal M)) (stdout_text out))) (\<lambda>_.
       and_then (on_source (print_text (tm_stderr (mc_terminal M)) (stderr_text out))) (\<lambda>_.
       on_source (println (mc_terminal M) (exit_line (exit_code out)))))))"

definition example_screencap ::
  "('o, 'n, 'r, 'w, 'i, 'd, 'f, 'a, 'b, 'e, 'sk, 'pk) machine \<Rightarrow> str list \<Rightarrow> ('o, unit) comp" where
  "example_screencap M args =
     (let out = arg_or ''screen.png'' args 0 in
      with_device M (\<lambda>N.
        and_then (on_client (screencap N)) (\<lambda>png.
        and_then (on_source (io_err Io (lf_write (mc_local M) out png))) (\<lambda>_.
        on_source (println (mc_terminal M) (out @ '': '' @ dec_of_nat (length png) @ '' bytes''))))))"

definition parent_dir :: "str \<Rightarrow> str" where
  "parent_dir path =
     (case rsplit_once ''/'' path of
        None \<Rightarrow> ''/''
      | Some (dir, _) \<Rightarrow> if dir = [] then ''/'' else dir)"

definition stat_line :: "str \<Rightarrow> stat \<Rightarrow> str" where
  "stat_line path st =
     path @ '': '' @ dec_of_nat (unat (st_size st)) @ '' bytes, mode '' @ oct_of_nat (unat (st_mode st))"

definition entry_line :: "entry \<Rightarrow> str" where
  "entry_line en = pad_left 10 (dec_of_nat (unat (en_size en))) @ '' '' @ en_name en"

definition example_pull ::
  "('o, 'n, 'r, 'w, 'i, 'd, 'f, 'a, 'b, 'e, 'sk, 'pk) machine \<Rightarrow> str list \<Rightarrow> ('o, unit) comp" where
  "example_pull M args =
     (let rp = arg_or ''/system/build.prop'' args 0; lp = arg_or ''pulled.bin'' args 1;
          T = mc_terminal M; L = mc_local M in
      with_device M (\<lambda>N.
        and_then (on_client (device_stat N rp)) (\<lambda>st.
        and_then (on_source (println T (stat_line rp st))) (\<lambda>_.
        and_then (on_source (io_err Io (lf_create L lp))) (\<lambda>_.
        and_then (on_client (device_sync N)) (\<lambda>(h, F).
        and_then (with_file
          (and_then (on_client (start_pull (cn_channel N) h F rp)) (\<lambda>_.
           and_then (pull_file_loop (cn_channel N) h (lf_out L) False 0) (\<lambda>total.
           and_then (on_source (io_err Io (aw_flush (lf_out L)))) (\<lambda>_.
           ret total))))) (\<lambda>total.
        and_then (on_source (println T (''wrote '' @ dec_of_nat (unat total) @ '' bytes to '' @ lp))) (\<lambda>_.
        and_then (on_client (list_dir N (parent_dir rp))) (\<lambda>es.
        on_source (print_lines T (map entry_line es)))))))))))"

text \<open>\<open>row["\<dots>"]\<close> panics on a column the row does not have.\<close>

definition row_text :: "row \<Rightarrow> str option" where
  "row_text r =
     (case (map_of r ''_id'', map_of r ''address'', map_of r ''date'', map_of r ''body'') of
        (Some i, Some a, Some t, Some b) \<Rightarrow>
          Some (''#'' @ i @ '' '' @ a @ '' @'' @ t @ '': '' @ (case lines b of [] \<Rightarrow> [] | l # _ \<Rightarrow> l))
      | _ \<Rightarrow> None)"

fun print_rows :: "'o terminal \<Rightarrow> row list \<Rightarrow> ('o, unit) comp" where
  "print_rows T [] = ret ()"
| "print_rows T (r # rs) =
     and_then (unwrap (row_text r)) (\<lambda>l. and_then (println T l) (\<lambda>_. print_rows T rs))"

definition sms_columns :: "str list" where
  "sms_columns = [''_id'', ''address'', ''date'', ''body'']"

definition example_content_query ::
  "('o, 'n, 'r, 'w, 'i, 'd, 'f, 'a, 'b, 'e, 'sk, 'pk) machine \<Rightarrow> ('o, unit) comp" where
  "example_content_query M =
     with_device M (\<lambda>N.
       and_then (on_client (content_query_with N ''content://sms/inbox'' sms_columns [''--sort'', ''date DESC''])) (\<lambda>rows.
       and_then (on_source (println (mc_terminal M) (dec_of_nat (length rows) @ '' rows''))) (\<lambda>_.
       on_source (print_rows (mc_terminal M) (take 10 rows)))))"

definition example_device_line :: "'i usb_device \<Rightarrow> str" where
  "example_device_line d =
     (let info = us_info d in
      pad_right 24 (str_or ''(no serial)'' (ud_serial info)) @ '' '' @ hex4 (unat (ud_vendor_id info)) @ '':''
      @ hex4 (unat (ud_product_id info)) @ '' '' @ str_or [] (ud_manufacturer info) @ '' ''
      @ str_or [] (ud_product info) @ '' (interface '' @ dec_of_nat (unat (us_interface d)) @ '')'')"

definition example_devices ::
  "('o, 'n, 'r, 'w, 'i, 'd, 'f, 'a, 'b, 'e, 'sk, 'pk) machine \<Rightarrow> ('o, unit) comp" where
  "example_devices M =
     and_then (usb_list (nu_devices (mc_usb M))) (\<lambda>ds.
     and_then (if ds = [] then println (mc_terminal M) ''no ADB USB devices attached'' else ret ()) (\<lambda>_.
     print_lines (mc_terminal M) (map example_device_line ds)))"

subsection \<open>What they print\<close>

lemma with_device_run:
  assumes "example_connect M s = Some (Inr d, s1)" and "body (session_connection (mc_env M)) (d, s1) = Some (r, (d', s2))"
  shows "with_device M body s = Some (r, s2)"
  using assms by (simp add: with_device_def and_then_ok)

lemma with_device_refused:
  "example_connect M s = Some (Inl e, s1) \<Longrightarrow> with_device M body s = Some (Inl e, s1)"
  by (simp add: with_device_def and_then_err)

lemma print_text_run:
  assumes "takes_output T shown complained"
  shows "\<exists>s'. print_text (tm_stdout T) t s = Some (Inr (), s') \<and> shown s' = shown s @ as_bytes t \<and> complained s' = complained s"
    and "\<exists>s'. print_text (tm_stderr T) t s = Some (Inr (), s') \<and> shown s' = shown s \<and> complained s' = complained s @ as_bytes t"
  using takes_outputD [OF assms, of "as_bytes t" s] by (auto simp: print_text_def)

text \<open>Connecting asks for the key first: without a home directory nothing else happens.\<close>

lemma example_connect_homeless:
  "default_key_paths (mc_var_os M) = Inl e \<Longrightarrow> example_connect M s = Some (Inl e, s)"
  by (simp add: example_connect_def and_then_err)

lemma example_shell_run:
  assumes T: "takes_output (mc_terminal M) shown complained" and "example_connect M s = Some (Inr d, s1)"
    and "device_shell (session_connection (mc_env M)) (arg_or ''id'' args 0) d = Some (Inr out, d')"
  shows "\<exists>s'. example_shell M args s = Some (Inr (), s')
     \<and> shown s' = shown s1 @ as_bytes (stdout_text out) @ line_bytes (exit_line (exit_code out))
     \<and> complained s' = complained s1 @ as_bytes (stderr_text out)"
proof -
  obtain s2 where s2: "print_text (tm_stdout (mc_terminal M)) (stdout_text out) s1 = Some (Inr (), s2)"
    "shown s2 = shown s1 @ as_bytes (stdout_text out)" "complained s2 = complained s1"
    using print_text_run(1) [OF T] by blast
  obtain s3 where s3: "print_text (tm_stderr (mc_terminal M)) (stderr_text out) s2 = Some (Inr (), s3)"
    "shown s3 = shown s2" "complained s3 = complained s2 @ as_bytes (stderr_text out)"
    using print_text_run(2) [OF T] by blast
  obtain s4 where s4: "println (mc_terminal M) (exit_line (exit_code out)) s3 = Some (Inr (), s4)"
    "shown s4 = shown s3 @ line_bytes (exit_line (exit_code out))" "complained s4 = complained s3"
    using println_run [OF T] by blast
  have "example_shell M args s = Some (Inr (), s4)"
    unfolding example_shell_def using assms(3) s2(1) s3(1) s4(1)
    by (intro with_device_run [OF assms(2), where d' = d']) (simp add: and_then_ok on_client_run on_source_run)
  with s2 s3 s4 show ?thesis by simp
qed

lemma example_screencap_run:
  assumes T: "takes_output (mc_terminal M) shown complained" and "example_connect M s = Some (Inr d, s1)"
    and "screencap (session_connection (mc_env M)) d = Some (Inr png, d')"
    and "lf_write (mc_local M) (arg_or ''screen.png'' args 0) png s1 = Some (Inr (), s2)"
  shows "\<exists>s'. example_screencap M args s = Some (Inr (), s')
     \<and> shown s' = shown s2 @ line_bytes (arg_or ''screen.png'' args 0 @ '': '' @ dec_of_nat (length png) @ '' bytes'')
     \<and> complained s' = complained s2"
proof -
  let ?line = "arg_or ''screen.png'' args 0 @ '': '' @ dec_of_nat (length png) @ '' bytes''"
  obtain s3 where s3: "println (mc_terminal M) ?line s2 = Some (Inr (), s3)"
    "shown s3 = shown s2 @ line_bytes ?line" "complained s3 = complained s2"
    using println_run [OF T] by blast
  have "on_source (io_err Io (lf_write (mc_local M) (arg_or ''screen.png'' args 0) png)) (d', s1) = Some (Inr (), (d', s2))"
    using assms(4) by (rule on_source_io)
  then have "example_screencap M args s = Some (Inr (), s3)"
    unfolding example_screencap_def Let_def using assms(3) s3(1)
    by (intro with_device_run [OF assms(2), where d' = d']) (simp add: and_then_ok on_client_run on_source_run)
  with s3 show ?thesis by blast
qed

text \<open>A screenshot that is not a PNG is never written to the file.\<close>

lemma example_screencap_not_png:
  assumes "example_connect M s = Some (Inr d, s1)" and "screencap (session_connection (mc_env M)) d = Some (Inl e, d')"
  shows "example_screencap M args s = Some (Inl e, s1)"
  unfolding example_screencap_def Let_def using assms(2)
  by (intro with_device_run [OF assms(1), where d' = d']) (simp add: and_then_err on_client_run)

text \<open>A pull whose stat fails ends before anything is printed or written.\<close>

lemma example_pull_refused:
  assumes "example_connect M s = Some (Inr d, s1)"
    and "device_stat (session_connection (mc_env M)) (arg_or ''/system/build.prop'' args 0) d = Some (Inl e, d')"
  shows "example_pull M args s = Some (Inl e, s1)"
  unfolding example_pull_def Let_def using assms(2)
  by (intro with_device_run [OF assms(1), where d' = d']) (simp add: and_then_err on_client_run)

text \<open>The directory a path lies in.\<close>

lemma parent_dir_simps:
  "CHR ''/'' \<notin> set name \<Longrightarrow> parent_dir (dir @ ''/'' @ name) = (if dir = [] then ''/'' else dir)"
  "CHR ''/'' \<notin> set name \<Longrightarrow> parent_dir name = ''/''"
proof -
  assume name: "CHR ''/'' \<notin> set name"
  then have "split_once ''/'' (rev name) = None" by (simp add: split_once_single_None)
  then show "parent_dir name = ''/''" by (simp add: parent_dir_def rsplit_once_def)
  show "parent_dir (dir @ ''/'' @ name) = (if dir = [] then ''/'' else dir)"
    using rsplit_once_single [OF name, of dir] by (simp add: parent_dir_def)
qed

text \<open>Rows that name the queried columns are printed, at most ten of them.\<close>

lemma print_rows_run:
  assumes T: "takes_output T shown complained" and "map row_text rs = map Some ls"
  shows "\<exists>s'. print_rows T rs s = Some (Inr (), s') \<and> shown s' = shown s @ concat (map line_bytes ls)
     \<and> complained s' = complained s"
  using assms(2)
proof (induction rs arbitrary: ls s)
  case Nil
  then show ?case by simp
next
  case (Cons r rs)
  then obtain l ls' where ls: "ls = l # ls'" "row_text r = Some l" "map row_text rs = map Some ls'" by auto
  obtain s1 where s1: "println T l s = Some (Inr (), s1)" "shown s1 = shown s @ line_bytes l" "complained s1 = complained s"
    using println_run [OF T] by blast
  from Cons.IH [OF ls(3), of s1] s1 show ?case by (auto simp: ls(1,2) unwrap_def and_then_ok)
qed

lemma row_text_total:
  assumes "dom (map_of r) = set sms_columns"
  shows "\<exists>l. row_text r = Some l"
proof -
  have column: "\<exists>v. map_of r k = Some v" if "k \<in> set sms_columns" for k
    using assms that by blast
  obtain i a t b where "map_of r ''_id'' = Some i" "map_of r ''address'' = Some a" "map_of r ''date'' = Some t"
    "map_of r ''body'' = Some b"
    using column [of "''_id''"] column [of "''address''"] column [of "''date''"] column [of "''body''"]
    by (auto simp: sms_columns_def)
  then show ?thesis by (simp add: row_text_def)
qed

text \<open>A parsed row has exactly the columns asked for, and so has every row of a content query.\<close>

lemma take_fields_columns:
  "take_fields flds cols r rest = Inr r' \<Longrightarrow> dom (map_of r') = set cols \<union> dom (map_of r)"
proof (induction flds cols r rest rule: take_fields.induct)
  case (2 flds column cols r rest)
  from "2.prems" obtain rest' where rest: "strip_prefix (column @ ''='') rest = Some rest'"
    by (cases "strip_prefix (column @ ''='') rest") simp_all
  show ?case
  proof (cases cols)
    case Nil
    with "2.prems" rest have "r' = bt_insert column rest' r" by simp
    then show ?thesis using Nil by (simp del: fun_upd_apply)
  next
    case (Cons nxt cs)
    with "2.prems" rest obtain at where "find_sub ('', '' @ nxt @ ''='') rest' = Some at"
      by (cases "find_sub ('', '' @ nxt @ ''='') rest'") simp_all
    with "2.IH"(2) [OF rest Cons this] "2.prems" rest Cons show ?thesis by (simp del: fun_upd_apply)
  qed
qed simp

lemma continue_row_columns: "dom (map_of (continue_row column line r)) = insert column (dom (map_of r))"
  by (simp add: continue_row_def Let_def)

lemma row_line_columns:
  assumes "row_line projection rows l = Inr rows'" and "\<forall>r \<in> set rows. dom (map_of r) = set projection"
  shows "\<forall>r \<in> set rows'. dom (map_of r) = set projection"
proof -
  consider "rows' = rows" | "projection \<noteq> []" "rows \<noteq> []" "\<exists>line. rows' = butlast rows @ [continue_row (last projection) line (last rows)]"
    | "\<exists>flds r. parse_fields flds projection = Inr r \<and> rows' = rows @ [r]"
    using assms(1) by (fastforce simp: row_line_def Let_def split: option.splits if_splits sum.splits)
  then show ?thesis
  proof cases
    case 2
    then obtain line where rows': "rows' = butlast rows @ [continue_row (last projection) line (last rows)]" by blast
    have "dom (map_of (last rows)) = set projection" using assms(2) 2(2) by simp
    moreover have "last projection \<in> set projection" using 2(1) by simp
    ultimately have "dom (map_of (continue_row (last projection) line (last rows))) = set projection"
      by (simp only: continue_row_columns insert_absorb)
    moreover have "\<forall>r \<in> set (butlast rows). dom (map_of r) = set projection"
      using assms(2) by (blast dest: in_set_butlastD)
    ultimately show ?thesis unfolding rows' by simp
  next
    case 3
    then obtain flds r where "parse_fields flds projection = Inr r" "rows' = rows @ [r]" by blast
    moreover from this(1) have "dom (map_of r) = set projection"
      unfolding parse_fields_def using take_fields_columns by fastforce
    ultimately show ?thesis using assms(2) by simp
  qed (use assms(2) in simp)
qed

lemma row_lines_columns:
  "row_lines projection rows ls = Inr rows' \<Longrightarrow> \<forall>r \<in> set rows. dom (map_of r) = set projection
     \<Longrightarrow> \<forall>r \<in> set rows'. dom (map_of r) = set projection"
proof (induction ls arbitrary: rows)
  case (Cons l ls)
  from Cons.prems(1) obtain rows1 where rows1: "row_line projection rows l = Inr rows1"
    "row_lines projection rows1 ls = Inr rows'" by (cases "row_line projection rows l") simp_all
  show ?case by (rule Cons.IH [OF rows1(2) row_line_columns [OF rows1(1) Cons.prems(2)]])
qed simp

lemma content_query_columns:
  assumes "content_query_with N uri projection extra d = Some (Inr rows, d')"
  shows "\<forall>r \<in> set rows. dom (map_of r) = set projection"
proof -
  have "\<exists>printed. parse_rows printed projection = Inr rows"
    using assms
    by (auto simp: content_query_with_def and_then_def of_result_def Let_def split: if_splits option.splits sum.splits prod.splits)
  then obtain printed where "row_lines projection [] (lines printed) = Inr rows"
    unfolding parse_rows_def by blast
  from row_lines_columns [OF this] show ?thesis by simp
qed

lemma example_query_run:
  assumes T: "takes_output (mc_terminal M) shown complained" and "example_connect M s = Some (Inr d, s1)"
    and "content_query_with (session_connection (mc_env M)) ''content://sms/inbox'' sms_columns [''--sort'', ''date DESC''] d
       = Some (Inr rows, d')"
  shows "\<exists>s' ls. example_content_query M s = Some (Inr (), s') \<and> length ls = min 10 (length rows)
     \<and> map row_text (take 10 rows) = map Some ls
     \<and> shown s' = shown s1 @ line_bytes (dec_of_nat (length rows) @ '' rows'') @ concat (map line_bytes ls)
     \<and> complained s' = complained s1"
proof -
  define ls where "ls = map (\<lambda>r. the (row_text r)) (take 10 rows)"
  have ls: "map row_text (take 10 rows) = map Some ls"
    unfolding ls_def using content_query_columns [OF assms(3)] row_text_total by (fastforce dest: in_set_takeD)
  obtain s2 where s2: "println (mc_terminal M) (dec_of_nat (length rows) @ '' rows'') s1 = Some (Inr (), s2)"
    "shown s2 = shown s1 @ line_bytes (dec_of_nat (length rows) @ '' rows'')" "complained s2 = complained s1"
    using println_run [OF T] by blast
  obtain s3 where s3: "print_rows (mc_terminal M) (take 10 rows) s2 = Some (Inr (), s3)"
    "shown s3 = shown s2 @ concat (map line_bytes ls)" "complained s3 = complained s2"
    using print_rows_run [OF T ls] by blast
  have "example_content_query M s = Some (Inr (), s3)"
    unfolding example_content_query_def using assms(3) s2(1) s3(1)
    by (intro with_device_run [OF assms(2), where d' = d']) (simp add: and_then_ok on_client_run on_source_run)
  moreover have "length ls = min 10 (length rows)" by (simp add: ls_def)
  ultimately show ?thesis using s2 s3 ls by auto
qed

lemma example_devices_run:
  assumes T: "takes_output (mc_terminal M) shown complained" and "usb_list (nu_devices (mc_usb M)) s = Some (Inr ds, s1)"
  shows "\<exists>s'. example_devices M s = Some (Inr (), s') \<and> complained s' = complained s1
     \<and> shown s' = shown s1 @ (if ds = [] then line_bytes ''no ADB USB devices attached''
          else concat (map (line_bytes \<circ> example_device_line) ds))"
proof (cases "ds = []")
  case True
  obtain s2 where "println (mc_terminal M) ''no ADB USB devices attached'' s1 = Some (Inr (), s2)"
    "shown s2 = shown s1 @ line_bytes ''no ADB USB devices attached''" "complained s2 = complained s1"
    using println_run [OF T] by blast
  with True assms(2) show ?thesis by (simp add: example_devices_def and_then_ok)
next
  case False
  obtain s2 where "print_lines (mc_terminal M) (map example_device_line ds) s1 = Some (Inr (), s2)"
    "shown s2 = shown s1 @ concat (map line_bytes (map example_device_line ds))" "complained s2 = complained s1"
    using print_lines_run [OF T] by blast
  with False assms(2) show ?thesis by (simp add: example_devices_def and_then_ok)
qed

end
