(* ===== verification/Sync_Peer.thy ===== *)
theory Sync_Peer
  imports Device Endpoint Stream_Flow
begin

unbundle bit_operations_syntax

section \<open>The device side of the sync service\<close>

text \<open>
  The crate's own peer of the \<open>sync:\<close> client: the in-memory file system of \<open>tests/common/fake/fs.rs\<close> and
  the handler of \<open>tests/common/fake/sync.rs\<close>, which answers the requests byte stream by byte stream. The
  file system is shared by the handlers of all streams; a handler's state carries the one it works on.
  \<open>Stat\<close>, ids and encoders are those of the client's codec.

  The lemmas show that how the bytes are cut does not matter to the handler, and what it answers to each
  of the client's requests; the property puts the client and the handler together.
\<close>

subsection \<open>The file system\<close>

datatype node =
    File u32 i64 bytes  \<comment> \<open>mode, mtime, data\<close>
  | Dir u32 i64  \<comment> \<open>mode, mtime\<close>

type_synonym fs = "(str, node) btree"

definition mkdir :: "fs \<Rightarrow> str \<Rightarrow> u32 \<Rightarrow> i64 \<Rightarrow> fs" where
  "mkdir fs path perm mtime = bt_insert path (Dir (S_IFDIR OR perm) mtime) fs"

definition add_file :: "fs \<Rightarrow> str \<Rightarrow> u32 \<Rightarrow> i64 \<Rightarrow> bytes \<Rightarrow> fs" where
  "add_file fs path perm mtime data = bt_insert path (File (S_IFREG OR perm) mtime data) fs"

definition new_fs :: fs where
  "new_fs = mkdir (mkdir [] ''/'' 0x1ED 0) ''/sdcard'' 0x1F9 1700000000"

definition fs_get :: "fs \<Rightarrow> str \<Rightarrow> node option" where
  "fs_get fs path = map_of fs (max (trim_end_matches (\<lambda>c. c = CHR ''/'') path) ''/'')"

definition node_stat :: "node \<Rightarrow> stat" where
  "node_stat n =
     (let (mode, mtime, len) = (case n of
        File m t d \<Rightarrow> (m, t, word_of_nat (length d)) | Dir m t \<Rightarrow> (m, t, 4096)) in
      \<lparr>st_mode = mode, st_size = len, st_mtime = mtime, st_error = Some 0,
       st_detail = Some \<lparr>sd_dev = 1, sd_ino = 7, sd_nlink = 1, sd_uid = 2000, sd_gid = 2000,
         sd_atime = mtime, sd_ctime = mtime\<rparr>\<rparr>)"

definition fs_stat :: "fs \<Rightarrow> str \<Rightarrow> stat option" where
  "fs_stat fs path = map_option node_stat (fs_get fs path)"

definition fs_child :: "fs \<Rightarrow> str \<Rightarrow> str \<Rightarrow> (str \<times> stat) option" where
  "fs_child fs dir_prefix path =
     (case strip_prefix dir_prefix path of
        None \<Rightarrow> None
      | Some rest \<Rightarrow>
          if rest = [] \<or> CHR ''/'' \<in> set rest then None
          else map_option (\<lambda>st. (rest, st)) (fs_stat fs path))"

definition fs_list :: "fs \<Rightarrow> str \<Rightarrow> (str \<times> stat) list option" where
  "fs_list fs d =
     (let dir = trim_end_matches (\<lambda>c. c = CHR ''/'') d in
      case fs_get fs (if dir = [] then ''/'' else dir) of
        Some (Dir _ _) \<Rightarrow> Some (List.map_filter (fs_child fs (dir @ ''/'')) (map fst fs))
      | _ \<Rightarrow> None)"

definition fs_read :: "fs \<Rightarrow> str \<Rightarrow> bytes option" where
  "fs_read fs path = (case fs_get fs path of Some (File _ _ data) \<Rightarrow> Some data | _ \<Rightarrow> None)"

definition fs_parent :: "str \<Rightarrow> str option" where
  "fs_parent path = map_option (\<lambda>(p, _). if p = [] then ''/'' else p) (rsplit_once ''/'' path)"

definition cannot_create :: "str \<Rightarrow> str" where
  "cannot_create path = ''couldn't create file: No such file or directory ('' @ path @ '')''"

definition fs_write :: "fs \<Rightarrow> str \<Rightarrow> u32 \<Rightarrow> i64 \<Rightarrow> bytes \<Rightarrow> str + fs" where
  "fs_write fs path mode mtime data =
     (case Option.bind (fs_parent path) (fs_get fs) of
        Some (Dir _ _) \<Rightarrow> Inr (bt_insert path (File (S_IFREG OR (mode AND 0x1FF)) mtime data) fs)
      | _ \<Rightarrow> Inl (cannot_create path))"

subsection \<open>The handler\<close>

datatype peer_state =
    Idle
  | Receiving str u32 bytes  \<comment> \<open>path, mode, data\<close>
  | AwaitRecvSetup str
  | AwaitSendSetup str

record peer =
  pe_fs :: fs
  pe_buffer :: bytes
  pe_state :: peer_state
  pe_done :: bool

definition new_peer :: "fs \<Rightarrow> peer" where
  "new_peer fs = \<lparr>pe_fs = fs, pe_buffer = [], pe_state = Idle, pe_done = False\<rparr>"

definition LST2_ID :: bytes where "LST2_ID = as_bytes ''LST2''"

definition peer_fail :: "str \<Rightarrow> bytes" where
  "peer_fail msg = sync_word FAIL_ID (word_of_nat (length msg)) @ as_bytes msg"

definition empty_stat :: stat where
  "empty_stat = \<lparr>st_mode = 0, st_size = 0, st_mtime = 0, st_error = None, st_detail = None\<rparr>"

definition missing_stat :: stat where
  "missing_stat = \<lparr>st_mode = 0, st_size = 0, st_mtime = 0, st_error = Some 2, st_detail = None\<rparr>"

definition cannot_open :: "str \<Rightarrow> str" where
  "cannot_open path = ''open failed: No such file or directory ('' @ path @ '')''"

definition peer_recv :: "fs \<Rightarrow> str \<Rightarrow> bytes list" where
  "peer_recv fs path =
     (case fs_read fs path of
        None \<Rightarrow> [peer_fail (cannot_open path)]
      | Some data \<Rightarrow>
          map (\<lambda>c. sync_word DATA_ID (word_of_nat (length c)) @ c) (chunks DATA_MAX data) @ [sync_word DONE_ID 0])"

definition peer_stat :: "fs \<Rightarrow> bytes \<Rightarrow> str \<Rightarrow> bytes" where
  "peer_stat fs head path =
     (if head = STAT_ID then encode_stat_v1 STAT_ID (unwrap_or empty_stat (fs_stat fs path))
      else encode_stat_v2 head (unwrap_or missing_stat (fs_stat fs path)))"

definition peer_list :: "fs \<Rightarrow> bool \<Rightarrow> str \<Rightarrow> bytes list" where
  "peer_list fs v2 path =
     map (\<lambda>(name, st). (if v2 then encode_stat_v2 DNT2_ID st else encode_stat_v1 DENT_ID st)
            @ u32_to_le (word_of_nat (length name)) @ as_bytes name)
       (unwrap_or [] (fs_list fs path))
     @ [DONE_ID @ replicate ((if v2 then DENT_V2_LEN else DENT_V1_LEN) - 4) 0]"

definition send_target :: "str \<Rightarrow> peer_state" where
  "send_target path =
     (let (file, mode) = (case rsplit_once '','' path of None \<Rightarrow> (path, ''420'') | Some fm \<Rightarrow> fm) in
      Receiving file (case from_str_radix 10 (2 ^ 32) mode of None \<Rightarrow> 0x1A4 | Some m \<Rightarrow> word_of_nat m) [])"

definition unknown_request :: "bytes \<Rightarrow> str" where
  "unknown_request head = ''unknown request '' @ utf8_lossy head"

text \<open>The replies to a request and the state after it.\<close>

definition peer_request :: "fs \<Rightarrow> bytes \<Rightarrow> str \<Rightarrow> bytes list \<times> peer_state" where
  "peer_request fs head path =
     (if head = STAT_ID \<or> head = STA2_ID \<or> head = LST2_ID then ([peer_stat fs head path], Idle)
      else if head = LIST_ID \<or> head = LIS2_ID then (peer_list fs (head = LIS2_ID) path, Idle)
      else if head = RECV_ID then (peer_recv fs path, Idle)
      else if head = RCV2_ID then ([], AwaitRecvSetup path)
      else if head = SEND_ID then ([], send_target path)
      else if head = SND2_ID then ([], AwaitSendSetup path)
      else ([peer_fail (unknown_request head)], Idle))"

text \<open>\<open>Receiving\<close> on DONE: the file is written, and the reply says whether.\<close>

definition peer_store :: "fs \<Rightarrow> str \<Rightarrow> u32 \<Rightarrow> i64 \<Rightarrow> bytes \<Rightarrow> bytes \<times> fs" where
  "peer_store fs path mode mtime data =
     (case fs_write fs path mode mtime data of
        Inr fs' \<Rightarrow> (sync_word OKAY_ID 0, fs')
      | Inl e \<Rightarrow> (peer_fail e, fs))"

definition peer_step :: "peer \<Rightarrow> (bytes list \<times> bool) \<times> peer" where
  "peer_step p =
     (let b = pe_buffer p; fs = pe_fs p in
      if length b < 8 then (([], False), p)
      else
        let head = take 4 b; arg = unat (u32_from_le (take 4 (drop 4 b))) in
        case pe_state p of
          AwaitRecvSetup path \<Rightarrow> ((peer_recv fs path, True), p\<lparr>pe_state := Idle, pe_buffer := drop 8 b\<rparr>)
        | AwaitSendSetup path \<Rightarrow>
            if length b < 12 then (([], False), p)
            else (([], True), p\<lparr>pe_buffer := drop 12 b, pe_state := Receiving path (u32_from_le (take 4 (drop 4 b))) []\<rparr>)
        | Receiving path mode data \<Rightarrow>
            if head = DONE_ID then
              (let (reply, fs') = peer_store fs path mode (word_of_nat arg) data in
               (([reply], True), p\<lparr>pe_state := Idle, pe_buffer := drop 8 b, pe_fs := fs'\<rparr>))
            else if head \<noteq> DATA_ID \<or> length b < 8 + arg then (([], False), p)
            else (([], True), p\<lparr>pe_buffer := drop (8 + arg) b, pe_state := Receiving path mode (data @ take arg (drop 8 b))\<rparr>)
        | Idle \<Rightarrow>
            if head = QUIT_ID then (([], False), p\<lparr>pe_done := True\<rparr>)
            else if length b < 8 + arg then (([], False), p)
            else
              (let (answers, st) = peer_request fs head (utf8_lossy (take arg (drop 8 b))) in
               ((answers, True), p\<lparr>pe_state := st, pe_buffer := drop (8 + arg) b\<rparr>)))"

lemma peer_step_progress:
  "peer_step p = ((out, True), p') \<Longrightarrow> length (pe_buffer p') < length (pe_buffer p)"
  by (auto simp: peer_step_def Let_def split: if_splits peer_state.splits prod.splits)

text \<open>The loop of \<open>on_data\<close>: every round that makes progress consumes a part of the buffer.\<close>

function peer_loop :: "bytes list \<Rightarrow> peer \<Rightarrow> bytes list \<times> peer" where
  "peer_loop out p =
     (case peer_step p of ((answers, progressed), p') \<Rightarrow>
        if \<not> progressed then (out @ answers, p') else peer_loop (out @ answers) p')"
  by pat_completeness auto
termination
  by (relation "measure (\<lambda>(out, p). length (pe_buffer p))") (auto dest: peer_step_progress [OF sym])

declare peer_loop.simps [simp del]

definition on_data :: "peer \<Rightarrow> bytes \<Rightarrow> bytes list \<times> peer" where
  "on_data p data = peer_loop [] (p\<lparr>pe_buffer := pe_buffer p @ data\<rparr>)"

subsection \<open>Cutting the bytes\<close>

abbreviation feed :: "peer \<Rightarrow> bytes \<Rightarrow> peer" where
  "feed p x \<equiv> p\<lparr>pe_buffer := pe_buffer p @ x\<rparr>"

lemma peer_step_feed:
  "peer_step p = ((out, True), p') \<Longrightarrow> peer_step (feed p x) = ((out, True), feed p' x)"
  by (auto simp: peer_step_def Let_def not_less split: if_splits peer_state.splits prod.splits)

lemma peer_step_stuck:
  assumes "peer_step p = ((out, False), p')"
  shows "out = [] \<and> (p' = p \<or> p' = p\<lparr>pe_done := True\<rparr> \<and> 8 \<le> length (pe_buffer p)
     \<and> take 4 (pe_buffer p) = QUIT_ID \<and> pe_state p = Idle)"
proof (cases "pe_state p")
  case Idle
  with assms show ?thesis by (auto simp: peer_step_def Let_def not_less split: if_splits prod.splits)
qed (use assms in \<open>auto simp: peer_step_def Let_def split: if_splits prod.splits\<close>)

lemma peer_step_quit:
  "8 \<le> length (pe_buffer p) \<Longrightarrow> take 4 (pe_buffer p) = QUIT_ID \<Longrightarrow> pe_state p = Idle \<Longrightarrow>
     peer_step p = (([], False), p\<lparr>pe_done := True\<rparr>)"
  by (simp add: peer_step_def Let_def)

lemma peer_loop_stuck: "peer_step p = ((out, False), p') \<Longrightarrow> peer_loop acc p = (acc @ out, p')"
  by (simp add: peer_loop.simps [of acc p])

lemma peer_loop_on: "peer_step p = ((out, True), p') \<Longrightarrow> peer_loop acc p = peer_loop (acc @ out) p'"
  by (simp add: peer_loop.simps [of acc p])

lemma peer_loop_out: "peer_loop acc p = (acc @ fst (peer_loop [] p), snd (peer_loop [] p))"
proof (induction "length (pe_buffer p)" arbitrary: acc p rule: less_induct)
  case less
  obtain out progressed p' where step: "peer_step p = ((out, progressed), p')"
    by (metis surj_pair)
  show ?case
  proof (cases progressed)
    case False
    with step have "peer_step p = ((out, False), p')" by simp
    then show ?thesis by (simp add: peer_loop_stuck)
  next
    case True
    with step have on: "peer_step p = ((out, True), p')" by simp
    from less [OF peer_step_progress [OF on]] have "peer_loop a p' = (a @ fst (peer_loop [] p'), snd (peer_loop [] p'))" for a .
    from this [of "acc @ out"] this [of out] show ?thesis by (simp add: peer_loop_on [OF on])
  qed
qed

text \<open>Bytes that arrive in two parts are answered as if they had arrived at once.\<close>

lemma peer_loop_feed:
  "peer_loop [] (feed p x) =
     (let (o1, p1) = peer_loop [] p; (o2, p2) = peer_loop [] (feed p1 x) in (o1 @ o2, p2))"
proof (induction "length (pe_buffer p)" arbitrary: p rule: less_induct)
  case less
  obtain out progressed p' where step: "peer_step p = ((out, progressed), p')"
    by (metis surj_pair)
  show ?case
  proof (cases progressed)
    case False
    with step have stuck: "peer_step p = ((out, False), p')" by simp
    from peer_step_stuck [OF stuck] consider "out = []" "p' = p"
      | "out = []" "p' = p\<lparr>pe_done := True\<rparr>" "8 \<le> length (pe_buffer p)" "take 4 (pe_buffer p) = QUIT_ID" "pe_state p = Idle"
      by blast
    then show ?thesis
    proof cases
      case 1
      then show ?thesis by (simp add: peer_loop_stuck [OF stuck] split: prod.split)
    next
      case 2
      then have "peer_step (feed p x) = (([], False), feed p' x)" "peer_step (feed p' x) = (([], False), feed p' x)"
        by (simp_all add: peer_step_quit)
      then show ?thesis using 2(1) by (simp add: peer_loop_stuck [OF stuck] peer_loop_stuck)
    qed
  next
    case True
    with step have on: "peer_step p = ((out, True), p')" by simp
    have fed: "peer_step (feed p x) = ((out, True), feed p' x)" by (rule peer_step_feed [OF on])
    from less [OF peer_step_progress [OF on]] show ?thesis
      by (simp add: peer_loop_on [OF on] peer_loop_on [OF fed] peer_loop_out [of out] split: prod.splits)
  qed
qed

lemma on_data_append:
  "on_data p (a @ b) = (let (o1, p1) = on_data p a; (o2, p2) = on_data p1 b in (o1 @ o2, p2))"
  using peer_loop_feed [of "feed p a" b] by (simp add: on_data_def)

text \<open>The handler over bytes that arrive in any pieces, as the engine gives it those of one \<open>WRTE\<close> after the other.\<close>

fun on_datas :: "peer \<Rightarrow> bytes list \<Rightarrow> bytes list \<times> peer" where
  "on_datas p [] = ([], p)"
| "on_datas p (d # ds) = (let (o1, p1) = on_data p d; (o2, p2) = on_datas p1 ds in (o1 @ o2, p2))"

lemma on_datas_cut: "on_data p [] = ([], p) \<Longrightarrow> on_datas p ds = on_data p (concat ds)"
proof (induction ds arbitrary: p)
  case (Cons d ds)
  obtain o1 p1 where d: "on_data p d = (o1, p1)" by fastforce
  with on_data_append [of p d "[]"] have "on_data p1 [] = ([], p1)" by (simp split: prod.splits)
  with Cons.IH d show ?case by (simp add: on_data_append)
qed simp

subsection \<open>The requests of the client\<close>

text \<open>A handler between messages.\<close>

definition at_rest :: "fs \<Rightarrow> peer_state \<Rightarrow> peer" where
  "at_rest fs st = \<lparr>pe_fs = fs, pe_buffer = [], pe_state = st, pe_done = False\<rparr>"

lemma new_peer_rest: "new_peer fs = at_rest fs Idle"
  by (simp add: new_peer_def at_rest_def)

lemma new_peer_cut: "on_datas (new_peer fs) ds = on_data (new_peer fs) (concat ds)"
  by (rule on_datas_cut) (simp add: on_data_def new_peer_def peer_loop_stuck peer_step_def)

lemma on_data_one:
  assumes "peer_step (feed p m) = ((out, True), p')" and "pe_buffer p' = []"
  shows "on_data p m = (out, p')"
proof -
  have "peer_step p' = (([], False), p')" using assms(2) by (simp add: peer_step_def)
  then show ?thesis by (simp add: on_data_def peer_loop_on [OF assms(1)] peer_loop_stuck)
qed

lemma sync_peer_ids [simp]:
  "QUIT_ID \<noteq> STAT_ID" "STAT_ID \<noteq> QUIT_ID" "STA2_ID \<noteq> QUIT_ID" "LIST_ID \<noteq> QUIT_ID" "LIS2_ID \<noteq> QUIT_ID" "RECV_ID \<noteq> QUIT_ID"
  "RCV2_ID \<noteq> QUIT_ID" "SEND_ID \<noteq> QUIT_ID" "SND2_ID \<noteq> QUIT_ID" "STA2_ID \<noteq> STAT_ID" "LIS2_ID \<noteq> LIST_ID" "LIST_ID \<noteq> LIS2_ID"
  by (simp_all add: sync_ids del: list.map)

lemma peer_request_simps:
  "peer_request fs STAT_ID path = ([peer_stat fs STAT_ID path], Idle)"
  "peer_request fs STA2_ID path = ([peer_stat fs STA2_ID path], Idle)"
  "peer_request fs LIST_ID path = (peer_list fs False path, Idle)"
  "peer_request fs LIS2_ID path = (peer_list fs True path, Idle)"
  "peer_request fs RECV_ID path = (peer_recv fs path, Idle)"
  "peer_request fs RCV2_ID path = ([], AwaitRecvSetup path)"
  "peer_request fs SEND_ID path = ([], send_target path)"
  "peer_request fs SND2_ID path = ([], AwaitSendSetup path)"
proof -
  have "RECV_ID \<notin> {STAT_ID, STA2_ID, LST2_ID, LIST_ID, LIS2_ID}" "LIST_ID \<notin> {STAT_ID, STA2_ID, LST2_ID}"
    "LIS2_ID \<notin> {STAT_ID, STA2_ID, LST2_ID, LIST_ID}" "RCV2_ID \<notin> {STAT_ID, STA2_ID, LST2_ID, LIST_ID, LIS2_ID, RECV_ID}"
    "SEND_ID \<notin> {STAT_ID, STA2_ID, LST2_ID, LIST_ID, LIS2_ID, RECV_ID, RCV2_ID}"
    "SND2_ID \<notin> {STAT_ID, STA2_ID, LST2_ID, LIST_ID, LIS2_ID, RECV_ID, RCV2_ID, SEND_ID}"
    by (simp_all add: sync_ids LST2_ID_def del: list.map)
  then show
    "peer_request fs STAT_ID path = ([peer_stat fs STAT_ID path], Idle)"
    "peer_request fs STA2_ID path = ([peer_stat fs STA2_ID path], Idle)"
    "peer_request fs LIST_ID path = (peer_list fs False path, Idle)"
    "peer_request fs LIS2_ID path = (peer_list fs True path, Idle)"
    "peer_request fs RECV_ID path = (peer_recv fs path, Idle)"
    "peer_request fs RCV2_ID path = ([], AwaitRecvSetup path)"
    "peer_request fs SEND_ID path = ([], send_target path)"
    "peer_request fs SND2_ID path = ([], AwaitSendSetup path)"
    by (simp_all add: peer_request_def)
qed

lemma peer_asked:
  assumes "length i = 4" and "i \<noteq> QUIT_ID" and "length path < 2 ^ 32" and "wf_str path"
  shows "on_data (at_rest fs Idle) (request_bytes i path)
     = (fst (peer_request fs i path), at_rest fs (snd (peer_request fs i path)))"
proof (rule on_data_one)
  have len: "unat (word_of_nat (length path) :: u32) = length path" using assms(3) by (simp add: unat_u32_of_nat)
  then show "peer_step (feed (at_rest fs Idle) (request_bytes i path))
     = ((fst (peer_request fs i path), True), at_rest fs (snd (peer_request fs i path)))"
    using assms
    by (simp add: peer_step_def Let_def at_rest_def request_bytes_def utf8_lossy_str split: prod.split)
qed (simp add: at_rest_def)

lemma peer_recv_setup: "on_data (at_rest fs (AwaitRecvSetup path)) (sync_word RCV2_ID 0) = (peer_recv fs path, at_rest fs Idle)"
  by (rule on_data_one) (simp_all add: peer_step_def Let_def at_rest_def sync_word_def)

lemma peer_send_setup:
  "on_data (at_rest fs (AwaitSendSetup path)) (sync_word SND2_ID mode @ u32_to_le 0) = ([], at_rest fs (Receiving path mode []))"
  by (rule on_data_one) (simp_all add: peer_step_def Let_def at_rest_def sync_word_def)

lemma peer_data:
  assumes "length d \<le> DATA_MAX"
  shows "on_data (at_rest fs (Receiving path mode data)) (data_frame d) = ([], at_rest fs (Receiving path mode (data @ d)))"
proof -
  have "unat (word_of_nat (length d) :: u32) = length d" using assms by (simp add: unat_u32_of_nat DATA_MAX_def)
  then show ?thesis
    by (intro on_data_one) (simp_all add: peer_step_def Let_def at_rest_def data_frame_def sized_def)
qed

lemma peer_done:
  "on_data (at_rest fs (Receiving path mode data)) (sync_word DONE_ID t)
     = ([fst (peer_store fs path mode (ucast t) data)], at_rest (snd (peer_store fs path mode (ucast t) data)) Idle)"
  by (rule on_data_one) (simp_all add: peer_step_def Let_def at_rest_def sync_word_def split: prod.split)

lemma peer_datas:
  "\<forall>d \<in> set pieces. length d \<le> DATA_MAX \<Longrightarrow>
     on_data (at_rest fs (Receiving path mode data)) (concat (map data_frame pieces))
       = ([], at_rest fs (Receiving path mode (data @ concat pieces)))"
proof (induction pieces arbitrary: data)
  case Nil
  have "peer_step (at_rest fs (Receiving path mode data)) = (([], False), at_rest fs (Receiving path mode data))"
    by (simp add: peer_step_def at_rest_def)
  then show ?case by (simp add: on_data_def peer_loop_stuck at_rest_def)
next
  case (Cons d pieces)
  then show ?case by (simp add: on_data_append peer_data)
qed

text \<open>A pull.\<close>

lemma peer_pulled:
  assumes "length path < 2 ^ 32" and "wf_str path"
  shows "on_data (new_peer fs) (pull_request F path) = (peer_recv fs path, new_peer fs)"
  using peer_asked [OF _ _ assms, of RCV2_ID fs] peer_asked [OF _ _ assms, of RECV_ID fs]
  by (simp add: pull_request_def on_data_append peer_request_simps peer_recv_setup new_peer_rest)

text \<open>A push.\<close>

lemma safe_get_cells:
  "safe_get (b # bs) 0 = b" "safe_get [b] 1 = 0" "safe_get [b, x] 2 = 0" "safe_get [b, x, y] 3 = 0" "safe_get [b] 2 = 0"
  "safe_get [b] 3 = 0" "safe_get [b, x] 3 = 0"
  "safe_get (b # x # bs) 1 = x" "safe_get (b # x # y # bs) 2 = y" "safe_get (b # x # y # z # bs) 3 = z"
  by (simp_all add: safe_get_def numeral_2_eq_2 numeral_3_eq_3)

lemmas safe_get_simps = safe_get_cells safe_get_cells [unfolded One_nat_def]

lemma no_continuation [simp]: "\<not> is_cont 0" "\<not> (0xA0 :: u8) \<le> 0" "\<not> (0x80 :: u8) \<le> 0" "\<not> (0x90 :: u8) \<le> 0"
  by (simp_all add: is_cont_def)

text \<open>A well-formed sequence is one whatever follows it.\<close>

lemma utf8_unit_append:
  assumes "fst (utf8_unit (b # bs))"
  shows "utf8_unit (b # bs @ ys) = utf8_unit (b # bs) \<and> snd (utf8_unit (b # bs)) \<le> length (b # bs)"
proof -
  consider "b < 0x80" | "\<not> b < 0x80" "0xC2 \<le> b \<and> b \<le> 0xDF"
    | "\<not> b < 0x80" "\<not> (0xC2 \<le> b \<and> b \<le> 0xDF)" "0xE0 \<le> b \<and> b \<le> 0xEF"
    | "\<not> b < 0x80" "\<not> (0xC2 \<le> b \<and> b \<le> 0xDF)" "\<not> (0xE0 \<le> b \<and> b \<le> 0xEF)" "0xF0 \<le> b \<and> b \<le> 0xF4"
    | "\<not> b < 0x80" "\<not> (0xC2 \<le> b \<and> b \<le> 0xDF)" "\<not> (0xE0 \<le> b \<and> b \<le> 0xEF)" "\<not> (0xF0 \<le> b \<and> b \<le> 0xF4)"
    by blast
  then show ?thesis
  proof cases
    case 1
    then show ?thesis by (simp add: utf8_unit_ascii)
  next
    case 2
    note unit = utf8_unit_def [of "b # cs" for cs, unfolded Let_def safe_get_cells if_not_P [OF 2(1)] if_P [OF 2(2)]]
    show ?thesis using assms unfolding unit by (cases bs) (simp_all add: safe_get_simps split: if_splits)
  next
    case 3
    note unit = utf8_unit_def [of "b # cs" for cs, unfolded Let_def safe_get_cells if_not_P [OF 3(1)] if_not_P [OF 3(2)] if_P [OF 3(3)]]
    consider "bs = []" | x where "bs = [x]" | x y zs where "bs = x # y # zs" by (metis list.exhaust)
    then show ?thesis
      using assms unfolding unit by cases (simp_all add: safe_get_simps split: if_splits)
  next
    case 4
    note unit = utf8_unit_def [of "b # cs" for cs, unfolded Let_def safe_get_cells if_not_P [OF 4(1)] if_not_P [OF 4(2)]
        if_not_P [OF 4(3)] if_P [OF 4(4)]]
    consider "bs = []" | x where "bs = [x]" | x y where "bs = [x, y]" | x y z zs where "bs = x # y # z # zs" by (metis list.exhaust)
    then show ?thesis
      using assms unfolding unit by cases (simp_all add: safe_get_simps split: if_splits)
  next
    case 5
    note unit = utf8_unit_def [of "b # cs" for cs, unfolded Let_def safe_get_cells if_not_P [OF 5(1)] if_not_P [OF 5(2)]
        if_not_P [OF 5(3)] if_not_P [OF 5(4)]]
    show ?thesis using assms unfolding unit by simp
  qed
qed

lemma valid_utf8_append: "valid_utf8 a \<Longrightarrow> valid_utf8 b \<Longrightarrow> valid_utf8 (a @ b)"
proof (induction a rule: valid_utf8.induct)
  case (2 x xs)
  then have unit: "fst (utf8_unit (x # xs))" and rest: "valid_utf8 (drop (snd (utf8_unit (x # xs))) (x # xs))"
    by (simp_all add: valid_utf8.simps(2))
  note same = utf8_unit_append [OF unit, THEN conjunct1, of b] utf8_unit_append [OF unit, THEN conjunct2]
  have "drop (snd (utf8_unit (x # xs))) (x # xs @ b) = drop (snd (utf8_unit (x # xs))) (x # xs) @ b"
    using same(2) drop_append [of "snd (utf8_unit (x # xs))" "x # xs" b] by simp
  with "2.IH" [OF rest "2.prems"(2)] unit same(1) show ?case
    by (simp only: append_Cons valid_utf8.simps(2) simp_thms)
qed simp

lemma valid_utf8_ascii: "\<forall>b \<in> set bs. b < 0x80 \<Longrightarrow> valid_utf8 bs"
  by (induction bs) simp_all

lemma wf_str_dec: "wf_str (dec_of_nat n)"
proof (rule valid_utf8_ascii, rule ballI)
  fix b
  assume "b \<in> set (as_bytes (dec_of_nat n))"
  then obtain c where c: "c \<in> set (dec_of_nat n)" "b = byte_of c" by auto
  with dec_of_nat_digits obtain d where "d < 10" "c = dec_digit d" by blast
  then have "unat b < 128" by (simp add: c(2) unat_byte_of dec_digit_def)
  then show "b < 0x80" by (simp add: word_less_nat_alt)
qed

lemma send_target_path: "send_target (path @ '','' @ dec_of_nat (unat mode)) = Receiving path mode []"
proof -
  have "CHR '','' \<notin> set (dec_of_nat (unat mode))"
  proof
    assume "CHR '','' \<in> set (dec_of_nat (unat mode))"
    with dec_of_nat_digits obtain d where "d < 10" "CHR '','' = dec_digit d" by blast
    then have "(of_char (CHR '','') :: nat) = 48 + d" by (simp only: dec_digit_def of_char_of) simp
    then show False by simp
  qed
  then have "rsplit_once '','' (path @ CHR '','' # dec_of_nat (unat mode)) = Some (path, dec_of_nat (unat mode))"
    by (rule rsplit_once_single)
  then show ?thesis using unat_u32_bound [of mode] by (simp add: send_target_def from_dec)
qed

lemma peer_push_request:
  assumes "length (path @ '','' @ dec_of_nat (unat mode)) < 2 ^ 32" and "wf_str path"
  shows "on_data (new_peer fs) (push_request F path mode) = ([], at_rest fs (Receiving path mode []))"
proof -
  let ?arg = "path @ '','' @ dec_of_nat (unat mode)"
  have "wf_str '',''" by (rule valid_utf8_ascii) (simp add: word_less_nat_alt unat_byte_of)
  then have "wf_str ?arg"
    using valid_utf8_append [OF assms(2) valid_utf8_append [OF _ wf_str_dec]] by (simp only: map_append)
  from peer_asked [OF _ _ assms(1) this, of SEND_ID fs]
  have v1: "on_data (at_rest fs Idle) (request_bytes SEND_ID ?arg) = ([], at_rest fs (Receiving path mode []))"
    by (simp add: peer_request_simps send_target_path [simplified])
  have "length path < 2 ^ 32" using assms(1) by simp
  from peer_asked [OF _ _ this assms(2), of SND2_ID fs] v1 show ?thesis
    by (simp add: push_request_def on_data_append [of _ "request_bytes SND2_ID path"] peer_request_simps peer_send_setup
        new_peer_rest)
qed

lemma peer_pushed:
  assumes "length (path @ '','' @ dec_of_nat (unat mode)) < 2 ^ 32" and "wf_str path"
    and "\<forall>d \<in> set pieces. length d \<le> DATA_MAX"
  shows "on_data (new_peer fs) (push_request F path mode @ concat (map data_frame pieces) @ sync_word DONE_ID mtime)
     = ([fst (peer_store fs path mode (ucast mtime) (concat pieces))],
        new_peer (snd (peer_store fs path mode (ucast mtime) (concat pieces))))"
  by (simp add: on_data_append peer_push_request [OF assms(1,2), unfolded new_peer_rest] peer_datas [OF assms(3)] peer_done
      new_peer_rest)

lemma peer_quit:
  "on_data (at_rest fs Idle) (sync_word QUIT_ID 0) = ([], \<lparr>pe_fs = fs, pe_buffer = sync_word QUIT_ID 0, pe_state = Idle, pe_done = True\<rparr>)"
proof -
  have "peer_step (feed (at_rest fs Idle) (sync_word QUIT_ID 0))
      = (([], False), \<lparr>pe_fs = fs, pe_buffer = sync_word QUIT_ID 0, pe_state = Idle, pe_done = True\<rparr>)"
    by (simp add: peer_step_def Let_def at_rest_def sync_word_def)
  then show ?thesis by (simp add: on_data_def peer_loop_stuck)
qed

text \<open>A stat and a listing.\<close>

lemma peer_stated:
  assumes "length path < 2 ^ 32" and "wf_str path"
  shows "on_data (new_peer fs) (stat_request F path)
     = ([stat_reply F (unwrap_or (if stat_v2_ok F then missing_stat else empty_stat) (fs_stat fs path))], new_peer fs)"
  using peer_asked [OF _ _ assms, of STA2_ID fs] peer_asked [OF _ _ assms, of STAT_ID fs]
  by (simp add: stat_request_def stat_reply_def peer_request_simps peer_stat_def new_peer_rest)

lemma peer_listed:
  assumes "length path < 2 ^ 32" and "wf_str path"
  shows "concat (fst (on_data (new_peer fs) (request_bytes (list_request_id F) path)))
       = listing F (map (\<lambda>(name, st). (st, as_bytes name)) (unwrap_or [] (fs_list fs path)))"
    and "snd (on_data (new_peer fs) (request_bytes (list_request_id F) path)) = new_peer fs"
proof -
  have "dent F (case x of (name, st) \<Rightarrow> (st, as_bytes name)) = (case x of (name, st) \<Rightarrow>
      (if ls_v2 F then encode_stat_v2 DNT2_ID st else encode_stat_v1 DENT_ID st)
        @ u32_to_le (word_of_nat (length name)) @ as_bytes name)" for x
    by (cases x) (simp add: dent_def sized_def)
  then have "concat (peer_list fs (ls_v2 F) path)
      = listing F (map (\<lambda>(name, st). (st, as_bytes name)) (unwrap_or [] (fs_list fs path)))"
    by (simp add: peer_list_def listing_def dent_len_def comp_def del: if_image_distrib)
  moreover have "on_data (new_peer fs) (request_bytes (list_request_id F) path) = (peer_list fs (ls_v2 F) path, new_peer fs)"
    using peer_asked [OF _ _ assms, of LIS2_ID fs] peer_asked [OF _ _ assms, of LIST_ID fs]
    by (simp add: list_request_id_def peer_request_simps new_peer_rest)
  ultimately show "concat (fst (on_data (new_peer fs) (request_bytes (list_request_id F) path)))
       = listing F (map (\<lambda>(name, st). (st, as_bytes name)) (unwrap_or [] (fs_list fs path)))"
    and "snd (on_data (new_peer fs) (request_bytes (list_request_id F) path)) = new_peer fs"
    by simp_all
qed

subsection \<open>What the file system holds\<close>

text \<open>A path in the form the file system keeps it.\<close>

definition plain_path :: "str \<Rightarrow> bool" where
  "plain_path path \<longleftrightarrow> wf_str path \<and> hd path = CHR ''/'' \<and> length path > 1 \<and> last path \<noteq> CHR ''/''"

lemma fs_get_plain: "plain_path path \<Longrightarrow> fs_get fs path = map_of fs path"
proof -
  assume path: "plain_path path"
  then obtain c cs where cs: "path = CHR ''/'' # c # cs"
    by (cases path rule: list.exhaust; cases "tl path") (auto simp: plain_path_def)
  have "trim_end_matches (\<lambda>c. c = CHR ''/'') path = path"
    using path by (simp add: trim_end_matches_id plain_path_def)
  moreover have "max path ''/'' = path" by (simp add: cs max_def)
  ultimately show ?thesis by (simp add: fs_get_def)
qed

lemma fs_write_read:
  assumes "fs_write fs path mode mtime data = Inr fs'" and "plain_path path"
  shows "fs_read fs' path = Some data"
    and "fs_stat fs' path = Some (node_stat (File (S_IFREG OR (mode AND 0x1FF)) mtime data))"
    and "plain_path q \<Longrightarrow> q \<noteq> path \<Longrightarrow> fs_get fs' q = fs_get fs q"
    and "bt_wf fs \<Longrightarrow> bt_wf fs'"
proof -
  have "fs' = bt_insert path (File (S_IFREG OR (mode AND 0x1FF)) mtime data) fs"
    using assms(1) by (auto simp: fs_write_def split: option.splits node.splits)
  then show "fs_read fs' path = Some data"
    and "fs_stat fs' path = Some (node_stat (File (S_IFREG OR (mode AND 0x1FF)) mtime data))"
    and "plain_path q \<Longrightarrow> q \<noteq> path \<Longrightarrow> fs_get fs' q = fs_get fs q"
    and "bt_wf fs \<Longrightarrow> bt_wf fs'"
    using assms(2) by (simp_all add: fs_read_def fs_stat_def fs_get_plain)
qed

lemma peer_recv_bytes:
  "concat (peer_recv fs path) = (case fs_read fs path of
      None \<Rightarrow> fail_frame (as_bytes (cannot_open path))
    | Some data \<Rightarrow> concat (map data_frame (chunks DATA_MAX data)) @ sync_word DONE_ID 0)"
proof -
  have "(\<lambda>c. sync_word DATA_ID (word_of_nat (length c)) @ c) = data_frame"
    by (rule ext) (simp add: data_frame_def sized_def sync_word_def)
  then show ?thesis
    by (simp add: peer_recv_def peer_fail_def fail_frame_def sized_def sync_word_def split: option.split)
qed

subsection \<open>Client and device\<close>

text \<open>The bytes of a push with its content cut into the largest chunks.\<close>

definition upload :: "sync_features \<Rightarrow> str \<Rightarrow> u32 \<Rightarrow> u32 \<Rightarrow> bytes \<Rightarrow> bytes" where
  "upload F path mode mtime data =
     push_request F path mode @ concat (map data_frame (chunks DATA_MAX data)) @ sync_word DONE_ID mtime"

lemma DATA_MAX_pos: "0 < DATA_MAX"
  by (simp add: DATA_MAX_def)

lemma peer_uploaded:
  assumes "length (path @ '','' @ dec_of_nat (unat mode)) < 2 ^ 32" and "wf_str path"
  shows "on_data (new_peer fs) (upload F path mode mtime data)
     = ([fst (peer_store fs path mode (ucast mtime) data)], new_peer (snd (peer_store fs path mode (ucast mtime) data)))"
  using chunks_props [OF DATA_MAX_pos, of data] peer_pushed [OF assms, of "chunks DATA_MAX data"] by (simp add: upload_def)

text \<open>A stat of a file just pushed.\<close>

lemma pushed_stat:
  assumes "host_connection N avail out" and "device_sync N s = Some (Inr ((), F), s1)"
    and "plain_path path" and "length path < 2 ^ 32" and "fs_write fs path mode mtime data = Inr fs'"
    and "avail (hc_in (dv_world s1)) = concat (fst (on_data (new_peer fs') (stat_request F path))) @ rest"
  shows "\<exists>s'. device_stat N path s
     = Some (Inr (seen (stat_v2_ok F) (node_stat (File (S_IFREG OR (mode AND 0x1FF)) mtime data))), s')"
proof -
  have "avail (hc_in (dv_world s1)) = stat_reply F (node_stat (File (S_IFREG OR (mode AND 0x1FF)) mtime data)) @ rest"
    using assms(3,4,6) fs_write_read(2) [OF assms(5,3)]
    by (simp add: peer_stated plain_path_def unwrap_or_def)
  from stat_fields [OF assms(1,2) this assms(4)] show ?thesis by blast
qed

text \<open>A push into a directory that does not exist.\<close>

lemma pushed_nowhere:
  assumes "host_connection N avail out" and "device_sync N s = Some (Inr ((), F), s1)"
    and "length (path @ '','' @ dec_of_nat (unat mode)) < 2 ^ 32" and "wf_str path"
    and "fs_write fs path mode (ucast mtime) data = Inl msg" and "length msg < 2 ^ 32"
    and "avail (hc_in (dv_world s1)) = concat (fst (on_data (new_peer fs) (upload F path mode mtime data))) @ rest"
  shows "\<exists>s'. push_bytes N data path mode mtime s = Some (Inl (RemoteFailure (Lit (utf8_lossy (as_bytes msg)))), s')"
proof -
  have reply: "avail (hc_in (dv_world s1)) = fail_frame (as_bytes msg) @ rest"
    using assms(5,7) by (simp add: peer_uploaded [OF assms(3,4)] peer_store_def peer_fail_def fail_frame_def sized_def sync_word_def)
  show ?thesis
    using push_bytes_delivers [OF assms(1,2) reply, where msg = "as_bytes msg" and goodbye = "[]" and data = data
        and mtime = mtime and res = "Inl (RemoteFailure (Lit (utf8_lossy (as_bytes msg))))", OF _ assms(3)] assms(6)
    by auto
qed

text \<open>
  C32: client and device side together, over any byte streams and any features on either connection:
  when a file is pushed to the crate's device, into a directory that exists, the push succeeds and the
  bytes sent make the device store the file, with the mode and the time; a pull from it, later,
  returns exactly the content pushed. The device's handler may be given the bytes in any pieces.
\<close>

theorem push_then_pull:
  assumes "host_connection N avail out" and "device_sync N s = Some (Inr ((), F), s1)"
    and "host_connection N2 avail2 out2" and "device_sync N2 t = Some (Inr ((), F2), t1)"
    and "plain_path path" and "length (path @ '','' @ dec_of_nat (unat mode)) < 2 ^ 32"
    and "fs_write fs path mode (ucast mtime) data = Inr fs'"
    and "concat ups = upload F path mode mtime data" and "concat downs = pull_request F2 path"
    and "avail (hc_in (dv_world s1)) = concat (fst (on_datas (new_peer fs) ups)) @ rest"
    and "avail2 (hc_in (dv_world t1)) = concat (fst (on_datas (new_peer fs') downs)) @ rest2"
  shows "\<exists>s' t' req. push_bytes N data path mode mtime s = Some (Inr (), s')
     \<and> out (hc_out (dv_world s')) = out (hc_out (dv_world s1)) @ req
     \<and> (\<forall>cuts. concat cuts = req \<longrightarrow>
          pe_fs (snd (on_datas (new_peer fs) cuts)) = fs' \<and> pe_done (snd (on_datas (new_peer fs) cuts)))
     \<and> pull_bytes N2 path t = Some (Inr data, t')
     \<and> out2 (hc_out (dv_world t')) = out2 (hc_out (dv_world t1)) @ pull_request F2 path"
proof -
  have path: "wf_str path" "length path < 2 ^ 32" using assms(5,6) by (simp_all add: plain_path_def)
  have stored: "peer_store fs path mode (ucast mtime) data = (sync_word OKAY_ID 0, fs')"
    using assms(7) by (simp add: peer_store_def)
  have okay: "avail (hc_in (dv_world s1)) = sync_word OKAY_ID 0 @ rest"
    using assms(10) by (simp add: new_peer_cut assms(8) peer_uploaded [OF assms(6) path(1)] stored)
  obtain s' pieces where push: "push_bytes N data path mode mtime s = Some (Inr (), s')" "concat pieces = data"
    "\<forall>d \<in> set pieces. d \<noteq> [] \<and> length d \<le> DATA_MAX"
    "out (hc_out (dv_world s')) = out (hc_out (dv_world s1)) @ (push_request F path mode
       @ concat (map data_frame pieces) @ sync_word DONE_ID mtime) @ sync_word QUIT_ID 0"
    using push_bytes_delivers [OF assms(1,2) okay _ assms(6), where goodbye = "sync_word QUIT_ID 0" and n = 0
        and res = "Inr ()" and data = data and mtime = mtime] by auto
  let ?req = "(push_request F path mode @ concat (map data_frame pieces) @ sync_word DONE_ID mtime) @ sync_word QUIT_ID 0"
  have "on_data (new_peer fs) (push_request F path mode @ concat (map data_frame pieces) @ sync_word DONE_ID mtime)
      = ([sync_word OKAY_ID 0], new_peer fs')"
    using peer_pushed [OF assms(6) path(1), of pieces] push(2,3) stored by simp
  then have "snd (on_data (new_peer fs) ?req)
      = \<lparr>pe_fs = fs', pe_buffer = sync_word QUIT_ID 0, pe_state = Idle, pe_done = True\<rparr>"
    by (simp only: on_data_append [of _ "_ @ _ @ _"] Let_def split new_peer_rest peer_quit snd_conv)
  then have device: "\<forall>cuts. concat cuts = ?req \<longrightarrow>
      pe_fs (snd (on_datas (new_peer fs) cuts)) = fs' \<and> pe_done (snd (on_datas (new_peer fs) cuts))"
    by (simp only: new_peer_cut) simp
  have "avail2 (hc_in (dv_world t1)) = concat (map data_frame (chunks DATA_MAX data)) @ sync_word DONE_ID 0 @ rest2"
    using assms(11) fs_write_read(1) [OF assms(7,5)]
    by (simp add: new_peer_cut assms(9) peer_pulled [OF path(2,1)] peer_recv_bytes)
  then obtain t' where "pull_bytes N2 path t = Some (Inr data, t')"
    "out2 (hc_out (dv_world t')) = out2 (hc_out (dv_world t1)) @ pull_request F2 path"
    using pull_bytes_content [OF assms(3,4) _ _ path(2), where pieces = "chunks DATA_MAX data" and t = 0 and rest = rest2]
      chunks_props [OF DATA_MAX_pos, of data] by auto
  with push(1,4) device show ?thesis by (intro exI [of _ s'] exI [of _ t'] exI [of _ ?req]) simp
qed

theorem push_then_pull_witness:
  "\<exists>s' t'. let up = upload (from_features [''ls_v2'', ''sendrecv_v2'']) ''/sdcard/a'' 0x81A4 9 [1, 2, 3];
         down = pull_request (from_features [''ls_v2'', ''sendrecv_v2'']) ''/sdcard/a'';
         stored = add_file new_fs ''/sdcard/a'' 0x1A4 9 [1, 2, 3] in
     push_bytes sample_connection [1, 2, 3] ''/sdcard/a'' 0x81A4 9
       (sample_sync (fst (on_datas (new_peer new_fs) [take 5 up, drop 5 up]))) = Some (Inr (), s')
     \<and> pe_fs (snd (on_datas (new_peer new_fs) (map (\<lambda>b. [b]) (hc_out (dv_world s'))))) = stored
     \<and> pull_bytes sample_connection ''/sdcard/a''
         (sample_sync (fst (on_datas (new_peer stored) [take 9 down, drop 9 down]))) = Some (Inr [1, 2, 3], t')"
proof -
  have wf: "wf_str ''/sdcard/a''" by (rule valid_utf8_ascii) (simp add: word_less_nat_alt unat_byte_of)
  have path: "plain_path ''/sdcard/a''" using wf by (simp add: plain_path_def)
  have small: "length (''/sdcard/a'' @ '','' @ dec_of_nat (unat (0x81A4 :: u32))) < 2 ^ 32"
    by (simp add: dec_of_nat.simps)
  let ?stored = "add_file new_fs ''/sdcard/a'' 0x1A4 9 [1, 2, 3]"
  have stored: "fs_write new_fs ''/sdcard/a'' 0x81A4 (ucast (9 :: u32)) [1, 2, 3] = Inr ?stored"
    by code_simp
  let ?F = "from_features [''ls_v2'', ''sendrecv_v2'']"
  define up down where "up = upload ?F ''/sdcard/a'' 0x81A4 9 [1, 2, 3]" and "down = pull_request ?F ''/sdcard/a''"
  have cuts: "concat [take 5 up, drop 5 up] = upload ?F ''/sdcard/a'' 0x81A4 9 [1, 2, 3]"
    "concat [take 9 down, drop 9 down] = pull_request ?F ''/sdcard/a''" by (simp_all add: up_def down_def)
  let ?s = "fst (on_datas (new_peer new_fs) [take 5 up, drop 5 up])"
  let ?t = "fst (on_datas (new_peer ?stored) [take 9 down, drop 9 down])"
  have each: "concat (map (\<lambda>b. [b]) bs) = bs" for bs :: bytes by (induction bs) simp_all
  from push_then_pull [OF sample_connection_ok sample_sync_open [of ?s] sample_connection_ok sample_sync_open [of ?t]
      path small stored cuts, of "[]" "[]"] each
  have "\<exists>s' t'. push_bytes sample_connection [1, 2, 3] ''/sdcard/a'' 0x81A4 9 (sample_sync ?s) = Some (Inr (), s')
     \<and> pe_fs (snd (on_datas (new_peer new_fs) (map (\<lambda>b. [b]) (hc_out (dv_world s'))))) = ?stored
     \<and> pull_bytes sample_connection ''/sdcard/a'' (sample_sync ?t) = Some (Inr [1, 2, 3], t')"
    by (auto simp del: on_datas.simps)
  then show ?thesis by (simp only: Let_def up_def down_def)
qed

end
