(* ===== verification/Query.thy ===== *)
theory Query
  imports Host
begin

section \<open>A content query through the shell\<close>

text \<open>
  \<open>Device::content_query_with\<close> of \<open>src/device/mod.rs\<close> from the printed table to the rows: two shell
  commands, the parser of \<open>services/content.rs\<close> on the output of the first, and its row count checked
  against the output of the second.
\<close>

lemma stdout_text_printed: "stdout out = as_bytes s \<Longrightarrow> wf_str s \<Longrightarrow> stdout_text out = s"
  by (simp add: stdout_text_def utf8_lossy_str)

lemma shell_checked_run:
  "device_shell N cmd s = Some (Inr out, s1) \<Longrightarrow>
     shell_checked N cmd s = Some (if success out then Inr out else Inl (command_failed cmd out), s1)"
  by (simp add: shell_checked_def and_then_ok)

lemma count_printed_rows:
  assumes "\<forall>r \<in> set rs. row_ok cols r" and "cols \<noteq> []" and "\<forall>c \<in> set cols. CHR 0x0A \<notin> set c"
  shows "count_rows (concat (map (print_row cols) rs)) = length rs"
  using content_rows_counted [OF content_roundtrip [OF assms]] by simp

subsection \<open>A shell without \<open>shell_v2\<close> behind the server\<close>

lemma server_shell_v1_run:
  assumes R: "reads_bytes (nw_read W) avail" and O: "writes_bytes (nw_write W) out" and S: "shuts_down shutdown out"
    and opens: "nw_connect W n = Some (Inr (r, w), n1)" "nw_nodelay W (r, w) n1 = Some (Inr (), n2)"
      "avail r = as_bytes ''OKAY'' @ as_bytes ''OKAY'' @ bs"
    and small: "length (transport_request sr) \<le> 0xFFFF" "length (''shell:'' @ cmd) \<le> 0xFFFF"
    and "CHR 0x00 \<notin> set cmd" and "SHELL_V2_FEATURE \<notin> set fts"
  shows "\<exists>n'. device_shell (host_device W shutdown sr) cmd \<lparr>dv_world = n, dv_features = Some fts\<rparr>
     = Some (Inr \<lparr>stdout = bs, stderr = [], exit_code = None\<rparr>, \<lparr>dv_world = n', dv_features = Some fts\<rparr>)"
proof -
  let ?N = "host_device W shutdown sr"
  obtain c where c: "cn_open ?N (''shell:'' @ cmd) n = Some (Inr (), c)" "avail (hc_in c) = bs"
    using host_open_run [OF R O opens small] by blast
  have ch: "cn_channel ?N = host_channel_ops (nw_read W) (nw_write W) shutdown" by (simp add: host_device_def)
  obtain n' where "drain (cn_channel ?N) () c = Some (Inr bs, n')"
    using channel.drain_all [OF host_channel_contract [OF R O S] TrueI TrueI, of c] by (auto simp: ch c(2))
  with c(1) have "shell ?N fts cmd n = Some (Inr \<lparr>stdout = bs, stderr = [], exit_code = None\<rparr>, n')"
    using assms(9,10) by (simp add: shell_def shell_v1_def check_command_def open_and_drain_def and_then_ok)
  then show ?thesis by (simp add: device_shell_def device_features_def and_then_ok on_conn_run)
qed

subsection \<open>Properties\<close>

text \<open>
  When the device prints a table for the query and the list of its ids for the second command, the
  query gives the rows of the table, column by column, last columns of several lines included, if the
  two have the same number of rows; otherwise it is an error that names both numbers, and no rows are
  returned.
\<close>

lemma content_query_table:
  assumes "device_shell N (query_command uri projection extra) s = Some (Inr printed, s1)" and "success printed"
    and "stdout printed = as_bytes (concat (map (print_row projection) rs))"
    and "wf_str (concat (map (print_row projection) rs))"
    and "device_shell N (query_command uri [''_id''] extra) s1 = Some (Inr listed_ids, s2)" and "success listed_ids"
    and "stdout listed_ids = as_bytes (concat (map (print_row [''_id'']) keys))"
    and "wf_str (concat (map (print_row [''_id'']) keys))"
    and "\<forall>r \<in> set rs. row_ok projection r" and "projection \<noteq> []" and "\<forall>c \<in> set projection. CHR 0x0A \<notin> set c"
    and "\<forall>r \<in> set keys. row_ok [''_id''] r"
  shows "content_query_with N uri projection extra s =
     Some (if length keys = length rs then Inr (map (row_of projection \<circ> snd) rs)
           else Inl (row_count_mismatch (length rs) (length keys)), s2)"
proof -
  have "shell_checked N (query_command uri projection extra) s = Some (Inr printed, s1)"
    "shell_checked N (query_command uri [''_id''] extra) s1 = Some (Inr listed_ids, s2)"
    using shell_checked_run [OF assms(1)] shell_checked_run [OF assms(5)] assms(2,6) by simp_all
  moreover have "parse_rows (stdout_text printed) projection = Inr (map (row_of projection \<circ> snd) rs)"
    using content_roundtrip [OF assms(9-11)] by (simp add: stdout_text_printed [OF assms(3,4)])
  moreover have "count_rows (stdout_text listed_ids) = length keys"
    using count_printed_rows [OF assms(12)] by (simp add: stdout_text_printed [OF assms(7,8)])
  ultimately show ?thesis using assms(10) by (simp add: content_query_with_def and_then_ok Let_def)
qed

definition sample_rows :: "(str \<times> str list) list" where
  "sample_rows = [(''0'', [''1'']), (''1'', [''2'' @ CHR 0x0A # ''more''])]"

end
