(* ===== verification/Fake_Shell.thy ===== *)
theory Fake_Shell
  imports Sync_Peer Query Banner
begin

section \<open>The shell of the crate's device\<close>

text \<open>
  \<open>tests/common/fake/shell.rs\<close>, the interpreter that stands in for the device's shell, the configuration
  of \<open>tests/common/fake/mod.rs\<close>, and the service handlers of \<open>tests/common/fake/services.rs\<close>. They are
  the crate's own other side of the shell services, of \<open>getprop\<close> and of content queries. An \<open>unwrap\<close>
  that fails, which takes an output of 4 GiB, is \<open>None\<close>.

  The lemmas show what the interpreter makes of the client's command lines; the properties put the
  client's parsers and the interpreter together.
\<close>

subsection \<open>The configuration\<close>

record 'pk fake_config =
  fc_trusted :: "'pk list"
  fc_accept_new_keys :: bool
  fc_require_auth :: bool
  fc_request_tls :: bool
  fc_version :: u32
  fc_max_payload :: u32
  fc_banner :: banner
  fc_props :: "(str, str) btree"
  fc_screencap_png :: bytes
  fc_content_rows :: "(str, str) btree list"
  fc_content_extra_ids :: nat
  fc_refuse_services :: "str list"

definition PNG :: bytes where
  "PNG = [0x89, 0x50, 0x4E, 0x47, 0x0D, 0x0A, 0x1A, 0x0A, 0x00, 0x00, 0x00, 0x0D, 0x49, 0x48, 0x44, 0x52,
    0x00, 0x00, 0x00, 0x01, 0x00, 0x00, 0x00, 0x01, 0x08, 0x06, 0x00, 0x00, 0x00, 0x1F, 0x15, 0xC4,
    0x89, 0x00, 0x00, 0x00, 0x0A, 0x49, 0x44, 0x41, 0x54, 0x78, 0x9C, 0x63, 0x00, 0x01, 0x00, 0x00,
    0x05, 0x00, 0x01, 0x0D, 0x0A, 0x2D, 0xB4, 0x00, 0x00, 0x00, 0x00, 0x49, 0x45, 0x4E, 0x44, 0xAE,
    0x42, 0x60, 0x82]"

definition fake_default :: "'pk fake_config" where
  "fake_default =
     (let props = bt_insert ''persist.multi'' (''one'' @ [CHR 0x0A] @ ''two'')
            (bt_insert ''ro.build.version.sdk'' ''34'' (bt_insert ''ro.product.model'' ''Fake Phone'' []));
          banner = (parse_banner ''device::ro.product.name=fake;ro.product.model=Fake;ro.product.device=fake'')
            \<lparr>features := [''shell_v2'', ''cmd'', ''stat_v2'', ''ls_v2'', ''sendrecv_v2'']\<rparr>;
          row = bt_insert ''body'' ''Hello, world, with, commas'' (bt_insert ''address'' ''+15550001'' (bt_insert ''_id'' ''1'' [])) in
      \<lparr>fc_trusted = [], fc_accept_new_keys = False, fc_require_auth = True, fc_request_tls = False,
       fc_version = VERSION, fc_max_payload = MAX_PAYLOAD, fc_banner = banner, fc_props = props,
       fc_screencap_png = PNG, fc_content_rows = [row], fc_content_extra_ids = 0, fc_refuse_services = []\<rparr>)"

definition fake_trusting :: "('sk, 'pk) host_key \<Rightarrow> 'pk fake_config" where
  "fake_trusting key = fake_default\<lparr>fc_trusted := [public_key key]\<rparr>"

definition fake_legacy :: "'pk fake_config" where
  "fake_legacy = (let conf = fake_default\<lparr>fc_require_auth := False, fc_version := 0x01000000, fc_max_payload := 0\<rparr> in
     conf\<lparr>fc_banner := (fc_banner conf)\<lparr>features := []\<rparr>\<rparr>)"

subsection \<open>The interpreter\<close>

record exit =
  ex_stdout :: bytes
  ex_stderr :: bytes
  ex_code :: u8

definition ok_exit :: "bytes \<Rightarrow> exit" where
  "ok_exit out = \<lparr>ex_stdout = out, ex_stderr = [], ex_code = 0\<rparr>"

text \<open>The loop of \<open>split_args\<close>: the words so far, the current one, whether a quote is open and a word begun.\<close>

function split_args_loop :: "str list \<Rightarrow> str \<Rightarrow> bool \<Rightarrow> bool \<Rightarrow> str \<Rightarrow> str list" where
  "split_args_loop args current in_quote begun [] = (if begun then args @ [current] else args)"
| "split_args_loop args current in_quote begun (c # cs) =
     (if c = CHR 0x27 then split_args_loop args current (\<not> in_quote) True cs
      else case (if in_quote then None else drop_any ws_chars (c # cs)) of
        Some rest \<Rightarrow>
          if begun then split_args_loop (args @ [current]) [] in_quote False rest
          else split_args_loop args current in_quote False rest
      | None \<Rightarrow> split_args_loop args (current @ [c]) in_quote True cs)"
  by pat_completeness auto
termination
  by (relation "measure (\<lambda>(args, current, in_quote, pending, s). length s)")
    (auto dest: drop_any_shorter [rotated] split: if_splits)

definition split_args :: "str \<Rightarrow> str list" where
  "split_args line = split_args_loop [] [] False False line"

definition fake_projection :: "str list \<Rightarrow> str list" where
  "fake_projection args =
     (case dropWhile (\<lambda>a. a \<noteq> ''--projection'') args of
        _ # p # _ \<Rightarrow> split_char (CHR '':'') p
      | _ \<Rightarrow> [])"

definition fake_field :: "(str, str) btree \<Rightarrow> str \<Rightarrow> str" where
  "fake_field r col = col @ ''='' @ unwrap_or ''NULL'' (map_of r col)"

definition fake_row :: "str list \<Rightarrow> nat \<times> (str, str) btree \<Rightarrow> str" where
  "fake_row projection r =
     ''Row: '' @ dec_of_nat (fst r) @ '' '' @ join '', '' (map (fake_field (snd r)) projection) @ [CHR 0x0A]"

definition fake_content :: "'pk fake_config \<Rightarrow> str list \<Rightarrow> exit" where
  "fake_content conf args =
     (let projection = fake_projection args;
          rows = fc_content_rows conf
            @ (if projection = [''_id''] then take (fc_content_extra_ids conf) (fc_content_rows conf) else []) in
      if rows = [] then ok_exit (as_bytes (''No result found.'' @ [CHR 0x0A]))
      else ok_exit (as_bytes (concat (map (fake_row projection) (enumerate 0 rows)))))"

definition not_found_text :: "str \<Rightarrow> str" where
  "not_found_text cmd = ''/system/bin/sh: '' @ cmd @ '': inaccessible or not found'' @ [CHR 0x0A]"

definition fake_run :: "'pk fake_config \<Rightarrow> str \<Rightarrow> exit" where
  "fake_run conf line =
     (let args = split_args line in
      case args of
        [] \<Rightarrow> ok_exit []
      | cmd # rest \<Rightarrow>
          if cmd = ''getprop'' then
            (case rest of
               name # _ \<Rightarrow> ok_exit (as_bytes (unwrap_or [] (map_of (fc_props conf) name) @ [CHR 0x0A]))
             | [] \<Rightarrow> ok_exit (as_bytes (concat (map (\<lambda>(k, v). ''['' @ k @ '']: ['' @ v @ '']'' @ [CHR 0x0A]) (fc_props conf)))))
          else if cmd = ''echo'' then ok_exit (as_bytes (join '' '' rest @ [CHR 0x0A]))
          else if cmd = ''true'' then ok_exit []
          else if cmd = ''false'' then \<lparr>ex_stdout = [], ex_stderr = [], ex_code = 1\<rparr>
          else if cmd = ''id'' then ok_exit (as_bytes (''uid=2000(shell) gid=2000(shell)'' @ [CHR 0x0A]))
          else if cmd = ''screencap'' then ok_exit (fc_screencap_png conf)
          else if cmd = ''warn'' then
            \<lparr>ex_stdout = as_bytes (''out'' @ [CHR 0x0A]), ex_stderr = as_bytes (''err'' @ [CHR 0x0A]), ex_code = 3\<rparr>
          else if cmd = ''content'' then fake_content conf args
          else \<lparr>ex_stdout = [], ex_stderr = as_bytes (not_found_text cmd), ex_code = 127\<rparr>)"

subsection \<open>The service handlers\<close>

record shell_handler =
  sv_command :: str
  sv_parser :: bytes  \<comment> \<open>the parser's buffer\<close>
  sv_stdin :: bytes
  sv_done :: bool

definition new_shell_handler :: "str \<Rightarrow> shell_handler" where
  "new_shell_handler cmd = \<lparr>sv_command = cmd, sv_parser = [], sv_stdin = [], sv_done = False\<rparr>"

definition unwrap_all :: "bytes result list \<Rightarrow> bytes list option" where
  "unwrap_all rs = (if \<exists>r \<in> set rs. isl r then None else Some (map projr rs))"

text \<open>\<open>ShellV2::finish\<close>: \<open>cat\<close> gives its input back, any other command is run.\<close>

definition shell_finish :: "'pk fake_config \<Rightarrow> shell_handler \<Rightarrow> (bytes list \<times> shell_handler) option" where
  "shell_finish conf h =
     (let (ex, stdin) = (if sv_command h = ''cat'' then (ok_exit (sv_stdin h), []) else (fake_run conf (sv_command h), sv_stdin h)) in
      map_option (\<lambda>frames. (frames, h\<lparr>sv_done := True, sv_stdin := stdin\<rparr>))
        (unwrap_all ((if ex_stdout ex \<noteq> [] then [frame_encode Stdout (ex_stdout ex)] else [])
           @ (if ex_stderr ex \<noteq> [] then [frame_encode Stderr (ex_stderr ex)] else [])
           @ [frame_encode Exit [ex_code ex]])))"

text \<open>The frames of one \<open>on_data\<close>: input is collected, its end runs the command and drops what follows.\<close>

fun shell_frames :: "'pk fake_config \<Rightarrow> shell_handler \<Rightarrow> sh_frame list \<Rightarrow> (bytes list \<times> shell_handler) option" where
  "shell_frames conf h [] = Some ([], h)"
| "shell_frames conf h (fr # frs) =
     (case fr_id fr of
        Stdin \<Rightarrow> shell_frames conf (h\<lparr>sv_stdin := sv_stdin h @ fr_data fr\<rparr>) frs
      | CloseStdin \<Rightarrow> shell_finish conf h
      | _ \<Rightarrow> shell_frames conf h frs)"

definition shell_on_data :: "'pk fake_config \<Rightarrow> shell_handler \<Rightarrow> bytes \<Rightarrow> (bytes list \<times> shell_handler) option" where
  "shell_on_data conf h data =
     (case push data (sv_parser h) of (res, rest) \<Rightarrow>
        shell_frames conf (h\<lparr>sv_parser := rest\<rparr>) (case res of Inl _ \<Rightarrow> [] | Inr frs \<Rightarrow> frs))"

text \<open>A handler of any service, and what they share.\<close>

datatype handler = Oneshot "bytes list" | Shell_stream shell_handler | Sync_stream peer

record 'pk fake_shared =
  fs_config :: "'pk fake_config"
  fs_files :: fs
  fs_received :: "message list"
  fs_accepted_key :: "'pk option"
  fs_rebooted :: "str list"

definition big_file :: bytes where
  "big_file = map (\<lambda>i. ucast ((word_of_nat i * 31 :: u32) mod 251)) [0..<200000]"

definition new_shared :: "'pk fake_config \<Rightarrow> 'pk fake_shared" where
  "new_shared conf =
     (let fs = add_file new_fs ''/sdcard/hello.txt'' 0x1A4 1700000001 (as_bytes (''hello from the device'' @ [CHR 0x0A]));
          fs = add_file fs ''/sdcard/big.bin'' 0x180 1700000002 big_file;
          fs = mkdir fs ''/sdcard/Download'' 0x1F9 1700000003 in
      \<lparr>fs_config = conf, fs_files = fs, fs_received = [], fs_accepted_key = None, fs_rebooted = []\<rparr>)"

definition fake_open :: "'pk fake_shared \<Rightarrow> str \<Rightarrow> (handler \<times> 'pk fake_shared) option" where
  "fake_open sh service =
     (let conf = fs_config sh in
      if service \<in> set (fc_refuse_services conf) then None
      else case strip_prefix ''shell,v2:'' service of
        Some cmd \<Rightarrow> Some (Shell_stream (new_shell_handler cmd), sh)
      | None \<Rightarrow>
      (case strip_prefix ''shell:'' service of
        Some cmd \<Rightarrow> (let ex = fake_run conf cmd in Some (Oneshot [ex_stdout ex @ ex_stderr ex], sh))
      | None \<Rightarrow>
      (case strip_prefix ''exec:'' service of
        Some cmd \<Rightarrow> Some (Oneshot [ex_stdout (fake_run conf cmd)], sh)
      | None \<Rightarrow>
      if service = ''sync:'' then Some (Sync_stream (new_peer (fs_files sh)), sh)
      else (case strip_prefix ''reboot:'' service of
        Some target \<Rightarrow> Some (Oneshot [], sh\<lparr>fs_rebooted := fs_rebooted sh @ [target]\<rparr>)
      | None \<Rightarrow> None))))"

fun handler_on_open :: "handler \<Rightarrow> bytes list \<times> handler" where
  "handler_on_open (Oneshot out) = (out, Oneshot [])"
| "handler_on_open h = ([], h)"

text \<open>The file system is behind a lock that the handlers of all streams share.\<close>

fun handler_on_data :: "'pk fake_shared \<Rightarrow> handler \<Rightarrow> bytes \<Rightarrow> (bytes list \<times> handler \<times> 'pk fake_shared) option" where
  "handler_on_data sh (Oneshot out) data = Some ([], Oneshot out, sh)"
| "handler_on_data sh (Shell_stream h) data =
     map_option (\<lambda>(answers, h'). (answers, Shell_stream h', sh)) (shell_on_data (fs_config sh) h data)"
| "handler_on_data sh (Sync_stream p) data =
     (let (answers, p') = on_data (p\<lparr>pe_fs := fs_files sh\<rparr>) data in
      Some (answers, Sync_stream p', sh\<lparr>fs_files := pe_fs p'\<rparr>))"

fun handler_finished :: "handler \<Rightarrow> bool" where
  "handler_finished (Oneshot _) = True"
| "handler_finished (Shell_stream h) = sv_done h"
| "handler_finished (Sync_stream p) = pe_done p"

subsection \<open>The client's command lines\<close>

lemma split_args_plain:
  "\<forall>c \<in> set w. plain_char c \<and> c \<noteq> CHR 0x27 \<Longrightarrow>
     split_args_loop args current False begun (w @ s) = split_args_loop args (current @ w) False (begun \<or> w \<noteq> []) s"
  by (induction w arbitrary: current begun) (simp_all add: drop_any_plain)

lemma split_args_quoted:
  "CHR 0x27 \<notin> set w \<Longrightarrow>
     split_args_loop args current True True (w @ CHR 0x27 # s) = split_args_loop args (current @ w) False True s"
  by (induction w arbitrary: current) auto

lemma unquoted_plain:
  assumes "ascii_alnum c \<or> c \<in> set ''-_./:=@,''"
  shows "plain_char c \<and> c \<noteq> CHR 0x27"
proof (rule ccontr)
  assume "\<not> (plain_char c \<and> c \<noteq> CHR 0x27)"
  then have "c \<in> insert (CHR 0x27) (set (map hd ws_chars))" by (auto simp: plain_char_def)
  with assms show False by (auto simp: ws_chars_def ascii_alnum_def)
qed

lemma replace_char_absent: "c \<notin> set s \<Longrightarrow> replace_char c by s = s"
  by (induction s) (auto simp: replace_char_def)

lemma split_args_quote:
  assumes "CHR 0x27 \<notin> set a"
  shows "split_args_loop args [] False False (quote a @ s) = split_args_loop args a False True s"
proof (cases "a \<noteq> [] \<and> (\<forall>b \<in> set a. ascii_alnum b \<or> b \<in> set ''-_./:=@,'')")
  case True
  then have "\<forall>c \<in> set a. plain_char c \<and> c \<noteq> CHR 0x27" using unquoted_plain by blast
  with True show ?thesis by (simp add: quote_def split_args_plain)
next
  case False
  then have "quote a = [CHR 0x27] @ a @ [CHR 0x27]"
    unfolding quote_def using replace_char_absent [OF assms] by (simp only: if_not_P not_False_eq_True)
  with split_args_quoted [OF assms, of args "[]" s] show ?thesis by simp
qed

lemma split_args_blank:
  "split_args_loop args current False True (CHR '' '' # s) = split_args_loop (args @ [current]) [] False False s"
proof -
  have "drop_any ws_chars (CHR '' '' # s) = Some s" by (simp add: ws_chars_def)
  then show ?thesis by simp
qed

lemma split_args_quotes:
  "\<forall>a \<in> set as. CHR 0x27 \<notin> set a \<Longrightarrow>
     split_args_loop args [] False False (join '' '' (map quote as)) = args @ as"
proof (induction as arbitrary: args)
  case (Cons a as)
  then have a: "CHR 0x27 \<notin> set a" by simp
  show ?case
  proof (cases as)
    case Nil
    with split_args_quote [OF a, of args "[]"] show ?thesis by simp
  next
    case (Cons b bs)
    with Cons.IH [of "args @ [a]"] Cons.prems show ?thesis
      using split_args_quote [OF a, of args "'' '' @ join '' '' (map quote as)"]
      by (simp add: split_args_blank del: split_args_loop.simps(2))
  qed
qed simp

lemma split_args_words: "\<forall>a \<in> set as. CHR 0x27 \<notin> set a \<Longrightarrow> split_args (join '' '' (map quote as)) = as"
  using split_args_quotes [of as "[]"] by (simp add: split_args_def)

lemma fake_run_getprops: "fake_run conf ''getprop'' = ok_exit (as_bytes (concat (map print_prop (fc_props conf))))"
proof -
  have "split_args ''getprop'' = [''getprop'']"
    using split_args_words [of "[''getprop'']"] by (simp add: quote_def ascii_alnum_def)
  then have "fake_run conf ''getprop'' = ok_exit (as_bytes (concat (map
      (\<lambda>(k, v). ''['' @ k @ '']: ['' @ v @ '']'' @ [CHR 0x0A]) (fc_props conf))))"
    by (simp only: fake_run_def Let_def list.case simp_thms if_True)
  moreover have "(\<lambda>(k, v). ''['' @ k @ '']: ['' @ v @ '']'' @ [CHR 0x0A]) = print_prop"
    by (rule ext) (simp only: print_prop_def)
  ultimately show ?thesis by simp
qed

lemma fake_run_getprop:
  assumes "validate_name name = Inr ()"
  shows "fake_run conf (''getprop '' @ name) = ok_exit (as_bytes (unwrap_or [] (map_of (fc_props conf) name) @ [CHR 0x0A]))"
proof -
  have valid: "name \<noteq> [] \<and> (\<forall>b \<in> set name. ascii_alnum b \<or> b \<in> set ''._-:@'')"
    using assms unfolding validate_name_def by (metis Inl_Inr_False)
  have wider: "set ''._-:@'' \<subseteq> set ''-_./:=@,''" by simp
  have name: "name \<noteq> []" "\<forall>b \<in> set name. ascii_alnum b \<or> b \<in> set ''-_./:=@,''"
    using valid subsetD [OF wider] by blast+
  then have "CHR 0x27 \<notin> set name" using unquoted_plain by blast
  moreover have "quote name = name" using name by (simp add: quote_def)
  ultimately have "split_args (''getprop '' @ name) = [''getprop'', name]"
    using split_args_words [of "[''getprop'', name]"] by (simp add: quote_def [of "''getprop''"] ascii_alnum_def)
  then show ?thesis by (simp add: fake_run_def)
qed

lemma query_command_quoted:
  "projection \<noteq> [] \<Longrightarrow> query_command uri projection extra
     = join '' '' (map quote ([''content'', ''query'', ''--uri'', uri, ''--projection'', join '':'' projection] @ extra))"
proof -
  assume "projection \<noteq> []"
  moreover have "quote ''content'' = ''content''" "quote ''query'' = ''query''" "quote ''--uri'' = ''--uri''"
    "quote ''--projection'' = ''--projection''"
    by (simp_all add: quote_def ascii_alnum_def)
  ultimately show ?thesis
    by (simp add: query_command_def join_lines comp_def del: join.simps)
qed

text \<open>What the device prints for one of its rows, column by column.\<close>

definition row_values :: "str list \<Rightarrow> (str, str) btree \<Rightarrow> str list" where
  "row_values projection r = map (\<lambda>c. unwrap_or ''NULL'' (map_of r c)) projection"

lemma fake_row_printed: "fake_row projection (i, r) = print_row projection (dec_of_nat i, row_values projection r)"
proof -
  have "map (\<lambda>(c, v). c @ ''='' @ v) (zip projection (row_values projection r)) = map (fake_field r) projection"
    by (simp add: row_values_def fake_field_def zip_map2 zip_same_conv_map)
  then show ?thesis by (simp add: fake_row_def print_row_def print_fields_def row_prefix_def)
qed

definition queried_rows :: "'pk fake_config \<Rightarrow> str list \<Rightarrow> (str, str) btree list" where
  "queried_rows conf projection = fc_content_rows conf
     @ (if projection = [''_id''] then take (fc_content_extra_ids conf) (fc_content_rows conf) else [])"

definition printed_rows :: "'pk fake_config \<Rightarrow> str list \<Rightarrow> (str \<times> str list) list" where
  "printed_rows conf projection =
     map (\<lambda>(i, r). (dec_of_nat i, row_values projection r)) (enumerate 0 (queried_rows conf projection))"

definition printed_table :: "'pk fake_config \<Rightarrow> str list \<Rightarrow> str" where
  "printed_table conf projection =
     (if queried_rows conf projection = [] then ''No result found.'' @ [CHR 0x0A]
      else concat (map (print_row projection) (printed_rows conf projection)))"

lemma fake_run_content:
  assumes "projection \<noteq> []" and "\<forall>c \<in> set projection. CHR '':'' \<notin> set c \<and> CHR 0x27 \<notin> set c"
    and "\<forall>a \<in> set extra. CHR 0x27 \<notin> set a" and "CHR 0x27 \<notin> set uri" and "uri \<noteq> ''--projection''"
  shows "fake_run conf (query_command uri projection extra) = ok_exit (as_bytes (printed_table conf projection))"
proof -
  let ?args = "[''content'', ''query'', ''--uri'', uri, ''--projection'', join '':'' projection] @ extra"
  have "CHR 0x27 \<notin> set (join '':'' projection)" using set_join [of "'':''" projection] assms(2) by auto
  then have "split_args (query_command uri projection extra) = ?args"
    unfolding query_command_quoted [OF assms(1)] using assms(3,4) by (intro split_args_words) auto
  moreover have "fake_projection ?args = projection"
    using assms(1,2,5) split_char_join [of projection "CHR '':''"] by (simp add: fake_projection_def)
  moreover have "fake_row projection = print_row projection \<circ> (\<lambda>(i, r). (dec_of_nat i, row_values projection r))"
    by (rule ext) (auto simp: fake_row_printed)
  ultimately show ?thesis
    by (simp add: fake_run_def fake_content_def Let_def printed_table_def printed_rows_def queried_rows_def)
qed

subsection \<open>A command through the handler\<close>

definition out_frames :: "exit \<Rightarrow> sh_frame list" where
  "out_frames ex =
     (if ex_stdout ex \<noteq> [] then [\<lparr>fr_id = Stdout, fr_data = ex_stdout ex\<rparr>] else [])
     @ (if ex_stderr ex \<noteq> [] then [\<lparr>fr_id = Stderr, fr_data = ex_stderr ex\<rparr>] else [])
     @ [\<lparr>fr_id = Exit, fr_data = [ex_code ex]\<rparr>]"

definition small_exit :: "exit \<Rightarrow> bool" where
  "small_exit ex \<longleftrightarrow> length (ex_stdout ex) < 2 ^ 32 \<and> length (ex_stderr ex) < 2 ^ 32"

definition command_exit :: "'pk fake_config \<Rightarrow> str \<Rightarrow> bytes \<Rightarrow> exit" where
  "command_exit conf cmd stdin = (if cmd = ''cat'' then ok_exit stdin else fake_run conf cmd)"

definition exit_output :: "exit \<Rightarrow> shell_output" where
  "exit_output ex = \<lparr>stdout = ex_stdout ex, stderr = ex_stderr ex, exit_code = Some (ex_code ex)\<rparr>"

lemma small_out_frames: "small_exit ex \<Longrightarrow> \<forall>fr \<in> set (out_frames ex). length (fr_data fr) < 2 ^ 32"
  by (auto simp: out_frames_def small_exit_def)

lemma out_frames_output:
  "\<lparr>stdout = data_of Stdout (out_frames ex), stderr = data_of Stderr (out_frames ex), exit_code = code_of (out_frames ex)\<rparr>
     = exit_output ex"
  by (simp add: out_frames_def data_of_def code_of_def exit_output_def)

lemma shell_finish_frames:
  assumes "small_exit (command_exit conf (sv_command h) (sv_stdin h))"
  shows "\<exists>frames h'. shell_finish conf h = Some (frames, h') \<and> sv_done h'
     \<and> concat frames = encode_all (out_frames (command_exit conf (sv_command h) (sv_stdin h)))"
proof -
  let ?ex = "command_exit conf (sv_command h) (sv_stdin h)"
  have ex: "fst (if sv_command h = ''cat'' then (ok_exit (sv_stdin h), []) else (fake_run conf (sv_command h), sv_stdin h)) = ?ex"
    by (simp add: command_exit_def)
  show ?thesis
    using assms unfolding shell_finish_def Let_def
    by (cases "sv_command h = ''cat''")
      (auto simp: command_exit_def small_exit_def unwrap_all_def frame_encode_def out_frames_def encode_all_def)
qed

lemma shell_answers:
  assumes "length stdin < 2 ^ 32" and "small_exit (command_exit conf cmd stdin)"
  shows "\<exists>frames h. shell_on_data conf (new_shell_handler cmd) (stdin_frames stdin) = Some (frames, h) \<and> sv_done h
     \<and> concat frames = encode_all (out_frames (command_exit conf cmd stdin))"
proof -
  let ?frs = "(if stdin = [] then [] else [\<lparr>fr_id = Stdin, fr_data = stdin\<rparr>]) @ [\<lparr>fr_id = CloseStdin, fr_data = []\<rparr>]"
  let ?h = "(new_shell_handler cmd)\<lparr>sv_stdin := stdin\<rparr>"
  have "parse_frames (stdin_frames stdin) = (Inr ?frs, [])"
    unfolding stdin_frames_def by (rule parse_encode_all) (use assms(1) in auto)
  then have "shell_on_data conf (new_shell_handler cmd) (stdin_frames stdin) = shell_finish conf ?h"
    by (simp add: shell_on_data_def push_def new_shell_handler_def)
  with shell_finish_frames [of conf ?h] assms(2) show ?thesis by (simp add: new_shell_handler_def)
qed

text \<open>A connection whose \<open>shell,v2:\<close> streams are served by the handler.\<close>

definition serves_shell :: "'pk fake_config \<Rightarrow> (('r, 'w) host_channel, unit) connection \<Rightarrow> ('r \<Rightarrow> bytes) \<Rightarrow> bytes \<Rightarrow> bool" where
  "serves_shell conf N avail stdin \<longleftrightarrow>
     (\<forall>cmd w frames h. shell_on_data conf (new_shell_handler cmd) (stdin_frames stdin) = Some (frames, h) \<longrightarrow>
        (\<exists>w1. cn_open N (''shell,v2:'' @ cmd) w = Some (Inr (), w1) \<and> avail (hc_in w1) = concat frames))"

lemma shell_v2_of_device:
  assumes "host_connection N avail out" and "serves_shell conf N avail stdin"
    and "CHR 0x00 \<notin> set cmd" and "length stdin < 2 ^ 32" and "small_exit (command_exit conf cmd stdin)"
  shows "\<exists>w'. shell_v2 N cmd stdin w = Some (Inr (exit_output (command_exit conf cmd stdin)), w')"
proof -
  obtain frames h where frames: "shell_on_data conf (new_shell_handler cmd) (stdin_frames stdin) = Some (frames, h)"
    "concat frames = encode_all (out_frames (command_exit conf cmd stdin))"
    using shell_answers [OF assms(4,5)] by blast
  then obtain w1 where w1: "cn_open N (''shell,v2:'' @ cmd) w = Some (Inr (), w1)"
    "avail (hc_in w1) = encode_all (out_frames (command_exit conf cmd stdin))"
    using assms(2) unfolding serves_shell_def by fastforce
  show ?thesis
    using shell_v2_frames [OF assms(1) w1 small_out_frames [OF assms(5)] assms(3,4)]
    unfolding out_frames_output by blast
qed

lemma device_shell_of_device:
  assumes "host_connection N avail out" and "serves_shell conf N avail []"
    and "dv_features s = Some fts" and "SHELL_V2_FEATURE \<in> set fts"
    and "CHR 0x00 \<notin> set cmd" and "small_exit (command_exit conf cmd [])"
  shows "\<exists>w'. device_shell N cmd s = Some (Inr (exit_output (command_exit conf cmd [])), s\<lparr>dv_world := w'\<rparr>)"
proof -
  obtain w' where "shell_v2 N cmd [] (dv_world s) = Some (Inr (exit_output (command_exit conf cmd [])), w')"
    using shell_v2_of_device [OF assms(1,2,5) _ assms(6)] by auto
  then show ?thesis
    using assms(3,4)
    by (intro exI [of _ w']) (simp add: device_shell_def device_features_def and_then_ok on_conn_run shell_def)
qed

text \<open>\<open>cat\<close> echoes the input of the call.\<close>

lemma stdin_of_device:
  assumes "host_connection N avail out" and "serves_shell conf N avail stdin"
    and "dv_features s = Some fts" and "SHELL_V2_FEATURE \<in> set fts" and "length stdin < 2 ^ 32"
  shows "\<exists>s'. shell_with_stdin N ''cat'' stdin s = Some (Inr \<lparr>stdout = stdin, stderr = [], exit_code = Some 0\<rparr>, s')"
proof -
  have "small_exit (command_exit conf ''cat'' stdin)" using assms(5) by (simp add: command_exit_def ok_exit_def small_exit_def)
  from shell_v2_of_device [OF assms(1,2) _ assms(5) this, of "dv_world s"] obtain w' where
    "shell_v2 N ''cat'' stdin (dv_world s) = Some (Inr \<lparr>stdout = stdin, stderr = [], exit_code = Some 0\<rparr>, w')"
    by (auto simp: command_exit_def ok_exit_def exit_output_def)
  then show ?thesis
    using assms(3,4) by (simp add: shell_with_stdin_def has_feature_def device_features_def and_then_ok on_conn_run)
qed

text \<open>A command that succeeds.\<close>

lemma shell_checked_of_device:
  assumes "host_connection N avail out" and "serves_shell conf N avail []"
    and "dv_features s = Some fts" and "SHELL_V2_FEATURE \<in> set fts"
    and "CHR 0x00 \<notin> set cmd" and "cmd \<noteq> ''cat''" and "fake_run conf cmd = ok_exit (as_bytes txt)" and "wf_str txt"
    and "length txt < 2 ^ 32"
  shows "\<exists>out w'. shell_checked N cmd s = Some (Inr out, s\<lparr>dv_world := w'\<rparr>) \<and> stdout_text out = txt"
proof -
  have ex: "command_exit conf cmd [] = ok_exit (as_bytes txt)" using assms(6,7) by (simp add: command_exit_def)
  have "small_exit (command_exit conf cmd [])" using assms(9) by (simp add: ex small_exit_def ok_exit_def)
  from device_shell_of_device [OF assms(1-5) this] obtain w' where
    "device_shell N cmd s = Some (Inr (exit_output (ok_exit (as_bytes txt))), s\<lparr>dv_world := w'\<rparr>)"
    unfolding ex by blast
  from shell_checked_run [OF this] show ?thesis
    using assms(8) by (intro exI [of _ "exit_output (ok_exit (as_bytes txt))"] exI [of _ w'])
      (simp add: exit_output_def ok_exit_def success_def stdout_text_def utf8_lossy_str)
qed

subsection \<open>Client and device\<close>

lemma wf_str_concat: "\<forall>x \<in> set xs. wf_str x \<Longrightarrow> wf_str (concat xs)"
  by (induction xs) (simp_all add: valid_utf8_append)

lemma wf_str_append: "wf_str a \<Longrightarrow> wf_str b \<Longrightarrow> wf_str (a @ b)"
  by (simp add: valid_utf8_append)

lemma wf_str_ascii: "\<forall>c \<in> set s. of_char c < (128 :: nat) \<Longrightarrow> wf_str s"
  by (rule valid_utf8_ascii) (auto simp: word_less_nat_alt unat_byte_of)

lemma print_prop_wf: "wf_str k \<Longrightarrow> wf_str v \<Longrightarrow> wf_str (print_prop (k, v))"
  using wf_str_ascii [of "''[''"] wf_str_ascii [of "'']: [''"] wf_str_ascii [of "'']''"] wf_str_ascii [of "[CHR 0x0A]"]
  unfolding print_prop_def split by (intro wf_str_append) simp_all

lemma valid_name_command: "validate_name name = Inr () \<Longrightarrow> CHR 0x00 \<notin> set (''getprop '' @ name)"
proof -
  assume "validate_name name = Inr ()"
  then have "\<forall>b \<in> set name. ascii_alnum b \<or> b \<in> set ''._-:@''"
    unfolding validate_name_def by (metis Inl_Inr_False)
  then have "CHR 0x00 \<notin> set name" by (auto simp: ascii_alnum_def)
  then show ?thesis by simp
qed

text \<open>
  C33: client and device side together: the property map the client reads from the crate's device is the
  device's own map, values of several lines included, and a single property is the device's value
  without its final line ends, empty for a property it does not have.
\<close>

theorem getprops_of_device:
  assumes "host_connection N avail out" and "serves_shell conf N avail []"
    and "dv_features s = Some fts" and "SHELL_V2_FEATURE \<in> set fts"
    and "bt_wf (fc_props conf)" and "\<forall>(k, v) \<in> set (fc_props conf). name_ok k \<and> value_ok v \<and> wf_str k \<and> wf_str v"
    and "length (concat (map print_prop (fc_props conf))) < 2 ^ 32" and "validate_name name = Inr ()"
    and "value = unwrap_or [] (map_of (fc_props conf) name)" and "length value + 1 < 2 ^ 32"
  shows "\<exists>s1 s2. getprops N s = Some (Inr (fc_props conf), s1)
     \<and> getprop N name s1 = Some (Inr (trim_end_matches (\<lambda>c. c \<in> {CHR 0x0D, CHR 0x0A}) value), s2)"
proof -
  have "wf_str (concat (map print_prop (fc_props conf)))"
    using assms(6) by (intro wf_str_concat) (auto intro: print_prop_wf)
  from shell_checked_of_device [OF assms(1-4) _ _ fake_run_getprops this assms(7)] obtain printed w1 where
    all: "shell_checked N ''getprop'' s = Some (Inr printed, s\<lparr>dv_world := w1\<rparr>)"
      "stdout_text printed = concat (map print_prop (fc_props conf))" by auto
  have "parse_all (concat (map print_prop (fc_props conf))) = fc_props conf"
    using parse_props [of "fc_props conf" "[]"] bt_foldl_insert [of "[]" "fc_props conf"] assms(5,6)
    by (fastforce simp: parse_all_def)
  then have first: "getprops N s = Some (Inr (fc_props conf), s\<lparr>dv_world := w1\<rparr>)"
    using all by (simp add: getprops_def and_then_ok)
  have "wf_str value"
    using assms(6,9) by (auto simp: unwrap_or_def split: option.splits dest!: map_of_SomeD)
  then have "wf_str (value @ [CHR 0x0A])" by (rule wf_str_append) (rule wf_str_ascii, simp)
  moreover have "fake_run conf (''getprop '' @ name) = ok_exit (as_bytes (value @ [CHR 0x0A]))"
    using fake_run_getprop [OF assms(8)] assms(9) by simp
  ultimately obtain one w2 where
    one: "shell_checked N (''getprop '' @ name) (s\<lparr>dv_world := w1\<rparr>) = Some (Inr one, s\<lparr>dv_world := w1\<rparr>\<lparr>dv_world := w2\<rparr>)"
      "stdout_text one = value @ [CHR 0x0A]"
    using shell_checked_of_device [OF assms(1,2) _ assms(4) valid_name_command [OF assms(8)], of "s\<lparr>dv_world := w1\<rparr>"] assms(3,10)
    by fastforce
  have "getprop N name (s\<lparr>dv_world := w1\<rparr>)
      = Some (Inr (trim_end_matches (\<lambda>c. c \<in> {CHR 0x0D, CHR 0x0A}) value), s\<lparr>dv_world := w1\<rparr>\<lparr>dv_world := w2\<rparr>)"
    using one assms(8) by (simp add: getprop_def and_then_ok trim_end_matches_append)
  with first show ?thesis by blast
qed

text \<open>A connection to a device with a given configuration, for the witnesses.\<close>

definition fake_connection :: "'pk fake_config \<Rightarrow> bytes \<Rightarrow> ((bytes list, bytes) host_channel, unit) connection" where
  "fake_connection conf stdin =
     \<lparr>cn_channel = host_channel_ops chunk_reader byte_sink no_shutdown,
      cn_open = (\<lambda>svc w. case strip_prefix ''shell,v2:'' svc of
          None \<Rightarrow> Some (Inl StreamClosed, w)
        | Some cmd \<Rightarrow>
            (case shell_on_data conf (new_shell_handler cmd) (stdin_frames stdin) of
               None \<Rightarrow> None
             | Some (frames, h) \<Rightarrow> Some (Inr (), new_host_channel frames []))),
      cn_features = ret [SHELL_V2_FEATURE]\<rparr>"

lemma fake_connection_ok: "host_connection (fake_connection conf stdin) concat id"
  unfolding host_connection_def
  by (intro exI [of _ chunk_reader] exI [of _ byte_sink] exI [of _ no_shutdown])
    (simp add: fake_connection_def no_shutdown_ok)

lemma fake_connection_serves: "serves_shell conf (fake_connection conf stdin) concat stdin"
  unfolding serves_shell_def
proof (intro allI impI)
  fix cmd w frames h
  assume "shell_on_data conf (new_shell_handler cmd) (stdin_frames stdin) = Some (frames, h)"
  moreover have "strip_prefix ''shell,v2:'' (''shell,v2:'' @ cmd) = Some cmd" by (rule strip_prefix_append)
  ultimately show "\<exists>w1. cn_open (fake_connection conf stdin) (''shell,v2:'' @ cmd) w = Some (Inr (), w1)
      \<and> concat (hc_in w1) = concat frames"
    unfolding fake_connection_def connection.simps by (simp only: option.case prod.case) (simp add: new_host_channel_def)
qed

definition fake_device :: "((bytes list, bytes) host_channel) device" where
  "fake_device = \<lparr>dv_world = new_host_channel [] [], dv_features = Some [SHELL_V2_FEATURE]\<rparr>"

definition sample_fake :: "unit fake_config" where
  "sample_fake = fake_default"

lemma sample_props:
  "fc_props sample_fake = [(''persist.multi'', ''one'' @ [CHR 0x0A] @ ''two''), (''ro.build.version.sdk'', ''34''),
     (''ro.product.model'', ''Fake Phone'')]"
  unfolding sample_fake_def fake_default_def Let_def fake_config.simps by code_simp

theorem getprops_of_device_witness:
  "\<exists>s1 s2. getprops (fake_connection sample_fake []) fake_device = Some (Inr (fc_props sample_fake), s1)
     \<and> getprop (fake_connection sample_fake []) ''ro.product.model'' s1 = Some (Inr ''Fake Phone'', s2)"
proof -
  have wf: "bt_wf (fc_props sample_fake)" unfolding sample_props by code_simp
  have ok: "\<forall>(k, v) \<in> set (fc_props sample_fake). name_ok k \<and> value_ok v \<and> wf_str k \<and> wf_str v"
    unfolding sample_props by code_simp
  have small: "length (concat (map print_prop (fc_props sample_fake))) < 2 ^ 32"
    unfolding sample_props by (simp add: print_prop_def)
  have valid: "validate_name ''ro.product.model'' = Inr ()" by code_simp
  have val: "''Fake Phone'' = unwrap_or [] (map_of (fc_props sample_fake) ''ro.product.model'')"
    unfolding sample_props by code_simp
  have features: "dv_features fake_device = Some [SHELL_V2_FEATURE]" by (simp add: fake_device_def)
  have "trim_end_matches (\<lambda>c. c \<in> {CHR 0x0D, CHR 0x0A}) ''Fake Phone'' = ''Fake Phone''"
    by (simp add: trim_end_matches_id)
  with getprops_of_device [OF fake_connection_ok fake_connection_serves features _ wf ok small valid val]
  show ?thesis by simp
qed

text \<open>The table of a query, parsed by the client.\<close>

definition columns_ok :: "'pk fake_config \<Rightarrow> str list \<Rightarrow> bool" where
  "columns_ok conf projection \<longleftrightarrow>
     (\<forall>r \<in> set (fc_content_rows conf).
        (\<forall>v \<in> set (butlast (row_values projection r)). CHR '','' \<notin> set v \<and> CHR 0x0A \<notin> set v)
      \<and> free_text_ok (last (row_values projection r)))"

lemma digits_plain: "CHR '' '' \<notin> set (dec_of_nat n) \<and> CHR 0x0A \<notin> set (dec_of_nat n)"
proof -
  have "c \<noteq> CHR '' '' \<and> c \<noteq> CHR 0x0A" if "c \<in> set (dec_of_nat n)" for c
  proof -
    from dec_of_nat_digits [OF that] obtain d where "d < 10" "c = dec_digit d" by blast
    then have "(of_char c :: nat) = 48 + d" by (simp add: dec_digit_def)
    then show ?thesis by auto
  qed
  then show ?thesis by blast
qed

lemma printed_rows_ok:
  assumes "columns_ok conf projection"
  shows "\<forall>r \<in> set (printed_rows conf projection). row_ok projection r"
proof
  fix p
  assume "p \<in> set (printed_rows conf projection)"
  then obtain i r where p: "p = (dec_of_nat i, row_values projection r)" "r \<in> set (queried_rows conf projection)"
    by (auto simp: printed_rows_def in_set_enumerate_eq)
  from p(2) have "r \<in> set (fc_content_rows conf)"
    by (auto simp: queried_rows_def split: if_splits dest: in_set_takeD)
  moreover have "length (row_values projection r) = length projection" by (simp add: row_values_def)
  ultimately show "row_ok projection p"
    using assms digits_plain [of i] by (simp add: row_ok_def p(1) columns_ok_def)
qed

lemma printed_rows_values:
  "map (row_of projection \<circ> snd) (printed_rows conf projection)
     = map (row_of projection \<circ> row_values projection) (queried_rows conf projection)"
proof -
  have "map snd (enumerate 0 xs) = xs" for xs :: "(str, str) btree list" by (simp add: map_snd_enumerate)
  from arg_cong [OF this, of "map (row_of projection \<circ> row_values projection)"] show ?thesis
    unfolding printed_rows_def map_map by (simp add: comp_def case_prod_beta)
qed

lemma parse_printed_table:
  assumes "columns_ok conf projection" and "projection \<noteq> []" and "\<forall>c \<in> set projection. CHR 0x0A \<notin> set c"
  shows "parse_rows (printed_table conf projection) projection
      = Inr (map (row_of projection \<circ> row_values projection) (queried_rows conf projection))"
    and "count_rows (printed_table conf projection) = length (queried_rows conf projection)"
proof -
  show rows: "parse_rows (printed_table conf projection) projection
      = Inr (map (row_of projection \<circ> row_values projection) (queried_rows conf projection))"
  proof (cases "queried_rows conf projection = []")
    case True
    have "lines (''No result found.'' @ [CHR 0x0A]) = [''No result found.'']" by code_simp
    moreover have "row_line projection [] ''No result found.'' = Inr []"
      by (simp add: row_line_def row_prefix_def trim_end_matches_id)
    ultimately show ?thesis
      unfolding printed_table_def parse_rows_def True if_P [OF refl] by simp
  next
    case False
    then show ?thesis
      using content_roundtrip [OF printed_rows_ok [OF assms(1)] assms(2,3)]
      by (simp add: printed_table_def printed_rows_values)
  qed
  show "count_rows (printed_table conf projection) = length (queried_rows conf projection)"
    using content_rows_counted [OF rows] by simp
qed

lemma quote_chars: "set (quote a) \<subseteq> insert (CHR 0x27) (insert (CHR 0x5C) (set a))"
  by (auto simp: quote_def replace_char_def split: if_splits)

lemma query_command_chars:
  assumes "\<forall>w \<in> insert uri (set projection \<union> set extra). CHR 0x00 \<notin> set w" and "projection \<noteq> []"
  shows "CHR 0x00 \<notin> set (query_command uri projection extra)"
proof
  let ?words = "[''content'', ''query'', ''--uri'', uri, ''--projection'', join '':'' projection] @ extra"
  assume "CHR 0x00 \<in> set (query_command uri projection extra)"
  then have "CHR 0x00 \<in> set '' '' \<union> \<Union> (set ` set (map quote ?words))"
    unfolding query_command_quoted [OF assms(2)] using set_join [of "'' ''" "map quote ?words"] by blast
  then obtain w where "w \<in> set ?words" "CHR 0x00 \<in> set (quote w)" by (auto simp del: append.simps)
  then have "w \<in> set ?words" "CHR 0x00 \<in> set w" using quote_chars [of w] by auto
  moreover have "CHR 0x00 \<notin> set (join '':'' projection)" using set_join [of "'':''" projection] assms(1) by auto
  ultimately show False using assms(1) by auto
qed

text \<open>
  C31: client and device side together: a content query returns the device's rows, column by column, NULL
  where the device has no value, commas and several lines allowed in the last column. When the device
  lists more ids than rows, as its configuration can make it, the query is an error that names both
  numbers and no rows are returned.
\<close>

theorem content_query_of_device:
  assumes "host_connection N avail out" and "serves_shell conf N avail []"
    and "dv_features s = Some fts" and "SHELL_V2_FEATURE \<in> set fts"
    and "projection \<noteq> []" and "projection \<noteq> [''_id'']" and "uri \<noteq> ''--projection''"
    and "\<forall>c \<in> set projection. CHR '':'' \<notin> set c \<and> CHR 0x0A \<notin> set c"
    and "\<forall>w \<in> insert uri (set projection \<union> set extra). CHR 0x27 \<notin> set w \<and> CHR 0x00 \<notin> set w"
    and "columns_ok conf projection" and "columns_ok conf [''_id'']"
    and "wf_str (printed_table conf projection)" and "wf_str (printed_table conf [''_id''])"
    and "length (printed_table conf projection) < 2 ^ 32" and "length (printed_table conf [''_id'']) < 2 ^ 32"
    and "n = length (fc_content_rows conf)" and "m = min (fc_content_extra_ids conf) n"
  shows "\<exists>s'. content_query_with N uri projection extra s =
     Some (if m = 0 then Inr (map (row_of projection \<circ> row_values projection) (fc_content_rows conf))
           else Inl (row_count_mismatch n (n + m)), s')"
proof -
  have rows: "queried_rows conf projection = fc_content_rows conf" "length (queried_rows conf [''_id'']) = n + m"
    using assms(6,16,17) by (simp_all add: queried_rows_def min.commute)
  have runs: "fake_run conf (query_command uri projection extra) = ok_exit (as_bytes (printed_table conf projection))"
    "fake_run conf (query_command uri [''_id''] extra) = ok_exit (as_bytes (printed_table conf [''_id'']))"
    using assms(5,7,8,9) by (auto intro!: fake_run_content)
  have nul: "CHR 0x00 \<notin> set (query_command uri projection extra)" "CHR 0x00 \<notin> set (query_command uri [''_id''] extra)"
    using assms(5,9) query_command_chars [of uri projection extra] query_command_chars [of uri "[''_id'']" extra]
    by auto
  have cat: "query_command uri p extra \<noteq> ''cat''" for p by (simp add: query_command_def)
  obtain printed w1 where one: "shell_checked N (query_command uri projection extra) s = Some (Inr printed, s\<lparr>dv_world := w1\<rparr>)"
    "stdout_text printed = printed_table conf projection"
    using shell_checked_of_device [OF assms(1-4) nul(1) cat runs(1) assms(12,14)] by blast
  obtain listed_ids w2 where two: "shell_checked N (query_command uri [''_id''] extra) (s\<lparr>dv_world := w1\<rparr>)
      = Some (Inr listed_ids, s\<lparr>dv_world := w1\<rparr>\<lparr>dv_world := w2\<rparr>)" "stdout_text listed_ids = printed_table conf [''_id'']"
    using shell_checked_of_device [OF assms(1,2) _ assms(4) nul(2) cat runs(2) assms(13,15), of "s\<lparr>dv_world := w1\<rparr>"] assms(3)
    by fastforce
  have "parse_rows (printed_table conf projection) projection = Inr (map (row_of projection \<circ> row_values projection) (fc_content_rows conf))"
    using parse_printed_table(1) [OF assms(10,5)] assms(8) rows(1) by simp
  moreover have "count_rows (printed_table conf [''_id'']) = n + m"
    using parse_printed_table(2) [OF assms(11)] rows(2) by simp
  ultimately show ?thesis
    using assms(5,16) one two by (auto simp: content_query_with_def and_then_ok Let_def)
qed

lemma sample_rows_table:
  "fc_content_rows sample_fake = [[(''_id'', ''1''), (''address'', ''+15550001''), (''body'', ''Hello, world, with, commas'')]]"
  unfolding sample_fake_def fake_default_def Let_def fake_config.simps by code_simp

theorem content_query_of_device_witness:
  "\<exists>s'. content_query_with (fake_connection sample_fake []) ''content://sms'' [''_id'', ''date'', ''body''] [] fake_device
     = Some (Inr [[(''_id'', ''1''), (''body'', ''Hello, world, with, commas''), (''date'', ''NULL'')]], s')"
proof -
  let ?p = "[''_id'', ''date'', ''body'']"
  have vals: "row_values ?p r = [''1'', ''NULL'', ''Hello, world, with, commas'']" "row_values [''_id''] r = [''1'']"
    if "r \<in> set (fc_content_rows sample_fake)" for r
    using that by (simp_all add: sample_rows_table row_values_def unwrap_or_def)
  have free: "free_text_ok ''Hello, world, with, commas''" "free_text_ok ''1''" by code_simp+
  have ok: "columns_ok sample_fake ?p" "columns_ok sample_fake [''_id'']"
    using vals free by (simp_all add: columns_ok_def)
  have zero: "char_of (48 :: nat) = CHR ''0''" by code_simp
  have tables: "printed_table sample_fake ?p = ''Row: 0 _id=1, date=NULL, body=Hello, world, with, commas'' @ [CHR 0x0A]"
    "printed_table sample_fake [''_id''] = ''Row: 0 _id=1'' @ [CHR 0x0A]"
    unfolding printed_table_def printed_rows_def queried_rows_def sample_rows_table
    by (simp_all add: row_values_def unwrap_or_def print_row_def print_fields_def row_prefix_def dec_of_nat.simps zero
        sample_fake_def fake_default_def)
  have wf: "wf_str (printed_table sample_fake ?p)" "wf_str (printed_table sample_fake [''_id''])"
    unfolding tables by (rule wf_str_ascii, simp)+
  have features: "dv_features fake_device = Some [SHELL_V2_FEATURE]" by (simp add: fake_device_def)
  have "row_of ?p [''1'', ''NULL'', ''Hello, world, with, commas'']
      = [(''_id'', ''1''), (''body'', ''Hello, world, with, commas''), (''date'', ''NULL'')]"
    unfolding row_of_def by code_simp
  then have result: "map (row_of ?p \<circ> row_values ?p) (fc_content_rows sample_fake)
      = [[(''_id'', ''1''), (''body'', ''Hello, world, with, commas''), (''date'', ''NULL'')]]"
    using vals by (simp add: sample_rows_table)
  have none: "fc_content_extra_ids sample_fake = 0" by (simp add: sample_fake_def fake_default_def)
  from content_query_of_device [OF fake_connection_ok fake_connection_serves features _ _ _ _ _ _ ok wf _ _ refl refl,
      where uri = "''content://sms''" and extra = "[]"]
  show ?thesis unfolding result by (simp add: none tables)
qed

end
