(* ===== verification/Fake_Engine.thy ===== *)
theory Fake_Engine
  imports Handshake Fake_Shell
begin

section \<open>The crate's device\<close>

text \<open>
  \<open>tests/common/fake/engine.rs\<close>, the device side of the protocol over any transport: its handshake, and the
  loop that opens services and multiplexes their streams. Its state is the transport, what the tests can
  inspect (\<open>fake_shared\<close>), the open streams and the next id. The random tokens are a parameter \<open>rng\<close>,
  the bytes of each \<open>fill_bytes\<close> in order.

  The lemmas give the messages the device sends for every configuration; the property puts both
  handshakes together.
\<close>

subsection \<open>The handshake\<close>

definition peer_receive :: "'t transport_ops \<Rightarrow> ('t \<times> 'pk fake_shared, message) comp" where
  "peer_receive T =
     and_then (on_client (t_recv T)) (\<lambda>m s.
       Some (Inr m, (fst s, (snd s)\<lparr>fs_received := fs_received (snd s) @ [m]\<rparr>)))"

definition peer_send :: "'t transport_ops \<Rightarrow> message \<Rightarrow> ('t \<times> 'pk fake_shared, unit) comp" where
  "peer_send T m = on_client (t_send T m)"

definition peer_trusts :: "('sk, 'pk) crypto \<Rightarrow> 'pk list \<Rightarrow> bytes \<Rightarrow> message \<Rightarrow> bool" where
  "peer_trusts C keys token m \<longleftrightarrow>
     m_command m = Auth \<and> m_arg0 m = AUTH_SIGNATURE
     \<and> (\<exists>k \<in> set keys. \<not> isl (verify_token C k token (payload m)))"

definition offered_line :: "message \<Rightarrow> str" where
  "offered_line m = trim_end_matches (\<lambda>c. c = CHR 0x00) (utf8_lossy (payload m))"

definition peer_auth ::
  "('sk, 'pk) crypto \<Rightarrow> 't transport_ops \<Rightarrow> (nat \<Rightarrow> bytes) \<Rightarrow> 'pk fake_config
     \<Rightarrow> ('t \<times> 'pk fake_shared, bool) comp" where
  "peer_auth C T rng conf =
     and_then (peer_send T (new_message Auth AUTH_TOKEN 0 (rng 0))) (\<lambda>_.
     and_then (peer_receive T) (\<lambda>sig.
       if peer_trusts C (fc_trusted conf) (rng 0) sig then ret True
       else
         and_then (peer_send T (new_message Auth AUTH_TOKEN 0 (rng 1))) (\<lambda>_.
         and_then (peer_receive T) (\<lambda>offer.
           if m_command offer \<noteq> Auth \<or> m_arg0 offer \<noteq> AUTH_RSAPUBLICKEY
           then throw (Protocol (Lit ''expected RSAPUBLICKEY''))
           else
             and_then (of_result (decode_line C (offered_line offer))) (\<lambda>key.
               if \<not> fc_accept_new_keys conf
               then handle (on_client (t_recv T)) (\<lambda>_. ret False)
               else (\<lambda>s. Some (Inr True, (fst s, (snd s)\<lparr>fs_accepted_key := Some key\<rparr>))))))))"

definition peer_cnxn :: "'pk fake_config \<Rightarrow> message" where
  "peer_cnxn conf = new_message Connect (fc_version conf) (fc_max_payload conf) (as_bytes (to_wire (fc_banner conf)))"

definition peer_handshake ::
  "('sk, 'pk) crypto \<Rightarrow> 't transport_ops \<Rightarrow> (nat \<Rightarrow> bytes) \<Rightarrow> ('t \<times> 'pk fake_shared, bool) comp" where
  "peer_handshake C T rng s =
     (let conf = fs_config (snd s) in
      and_then (peer_receive T) (\<lambda>cnxn.
        if m_command cnxn \<noteq> Connect then throw (Protocol (Lit ''expected CNXN first''))
        else if fc_request_tls conf
        then and_then (peer_send T (empty_message StartTls 1 0)) (\<lambda>_. ret False)
        else
          and_then (if fc_require_auth conf then peer_auth C T rng conf else ret True) (\<lambda>go.
            if \<not> go then ret False
            else and_then (peer_send T (peer_cnxn conf)) (\<lambda>_. ret True)))) s"

subsection \<open>The streams\<close>

record device_stream =
  ds_host_id :: u32
  ds_handler :: handler
  ds_queue :: "bytes list"
  ds_in_flight :: bool

record 'pk engine =
  en_shared :: "'pk fake_shared"
  en_streams :: "u32 \<Rightarrow> device_stream option"
  en_next :: u32

function cut_reply :: "nat \<Rightarrow> bytes \<Rightarrow> bytes list" where
  "cut_reply limit b = (if 0 < limit \<and> limit < length b then take limit b # cut_reply limit (drop limit b) else [b])"
  by pat_completeness auto
termination by (relation "measure (\<lambda>(limit, b). length b)") auto

text \<open>The limit is the peer's payload limit, which \<open>peer_limit\<close> makes positive: at 0 the loop of the code would not end.\<close>

declare cut_reply.simps [simp del]

definition chunked :: "bytes list \<Rightarrow> nat \<Rightarrow> bytes list" where
  "chunked parts limit = filter (\<lambda>b. b \<noteq> []) (concat (map (cut_reply limit) parts))"

definition en_send :: "'t transport_ops \<Rightarrow> message \<Rightarrow> ('t \<times> 'pk engine, unit) comp" where
  "en_send T m = on_client (t_send T m)"

definition en_update :: "('pk engine \<Rightarrow> 'pk engine) \<Rightarrow> ('t \<times> 'pk engine, unit) comp" where
  "en_update f s = Some (Inr (), (fst s, f (snd s)))"

definition set_stream :: "u32 \<Rightarrow> device_stream option \<Rightarrow> 'pk engine \<Rightarrow> 'pk engine" where
  "set_stream i st en = en\<lparr>en_streams := (en_streams en)(i := st)\<rparr>"

definition pump :: "'t transport_ops \<Rightarrow> u32 \<Rightarrow> ('t \<times> 'pk engine, unit) comp" where
  "pump T i s =
     (case en_streams (snd s) i of
        None \<Rightarrow> ret () s
      | Some st \<Rightarrow>
          if ds_in_flight st then ret () s
          else
            case ds_queue st of
              chunk # rest \<Rightarrow>
                and_then (en_update (set_stream i (Some (st\<lparr>ds_queue := rest, ds_in_flight := True\<rparr>)))) (\<lambda>_.
                en_send T (new_message Write i (ds_host_id st) chunk)) s
            | [] \<Rightarrow>
                if handler_finished (ds_handler st)
                then and_then (en_update (set_stream i None)) (\<lambda>_. en_send T (empty_message Close i (ds_host_id st))) s
                else ret () s)"

definition service_name :: "message \<Rightarrow> str" where
  "service_name m = trim_end_matches (\<lambda>c. c = CHR 0x00) (utf8_lossy (payload m))"

text \<open>An id after the last one would overflow.\<close>

definition en_open :: "'t transport_ops \<Rightarrow> nat \<Rightarrow> message \<Rightarrow> ('t \<times> 'pk engine, unit) comp" where
  "en_open T limit msg s =
     (case fake_open (en_shared (snd s)) (service_name msg) of
        None \<Rightarrow> en_send T (empty_message Close 0 (m_arg0 msg)) s
      | Some (h, sh) \<Rightarrow>
          let i = en_next (snd s) in
          if i = 0xFFFFFFFF then None
          else
            and_then (en_update (\<lambda>en. en\<lparr>en_shared := sh, en_next := i + 1\<rparr>)) (\<lambda>_.
            and_then (en_send T (empty_message Okay i (m_arg0 msg))) (\<lambda>_.
            let (out, h') = handler_on_open h in
            and_then (en_update (set_stream i (Some
              \<lparr>ds_host_id = m_arg0 msg, ds_handler = h', ds_queue = chunked out limit, ds_in_flight = False\<rparr>))) (\<lambda>_.
            pump T i))) s)"

definition en_write :: "'t transport_ops \<Rightarrow> nat \<Rightarrow> message \<Rightarrow> ('t \<times> 'pk engine, unit) comp" where
  "en_write T limit msg s =
     (let i = m_arg1 msg in
      case en_streams (snd s) i of
        None \<Rightarrow> ret () s
      | Some st \<Rightarrow>
          and_then (en_send T (empty_message Okay i (m_arg0 msg))) (\<lambda>_ s.
            case handler_on_data (en_shared (snd s)) (ds_handler st) (payload msg) of
              None \<Rightarrow> None
            | Some (out, h, sh) \<Rightarrow>
                and_then (en_update (\<lambda>en. set_stream i
                    (Some (st\<lparr>ds_handler := h, ds_queue := ds_queue st @ chunked out limit\<rparr>)) (en\<lparr>en_shared := sh\<rparr>))) (\<lambda>_.
                pump T i) s) s)"

definition en_okay :: "'t transport_ops \<Rightarrow> message \<Rightarrow> ('t \<times> 'pk engine, unit) comp" where
  "en_okay T msg s =
     (let i = m_arg1 msg in
      case en_streams (snd s) i of
        None \<Rightarrow> ret () s
      | Some st \<Rightarrow> and_then (en_update (set_stream i (Some (st\<lparr>ds_in_flight := False\<rparr>)))) (\<lambda>_. pump T i) s)"

definition en_message :: "'t transport_ops \<Rightarrow> nat \<Rightarrow> message \<Rightarrow> ('t \<times> 'pk engine, unit) comp" where
  "en_message T limit msg =
     (case m_command msg of
        Open \<Rightarrow> en_open T limit msg
      | Write \<Rightarrow> en_write T limit msg
      | Okay \<Rightarrow> en_okay T msg
      | Close \<Rightarrow> en_update (set_stream (m_arg1 msg) None)
      | other \<Rightarrow> throw (Protocol (Fmt ''fake device got {other}'' [Txt (mnemonic other)])))"

definition en_received :: "message \<Rightarrow> 'pk engine \<Rightarrow> 'pk engine" where
  "en_received m en = en\<lparr>en_shared := (en_shared en)\<lparr>fs_received := fs_received (en_shared en) @ [m]\<rparr>\<rparr>"

partial_function (option) en_loop ::
  "'t transport_ops \<Rightarrow> nat \<Rightarrow> 't \<times> 'pk engine \<Rightarrow> (unit result \<times> ('t \<times> 'pk engine)) option" where
  "en_loop T limit s =
     (case on_client (t_recv T) s of
        None \<Rightarrow> None
      | Some (Inl e, s') \<Rightarrow> if e = Disconnected then Some (Inr (), s') else Some (Inl e, s')
      | Some (Inr msg, s') \<Rightarrow>
          and_then (en_message T limit msg) (\<lambda>_. en_loop T limit) (fst s', en_received msg (snd s')))"

definition peer_limit :: "'pk fake_config \<Rightarrow> u32" where
  "peer_limit conf = (if fc_max_payload conf = 0 then LEGACY_MAX_PAYLOAD else fc_max_payload conf)"

definition peer_run ::
  "('sk, 'pk) crypto \<Rightarrow> 't transport_ops \<Rightarrow> (nat \<Rightarrow> bytes) \<Rightarrow> 't \<Rightarrow> 'pk fake_shared
     \<Rightarrow> (unit result \<times> ('t \<times> 'pk fake_shared)) option" where
  "peer_run C T rng t sh =
     (case peer_handshake C T rng (t_configure T INITIAL t, sh) of
        None \<Rightarrow> None
      | Some (Inl e, s) \<Rightarrow> Some (Inl e, s)
      | Some (Inr go, (t1, sh1)) \<Rightarrow>
          if \<not> go then Some (Inr (), (t1, sh1))
          else
            let conf = fs_config sh1; limit = peer_limit conf in
            case en_loop T (unat limit)
                (t_configure T (negotiated_config (fc_version conf) limit) t1,
                 \<lparr>en_shared = sh1, en_streams = (\<lambda>_. None), en_next = 100\<rparr>) of
              None \<Rightarrow> None
            | Some (r, (t2, en)) \<Rightarrow> Some (r, (t2, en_shared en)))"

subsection \<open>What both sides send\<close>

text \<open>The device's token messages, and whether it knows the key that made a signature.\<close>

definition token_message :: "bytes \<Rightarrow> message" where
  "token_message token = new_message Auth AUTH_TOKEN 0 token"

definition knows :: "('sk, 'pk) crypto \<Rightarrow> 'pk fake_config \<Rightarrow> bytes \<Rightarrow> bytes \<Rightarrow> bool" where
  "knows C conf token signature \<longleftrightarrow> (\<exists>k \<in> set (fc_trusted conf). \<not> isl (verify_token C k token signature))"

text \<open>The messages of a handshake in which the host signs \<open>token 0\<close> with \<open>sg\<close>.\<close>

definition device_says :: "'pk fake_config \<Rightarrow> (nat \<Rightarrow> bytes) \<Rightarrow> bool \<Rightarrow> message list" where
  "device_says conf rng known =
     (if fc_request_tls conf then [empty_message StartTls 1 0]
      else (if \<not> fc_require_auth conf then [] else if known then [token_message (rng 0)]
            else [token_message (rng 0), token_message (rng 1)])
        @ (if fc_require_auth conf \<and> \<not> known \<and> \<not> fc_accept_new_keys conf then [] else [peer_cnxn conf]))"

definition host_says :: "'pk fake_config \<Rightarrow> bytes \<Rightarrow> bytes \<Rightarrow> bool \<Rightarrow> message list" where
  "host_says conf sg pubkey known =
     (if fc_request_tls conf \<or> \<not> fc_require_auth conf then []
      else if known then [signature_message sg] else [signature_message sg, pubkey_message pubkey])"

definition lets_in :: "'pk fake_config \<Rightarrow> bool \<Rightarrow> bool" where
  "lets_in conf known \<longleftrightarrow>
     \<not> fc_request_tls conf \<and> (fc_require_auth conf \<longrightarrow> known \<or> fc_accept_new_keys conf)"

lemma decide_token:
  "\<not> sent_signature st \<Longrightarrow> sign_token C key token = Inr sg \<Longrightarrow>
     hs_decide C key st (token_message token) = (Inr (st\<lparr>sent_signature := True\<rparr>), [signature_message sg])"
  "sent_signature st \<Longrightarrow> \<not> sent_pubkey st \<Longrightarrow> public_key_payload C key = Inr p \<Longrightarrow>
     hs_decide C key st (token_message token) = (Inr (st\<lparr>sent_pubkey := True\<rparr>), [pubkey_message p])"
  by (simp_all add: hs_decide_def token_message_def signature_message_def pubkey_message_def)

lemma decide_cnxn: "hs_decide C key st (peer_cnxn conf) = (Inl (negotiate (peer_cnxn conf)), [])"
  by (simp add: hs_decide_def peer_cnxn_def)

lemma host_run:
  assumes "sign_token C key (rng 0) = Inr sg" and "public_key_payload C key = Inr p" and "lets_in conf known"
  shows "hs_run C key hs_init (device_says conf rng known) = Some (negotiate (peer_cnxn conf), host_says conf sg p known, [])"
  using assms by (auto simp: device_says_def host_says_def lets_in_def decide_token decide_cnxn hs_init_def)

lemma host_run_refused:
  assumes "sign_token C key (rng 0) = Inr sg" and "public_key_payload C key = Inr p"
    and "\<not> fc_request_tls conf" and "fc_require_auth conf" and "\<not> known" and "\<not> fc_accept_new_keys conf"
  shows "hs_run C key hs_init (device_says conf rng known) = None"
  using assms by (simp add: device_says_def decide_token hs_init_def)

context message_transport
begin

lemma peer_receive_run:
  assumes "invar u" and "inbox u = m # ms"
  shows "\<exists>u'. peer_receive T (u, sh) = Some (Inr m, (u', sh\<lparr>fs_received := fs_received sh @ [m]\<rparr>))
     \<and> inbox u' = ms \<and> outbox u' = outbox u \<and> invar u'"
proof -
  obtain u' where "t_recv T u = Some (Inr m, u')" "inbox u' = ms" "outbox u' = outbox u" "invar u'"
    using recv_next [OF assms] by blast
  then show ?thesis by (simp add: peer_receive_def and_then_ok on_client_def on_part_def)
qed

lemma peer_send_run:
  assumes "invar u" and "length (payload m) \<le> unat MAX_PAYLOAD"
  shows "\<exists>u'. peer_send T m (u, sh) = Some (Inr (), (u', sh)) \<and> inbox u' = inbox u \<and> outbox u' = outbox u @ [m] \<and> invar u'"
proof -
  obtain u' where "t_send T m u = Some (Inr (), u')" "inbox u' = inbox u" "outbox u' = outbox u @ [m]" "invar u'"
    using send_message [OF assms] by blast
  then show ?thesis by (simp add: peer_send_def on_client_def on_part_def)
qed

lemma peer_auth_run:
  assumes "invar u" and "inbox u = (if known then [signature_message sg] else [signature_message sg, pubkey_message p])"
    and "known = knows C conf (rng 0) sg" and "known \<or> fc_accept_new_keys conf"
    and "length (rng 0) \<le> unat MAX_PAYLOAD" and "length (rng 1) \<le> unat MAX_PAYLOAD"
    and "decode_line C (offered_line (pubkey_message p)) = Inr k"
  shows "\<exists>u' sh'. peer_auth C T rng conf (u, sh) = Some (Inr True, (u', sh'))
     \<and> outbox u' = outbox u @ (if known then [token_message (rng 0)] else [token_message (rng 0), token_message (rng 1)])
     \<and> invar u' \<and> inbox u' = []
     \<and> fs_accepted_key sh' = (if known then fs_accepted_key sh else Some k)"
proof -
  have small: "length (payload (token_message (rng 0))) \<le> unat MAX_PAYLOAD"
    "length (payload (token_message (rng 1))) \<le> unat MAX_PAYLOAD"
    using assms(5,6) by (simp_all add: token_message_def)
  obtain u1 where u1: "peer_send T (token_message (rng 0)) (u, sh) = Some (Inr (), (u1, sh))" "inbox u1 = inbox u"
    "outbox u1 = outbox u @ [token_message (rng 0)]" "invar u1"
    using peer_send_run [OF assms(1) small(1)] by blast
  have trusts: "peer_trusts C (fc_trusted conf) (rng 0) (signature_message sg) \<longleftrightarrow> known"
    by (simp add: peer_trusts_def assms(3) knows_def signature_message_def)
  show ?thesis
  proof (cases known)
    case True
    then have "inbox u1 = [signature_message sg]" using u1(2) assms(2) by simp
    from peer_receive_run [OF u1(4) this, of sh] obtain u2 where
      "peer_receive T (u1, sh) = Some (Inr (signature_message sg), (u2, sh\<lparr>fs_received := fs_received sh @ [signature_message sg]\<rparr>))"
      "inbox u2 = []" "outbox u2 = outbox u1" "invar u2" by blast
    with True u1 trusts show ?thesis by (simp add: peer_auth_def and_then_ok flip: token_message_def)
  next
    case False
    then have "inbox u1 = [signature_message sg, pubkey_message p]" using u1(2) assms(2) by simp
    from peer_receive_run [OF u1(4) this, of sh] obtain u2 where
      u2: "peer_receive T (u1, sh) = Some (Inr (signature_message sg), (u2, sh\<lparr>fs_received := fs_received sh @ [signature_message sg]\<rparr>))"
      "inbox u2 = [pubkey_message p]" "outbox u2 = outbox u1" "invar u2" by blast
    let ?sh = "sh\<lparr>fs_received := fs_received sh @ [signature_message sg]\<rparr>"
    obtain u3 where u3: "peer_send T (token_message (rng 1)) (u2, ?sh) = Some (Inr (), (u3, ?sh))" "inbox u3 = inbox u2"
      "outbox u3 = outbox u2 @ [token_message (rng 1)]" "invar u3"
      using peer_send_run [OF u2(4) small(2)] by blast
    have "inbox u3 = [pubkey_message p]" using u3(2) u2(2) by simp
    from peer_receive_run [OF u3(4) this, of ?sh] obtain u4 where
      u4: "peer_receive T (u3, ?sh) = Some (Inr (pubkey_message p), (u4, ?sh\<lparr>fs_received := fs_received ?sh @ [pubkey_message p]\<rparr>))"
      "inbox u4 = []" "outbox u4 = outbox u3" "invar u4" by blast
    have "m_command (pubkey_message p) = Auth \<and> m_arg0 (pubkey_message p) = AUTH_RSAPUBLICKEY"
      by (simp add: pubkey_message_def)
    with False u1 u2 u3 u4 trusts assms(4,7) show ?thesis
      by (simp add: peer_auth_def and_then_ok flip: token_message_def)
  qed
qed

lemma peer_handshake_run:
  assumes "invar u" and "inbox u = hello # host_says conf sg p known" and "fs_config sh = conf"
    and "known = knows C conf (rng 0) sg" and "lets_in conf known"
    and "length (rng 0) \<le> unat MAX_PAYLOAD" and "length (rng 1) \<le> unat MAX_PAYLOAD"
    and "length (to_wire (fc_banner conf)) \<le> unat MAX_PAYLOAD"
    and "decode_line C (offered_line (pubkey_message p)) = Inr k"
  shows "\<exists>u' sh'. peer_handshake C T rng (u, sh) = Some (Inr True, (u', sh'))
     \<and> outbox u' = outbox u @ device_says conf rng known
     \<and> fs_accepted_key sh' = (if fc_require_auth conf \<and> \<not> known then Some k else fs_accepted_key sh)"
proof -
  let ?sh = "sh\<lparr>fs_received := fs_received sh @ [hello]\<rparr>"
  obtain u1 where u1: "peer_receive T (u, sh) = Some (Inr hello, (u1, ?sh))"
    "inbox u1 = host_says conf sg p known" "outbox u1 = outbox u" "invar u1"
    using peer_receive_run [OF assms(1,2)] by blast
  have hello: "m_command hello = Connect" by (simp add: hello_def)
  have cnxn: "length (payload (peer_cnxn conf)) \<le> unat MAX_PAYLOAD" using assms(8) by (simp add: peer_cnxn_def)
  have no_tls: "\<not> fc_request_tls conf" using assms(5) by (simp add: lets_in_def)
  show ?thesis
  proof (cases "fc_require_auth conf")
    case False
    obtain u2 where "peer_send T (peer_cnxn conf) (u1, ?sh) = Some (Inr (), (u2, ?sh))" "outbox u2 = outbox u1 @ [peer_cnxn conf]"
      using peer_send_run [OF u1(4) cnxn] by blast
    with False u1 no_tls hello show ?thesis
      by (simp add: peer_handshake_def Let_def assms(3) and_then_ok device_says_def)
  next
    case True
    then have "inbox u1 = (if known then [signature_message sg] else [signature_message sg, pubkey_message p])"
      using u1(2) no_tls by (simp add: host_says_def)
    moreover have "known \<or> fc_accept_new_keys conf" using assms(5) True by (simp add: lets_in_def)
    ultimately obtain u2 sh2 where u2: "peer_auth C T rng conf (u1, ?sh) = Some (Inr True, (u2, sh2))"
      "outbox u2 = outbox u1 @ (if known then [token_message (rng 0)] else [token_message (rng 0), token_message (rng 1)])"
      "invar u2" "fs_accepted_key sh2 = (if known then fs_accepted_key ?sh else Some k)"
      using peer_auth_run [OF u1(4) _ assms(4) _ assms(6,7,9), of ?sh] by blast
    obtain u3 where "peer_send T (peer_cnxn conf) (u2, sh2) = Some (Inr (), (u3, sh2))" "outbox u3 = outbox u2 @ [peer_cnxn conf]"
      using peer_send_run [OF u2(3) cnxn] by blast
    with True u1 u2 no_tls hello assms(5) show ?thesis
      by (auto simp: peer_handshake_def Let_def assms(3) and_then_ok device_says_def lets_in_def)
  qed
qed

end

subsection \<open>Both handshakes together\<close>

text \<open>The key the device reads from the host's offer is the host's key.\<close>

lemma offered_key:
  assumes "base64_codec C" and "rsa_accepts C (public_key key)" and "public_key_line C key = Inr line"
    and "wf_str (comment key)" and "CHR 0x00 \<notin> set (comment key)"
  shows "decode_line C (offered_line (pubkey_message (as_bytes line @ [0]))) = Inr (public_key key)"
    and "public_key_payload C key = Inr (as_bytes line @ [0])"
proof -
  from assms(3) obtain bs where line: "line = b64_encode C bs @ '' '' @ comment key"
    by (auto simp: public_key_line_def encode_line_def split: sum.splits)
  define b64 where "b64 = b64_encode C bs"
  have b64: "line = b64 @ '' '' @ comment key"
    "set b64 \<subseteq> set ''ABCDEFGHIJKLMNOPQRSTUVWXYZabcdefghijklmnopqrstuvwxyz0123456789+/=''"
    using assms(1) line unfolding b64_def base64_codec_def by blast+
  have "\<forall>c \<in> set ''ABCDEFGHIJKLMNOPQRSTUVWXYZabcdefghijklmnopqrstuvwxyz0123456789+/=''. of_char c < (128 :: nat)"
    by code_simp
  then have "wf_str b64" using b64(2) by (intro wf_str_ascii) blast
  moreover have "wf_str '' ''" by (rule wf_str_ascii) simp
  ultimately have "wf_str line" unfolding b64(1) using assms(4) by (intro wf_str_append)
  moreover have "wf_str [CHR 0x00]" by (rule wf_str_ascii) simp
  ultimately have "wf_str (line @ [CHR 0x00])" by (rule wf_str_append)
  then have "utf8_lossy (as_bytes (line @ [CHR 0x00])) = line @ [CHR 0x00]" by (rule utf8_lossy_str)
  moreover have "as_bytes (line @ [CHR 0x00]) = as_bytes line @ [0]" by (simp add: byte_of_def)
  ultimately have text_line: "utf8_lossy (as_bytes line @ [0]) = line @ [CHR 0x00]" by simp
  have "last line \<noteq> CHR 0x00"
  proof (cases "comment key = []")
    case True
    then show ?thesis by (simp add: b64(1))
  next
    case False
    then have "last (comment key) \<in> set (comment key)" by (rule last_in_set)
    with assms(5) have "last (comment key) \<noteq> CHR 0x00" by metis
    with False show ?thesis by (simp add: b64(1))
  qed
  then have "line = [] \<or> last line \<noteq> CHR 0x00" ..
  then have "offered_line (pubkey_message (as_bytes line @ [0])) = line"
    by (simp add: offered_line_def pubkey_message_def text_line trim_end_matches_append trim_end_matches_id)
  with pubkey_line_roundtrip [OF assms(1-3)]
  show "decode_line C (offered_line (pubkey_message (as_bytes line @ [0]))) = Inr (public_key key)"
    and "public_key_payload C key = Inr (as_bytes line @ [0])" by simp_all
qed

definition device_terms :: "'pk fake_config \<Rightarrow> negotiated" where
  "device_terms conf = \<lparr>n_banner = fc_banner conf, n_version = fc_version conf, n_max_payload = peer_limit conf\<rparr>"

definition supported :: "'pk fake_config \<Rightarrow> bool" where
  "supported conf \<longleftrightarrow> VERSION_MIN \<le> fc_version conf \<and> fc_version conf \<le> VERSION
     \<and> peer_limit conf \<le> MAX_PAYLOAD \<and> wf_banner (fc_banner conf) \<and> wf_str (to_wire (fc_banner conf))
     \<and> length (to_wire (fc_banner conf)) \<le> unat MAX_PAYLOAD"

lemma negotiate_supported: "supported conf \<Longrightarrow> negotiate (peer_cnxn conf) = Inr (device_terms conf)"
  using parse_to_wire_tail [of "fc_banner conf" "[]"]
  by (auto simp: supported_def negotiate_def peer_cnxn_def device_terms_def peer_limit_def utf8_lossy_str Let_def min_def)

text \<open>
  C29: the host's handshake and the device's fit together, over any byte streams: when the device's
  configuration lets the host in and each side receives what this exchange has the other send, both
  succeed, each side sends exactly those messages, the host holds the device's banner, version and
  payload limit and frames messages as the device does, and the device has stored the host's key
  exactly when it did not know it.
\<close>

theorem handshake_agrees:
  assumes "over_stream C key timeout R avail W out w"
    and "reads_bytes R' avail'" and "writes_bytes W' out'" and "out' w' = []"
    and "base64_codec C" and "rsa_accepts C (public_key key)" and "public_key_line C key = Inr line"
    and "wf_str (comment key)" and "CHR 0x00 \<notin> set (comment key)" and "sign_token C key (rng 0) = Inr sg"
    and "length (rng 0) \<le> unat MAX_PAYLOAD" and "length (rng 1) \<le> unat MAX_PAYLOAD"
    and "fs_config sh = conf" and "supported conf" and "known = knows C conf (rng 0) sg" and "lets_in conf known"
    and "deframe_all INITIAL (avail r) = device_says conf rng known"
    and "deframe_all INITIAL (avail' r') = hello # host_says conf sg (as_bytes line @ [0]) known"
  shows "\<exists>t u sh'. handshake C key timeout wt (stream_transport_ops R W) (new_stream_transport r w) = Some (Inr (device_terms conf), t)
     \<and> stream_outbox out t = hello # host_says conf sg (as_bytes line @ [0]) known
     \<and> stream_config t = negotiated_config (fc_version conf) (peer_limit conf)
     \<and> peer_handshake C (stream_transport_ops R' W') rng
         (t_configure (stream_transport_ops R' W') INITIAL (new_stream_transport r' w'), sh) = Some (Inr True, (u, sh'))
     \<and> stream_outbox out' u = device_says conf rng known
     \<and> fs_accepted_key sh' = (if fc_require_auth conf \<and> \<not> known then Some (public_key key) else fs_accepted_key sh)"
proof -
  let ?T = "stream_transport_ops R' W'"
  let ?u = "t_configure ?T INITIAL (new_stream_transport r' w')"
  note key = offered_key [OF assms(5-9)]
  have "hs_run C key hs_init (deframe_all INITIAL (avail r))
      = Some (Inr (device_terms conf), host_says conf sg (as_bytes line @ [0]) known, [])"
    unfolding assms(17) using host_run [where rng = rng, OF assms(10) key(2) assms(16)] negotiate_supported [OF assms(14)] by simp
  from stream_handshake_run [OF assms(1) this, of wt] obtain t where
    t: "handshake C key timeout wt (stream_transport_ops R W) (new_stream_transport r w) = Some (Inr (device_terms conf), t)"
      "stream_outbox out t = hello # host_says conf sg (as_bytes line @ [0]) known"
      "stream_config t = negotiated_config (fc_version conf) (peer_limit conf)"
    by (auto simp: device_terms_def)
  have device: "message_transport ?T (stream_inbox avail') (stream_outbox out') stream_config (stream_invar out')"
    by (rule stream_transport_contract [OF assms(2,3)])
  have u: "stream_invar out' ?u" "stream_outbox out' ?u = []"
    using message_transport.configure [OF device fresh_stream(1) [where out = out' and w = w' and r = r', OF assms(4)], of INITIAL]
      fresh_stream(2) [where out = out' and w = w' and r = r', OF assms(4)] by simp_all
  have inbox: "stream_inbox avail' ?u = hello # host_says conf sg (as_bytes line @ [0]) known"
    unfolding fresh_stream(3) [where out = out' and w = w', OF assms(4)] assms(18) ..
  have wire: "length (to_wire (fc_banner conf)) \<le> unat MAX_PAYLOAD" using assms(14) by (simp add: supported_def)
  from message_transport.peer_handshake_run [OF device u(1) inbox assms(13,15,16,11,12) wire key(1)] u(2) t
  show ?thesis by auto
qed

text \<open>A device that knows no key and takes the one it is offered; its random bytes are repeated.\<close>

definition sample_conf :: "(nat \<times> nat) fake_config" where
  "sample_conf = fake_default\<lparr>fc_accept_new_keys := True\<rparr>"

definition sample_tokens :: "nat \<Rightarrow> bytes" where
  "sample_tokens i = replicate 20 (if i = 0 then 7 else 8)"

lemma sample_conf_simps:
  "fc_accept_new_keys sample_conf" "fc_require_auth sample_conf" "\<not> fc_request_tls sample_conf"
  "fc_trusted sample_conf = []" "fc_version sample_conf = VERSION" "fc_max_payload sample_conf = MAX_PAYLOAD"
  by (simp_all add: sample_conf_def fake_default_def Let_def)

lemma sample_supported: "supported sample_conf" "length (to_wire (fc_banner sample_conf)) \<le> 1000"
proof -
  have "\<forall>c \<in> set (to_wire (fc_banner sample_conf)). of_char c < (128 :: nat)"
    unfolding sample_conf_def fake_default_def Let_def fake_config.simps by code_simp
  then have "wf_str (to_wire (fc_banner sample_conf))" by (rule wf_str_ascii)
  moreover have "wf_banner (fc_banner sample_conf)"
    unfolding sample_conf_def fake_default_def Let_def fake_config.simps wf_banner_def by code_simp
  moreover show "length (to_wire (fc_banner sample_conf)) \<le> 1000"
    unfolding sample_conf_def fake_default_def Let_def fake_config.simps by code_simp
  ultimately show "supported sample_conf"
    by (simp add: supported_def sample_conf_simps peer_limit_def VERSION_def VERSION_MIN_def MAX_PAYLOAD_def)
qed

lemma sample_line:
  obtains line where "public_key_line sample_crypto sample_host = Inr line"
    and "length (as_bytes line @ [0 :: u8]) \<le> 2000"
proof -
  obtain p where p: "public_key_payload sample_crypto sample_host = Inr p" "length p = 2 * ENCODED_LEN + 11"
    by (rule sample_pubkey)
  then obtain line where "public_key_line sample_crypto sample_host = Inr line" "p = as_bytes line @ [0]"
    by (auto simp: public_key_payload_def split: sum.splits)
  with p(2) show ?thesis by (intro that) (auto simp: ENCODED_LEN_def MODULUS_BYTES_def KEY_BITS_def)
qed

theorem handshake_agrees_witness:
  "\<exists>line t u sh'. public_key_line sample_crypto sample_host = Inr line
     \<and> handshake sample_crypto sample_host sample_timeout 9 (stream_transport_ops chunk_reader byte_sink)
         (new_stream_transport (sample_input (device_says sample_conf sample_tokens False)) [])
         = Some (Inr (device_terms sample_conf), t)
     \<and> peer_handshake sample_crypto (stream_transport_ops chunk_reader byte_sink) sample_tokens
         (t_configure (stream_transport_ops chunk_reader byte_sink) INITIAL (new_stream_transport (sample_input
            (hello # host_says sample_conf (replicate 20 7) (as_bytes line @ [0]) False)) []), new_shared sample_conf)
         = Some (Inr True, (u, sh'))
     \<and> fs_accepted_key sh' = Some sample_key"
proof -
  obtain line where line: "public_key_line sample_crypto sample_host = Inr line"
    "length (as_bytes line @ [0 :: u8]) \<le> 2000" by (rule sample_line)
  let ?ds = "device_says sample_conf sample_tokens False"
  let ?hs = "host_says sample_conf (replicate 20 7) (as_bytes line @ [0]) False"
  have small: "length (sample_tokens i) \<le> unat MAX_PAYLOAD" for i by (simp add: sample_tokens_def MAX_PAYLOAD_def)
  have "deframe_all INITIAL (concat (sample_input ?ds)) = ?ds"
    using sample_supported(2)
    by (intro deframe_sample) (auto simp: device_says_def sample_conf_simps token_message_def peer_cnxn_def sample_tokens_def)
  moreover have "length (payload hello) \<le> 2000" by (simp add: hello_def) code_simp
  then have "deframe_all INITIAL (concat (sample_input (hello # ?hs))) = hello # ?hs"
    using line(2) by (intro deframe_sample) (auto simp: host_says_def sample_conf_simps signature_message_def pubkey_message_def)
  moreover have "sign_token sample_crypto sample_host (sample_tokens 0) = Inr (replicate 20 7)"
    by (simp add: sample_sign sample_tokens_def)
  moreover have "False = knows sample_crypto sample_conf (sample_tokens 0) (replicate 20 7)"
    by (simp add: knows_def sample_conf_simps)
  moreover have "lets_in sample_conf False" by (simp add: lets_in_def sample_conf_simps)
  moreover have "wf_str (comment sample_host)" by (rule wf_str_ascii) (simp add: sample_host_def)
  moreover have "CHR 0x00 \<notin> set (comment sample_host)" by (simp add: sample_host_def)
  moreover have "rsa_accepts sample_crypto (public_key sample_host)" using sample_accepts by (simp add: sample_host_def)
  moreover have "fs_config (new_shared sample_conf) = sample_conf" "public_key sample_host = sample_key"
    by (simp_all add: new_shared_def Let_def sample_host_def)
  ultimately show ?thesis
    using handshake_agrees [where wt = 9 and sg = "replicate 20 7" and known = False and conf = sample_conf and sh = "new_shared sample_conf"
        and rng = sample_tokens and line = line and r = "sample_input ?ds" and r' = "sample_input (hello # ?hs)" and w' = "[]",
        OF sample_over_stream reads_bytes_chunks writes_bytes_sink _ sample_base64 _ line(1)]
      small sample_supported(1) line(1) by (auto simp: sample_conf_simps)
qed

end
