(* ===== verification/Fake_Session.thy ===== *)
theory Fake_Session
  imports Fake_Engine Direct
begin

section \<open>A session with the crate's device\<close>

text \<open>
  \<open>spawn\<close> of \<open>tests/common/fake/mod.rs\<close> runs the device's loop on one end of an in-memory pipe and the
  library on the other. Here both are put together: the environment of a stream's owner is the device,
  reading what the writer task has sent and answering through the reader task. How many rounds pass
  before each of their actions is a parameter, \<open>rn_pace\<close>, so what is proved holds however slow each
  side is.

  A state of the composition is described by where the messages are: in the writer's queue, on the
  pipe, or on the way back. The measure of every wait is their distance from the owner. The properties
  follow a whole call from \<open>open_stream\<close> to the last byte of the output.
\<close>

subsection \<open>The composition\<close>

text \<open>The device's end of the pipe: what arrived, and what it sent. The end of what arrived is the end of a turn.\<close>

definition pipe_ops :: "(message list \<times> message list) transport_ops" where
  "pipe_ops =
     \<lparr>t_send = (\<lambda>m p. Some (Inr (), (fst p, snd p @ [m]))),
      t_recv = (\<lambda>p. case fst p of [] \<Rightarrow> Some (Inl Disconnected, p) | m # ms \<Rightarrow> Some (Inr m, (ms, snd p))),
      t_configure = (\<lambda>_ p. p)\<rparr>"

record 'pk running =
  rn_engine :: "'pk engine"
  rn_sent :: "message list"  \<comment> \<open>not received yet by the host\<close>
  rn_read :: nat  \<comment> \<open>how many messages of the host were read\<close>
  rn_idle :: nat  \<comment> \<open>rounds until the next action\<close>
  rn_pace :: "nat \<Rightarrow> nat"
  rn_tick :: nat

text \<open>
  One action: the host's reader receives a message, the device reads what has arrived, or the host's
  writer sends one. When the device fails, its end of the pipe is gone.
\<close>

definition device_side :: "nat \<Rightarrow> 'pk running \<Rightarrow> session \<Rightarrow> event list \<times> 'pk running" where
  "device_side limit d s =
     (case rn_sent d of
        m # ms \<Rightarrow> ([Received (Inr m)], d\<lparr>rn_sent := ms\<rparr>)
      | [] \<Rightarrow>
          if rn_read d < length (on_wire s)
          then case en_loop pipe_ops limit ((drop (rn_read d) (on_wire s), []), rn_engine d) of
                 Some (Inr _, ((_, out), en)) \<Rightarrow> ([], d\<lparr>rn_engine := en, rn_sent := out, rn_read := length (on_wire s)\<rparr>)
               | _ \<Rightarrow> ([Received (Inl Disconnected)], d)
          else ([Written None], d))"

definition engine_env :: "nat \<Rightarrow> 'pk running env" where
  "engine_env limit d s = Some
     (if rn_idle d \<noteq> 0 then ([], d\<lparr>rn_idle := rn_idle d - 1\<rparr>)
      else device_side limit (d\<lparr>rn_idle := rn_pace d (rn_tick d), rn_tick := Suc (rn_tick d)\<rparr>) s)"

definition new_engine :: "'pk fake_shared \<Rightarrow> 'pk engine" where
  "new_engine sh = \<lparr>en_shared = sh, en_streams = (\<lambda>_. None), en_next = 100\<rparr>"

text \<open>The session and the device after a handshake.\<close>

definition spawned :: "negotiated \<Rightarrow> 'pk fake_shared \<Rightarrow> (nat \<Rightarrow> nat) \<Rightarrow> 'pk running world" where
  "spawned n sh pace =
     \<lparr>sess = session_start n,
      sched = \<lparr>rn_engine = new_engine sh, rn_sent = [], rn_read = 0, rn_idle = pace 0, rn_pace = pace, rn_tick = 1\<rparr>\<rparr>"

subsection \<open>A turn of the other side\<close>

definition turn :: "nat \<Rightarrow> 'pk running world \<Rightarrow> 'pk running world" where
  "turn limit w =
     (case the (engine_env limit (sched w) (sess w)) of (es, d) \<Rightarrow> \<lparr>sess = happens es (sess w), sched = d\<rparr>)"

lemma engine_env_total: "engine_env limit d s \<noteq> None"
  by (simp add: engine_env_def)

lemma pause_turn: "pause (engine_env limit) w = Some (Inr (), turn limit w)"
  by (auto simp: pause_def turn_def engine_env_def split: prod.splits)

lemma notified_turn:
  "\<not> wake (stream_of (sess w) i) \<Longrightarrow> notified (engine_env limit) i w = notified (engine_env limit) i (turn limit w)"
  by (subst notified.simps) (auto simp: turn_def engine_env_def split: prod.splits)

lemma recv_data_turn:
  "data_q (stream_of (sess w) i) = [] \<Longrightarrow> data_tx (stream_of (sess w) i) \<Longrightarrow>
     recv_data (engine_env limit) i w = recv_data (engine_env limit) i (turn limit w)"
  by (subst recv_data.simps) (auto simp: take_chunk_def take_data_def turn_def engine_env_def split: prod.splits)

lemma engine_alone: "leaves_alone (engine_env limit) i l"
  by (auto simp: leaves_alone_def engine_env_def device_side_def split: if_splits list.splits option.splits sum.splits prod.splits)

lemma turn_agreed: "0 < length (states (reg (sess w))) \<Longrightarrow> agreed (sess (turn limit w)) = agreed (sess w)"
  using pause_progress [OF engine_alone [of limit 0 1] _ pause_turn] by (auto simp: progress_def)

text \<open>Where the messages are, and how far from the owner.\<close>

definition unread :: "'pk running world \<Rightarrow> message list" where
  "unread w = drop (rn_read (sched w)) (on_wire (sess w))"

definition wires :: "message list \<Rightarrow> message list \<Rightarrow> message list \<Rightarrow> 'pk running world \<Rightarrow> bool" where
  "wires ob un ro w \<longleftrightarrow> outbox (sess w) = ob \<and> unread w = un \<and> rn_sent (sched w) = ro
     \<and> rn_read (sched w) \<le> length (on_wire (sess w))"

definition distance :: "'pk running world \<Rightarrow> nat" where
  "distance w = 8 * length (outbox (sess w)) + 4 * length (unread w) + length (rn_sent (sched w))"

abbreviation idle :: "'pk running world \<Rightarrow> nat" where
  "idle w \<equiv> rn_idle (sched w)"

abbreviation engine_of :: "'pk running world \<Rightarrow> 'pk engine" where
  "engine_of w \<equiv> rn_engine (sched w)"

lemma distance_wires: "wires ob un ro w \<Longrightarrow> distance w = 8 * length ob + 4 * length un + length ro"
  by (simp add: wires_def distance_def)

lemma turn_idle:
  assumes "idle w \<noteq> 0"
  shows "sess (turn limit w) = sess w" and "engine_of (turn limit w) = engine_of w"
    and "wires ob un ro (turn limit w) = wires ob un ro w" and "distance (turn limit w) = distance w"
    and "idle (turn limit w) < idle w"
  using assms by (simp_all add: turn_def engine_env_def wires_def unread_def distance_def)

lemma turn_receive:
  assumes "idle w = 0" and "wires ob un (m # ro) w"
  shows "sess (turn limit w) = happens [Received (Inr m)] (sess w)" and "engine_of (turn limit w) = engine_of w"
    and "rn_sent (sched (turn limit w)) = ro" and "rn_read (sched (turn limit w)) = rn_read (sched w)"
  using assms by (simp_all add: turn_def engine_env_def wires_def device_side_def)

lemma turn_read:
  assumes "idle w = 0" and "wires ob un [] w" and "un \<noteq> []"
    and "en_loop pipe_ops limit ((un, []), engine_of w) = Some (Inr (), (([], out), en))"
  shows "sess (turn limit w) = sess w" and "engine_of (turn limit w) = en" and "wires ob [] out (turn limit w)"
proof -
  have "rn_read (sched w) < length (on_wire (sess w))" using assms(2,3) by (auto simp: wires_def unread_def)
  with assms show "sess (turn limit w) = sess w" and "engine_of (turn limit w) = en" and "wires ob [] out (turn limit w)"
    by (simp_all add: turn_def engine_env_def wires_def unread_def device_side_def)
qed

lemma turn_write:
  assumes "idle w = 0" and "wires (m # ob) [] [] w" and "writer_alive (sess w)"
  shows "reg (sess (turn limit w)) = reg (sess w)" and "engine_of (turn limit w) = engine_of w"
    and "reader_alive (sess (turn limit w)) = reader_alive (sess w)" and "writer_alive (sess (turn limit w))"
    and "agreed (sess (turn limit w)) = agreed (sess w)" and "wires ob [m] [] (turn limit w)"
  using assms by (simp_all add: turn_def engine_env_def wires_def unread_def device_side_def write_step_def)

lemma turn_rest:
  assumes "idle w = 0" and "wires [] [] [] w"
  shows "sess (turn limit w) = sess w" and "engine_of (turn limit w) = engine_of w" and "wires [] [] [] (turn limit w)"
  using assms by (simp_all add: turn_def engine_env_def wires_def unread_def device_side_def)

subsection \<open>What the device answers\<close>

text \<open>The messages of the one stream: the host's id is 1, the device's 100.\<close>

abbreviation host_okay :: message where
  "host_okay \<equiv> empty_message Okay 1 100"

abbreviation host_data :: "bytes \<Rightarrow> message" where
  "host_data b \<equiv> new_message Write 1 100 b"

abbreviation device_okay :: message where
  "device_okay \<equiv> empty_message Okay 100 1"

text \<open>The stream after it is pumped, and what the device sends then.\<close>

definition dev_stream :: "handler \<Rightarrow> bytes list \<Rightarrow> bool \<Rightarrow> device_stream" where
  "dev_stream h cs flying = \<lparr>ds_host_id = 1, ds_handler = h, ds_queue = cs, ds_in_flight = flying\<rparr>"

fun pumped :: "handler \<Rightarrow> bytes list \<Rightarrow> device_stream option" where
  "pumped h (c # cs) = Some (dev_stream h cs True)"
| "pumped h [] = (if handler_finished h then None else Some (dev_stream h [] False))"

fun pumps :: "handler \<Rightarrow> bytes list \<Rightarrow> message list" where
  "pumps h (c # cs) = [new_message Write 100 1 c]"
| "pumps h [] = (if handler_finished h then [empty_message Close 100 1] else [])"

lemma length_pumps: "length (pumps h cs) \<le> 1"
  by (cases cs) simp_all

lemma pump_entry:
  assumes "en_streams en 100 = Some (dev_stream h cs False)"
  shows "\<exists>en'. pump pipe_ops 100 ((a, out), en) = Some (Inr (), ((a, out @ pumps h cs), en'))
     \<and> en_streams en' 100 = pumped h cs \<and> en_shared en' = en_shared en"
  using assms
  by (cases cs)
    (simp_all add: pump_def dev_stream_def and_then_def en_update_def en_send_def on_client_def on_part_def pipe_ops_def set_stream_def)

lemma en_loop_message:
  assumes "en_message pipe_ops limit m ((([], []), en_received m en)) = Some (Inr (), (([], out), en'))"
  shows "en_loop pipe_ops limit (([m], []), en) = Some (Inr (), (([], out), en'))"
  using assms
  by (simp add: en_loop.simps [of _ _ "(([m], []), en)"] en_loop.simps [of _ _ "(([], out), en')"] and_then_def
      on_client_def on_part_def pipe_ops_def)

lemma received_sel [simp]:
  "en_streams (en_received m en) = en_streams en" "en_next (en_received m en) = en_next en"
  "fake_open (en_shared (en_received m en)) svc = map_option (\<lambda>(h, sh). (h, sh\<lparr>fs_received := fs_received sh @ [m]\<rparr>)) (fake_open (en_shared en) svc)"
  by (auto simp: en_received_def fake_open_def Let_def split: option.splits)

lemma service_named: "wf_str svc \<Longrightarrow> CHR 0x00 \<notin> set svc \<Longrightarrow> service_name (new_message Open l 0 (as_bytes svc @ [0])) = svc"
proof -
  assume svc: "wf_str svc" "CHR 0x00 \<notin> set svc"
  have "wf_str [CHR 0x00]" by (rule wf_str_ascii) simp
  with svc(1) have "wf_str (svc @ [CHR 0x00])" by (rule wf_str_append)
  then have "utf8_lossy (as_bytes (svc @ [CHR 0x00])) = svc @ [CHR 0x00]" by (rule utf8_lossy_str)
  moreover have "as_bytes (svc @ [CHR 0x00]) = as_bytes svc @ [0]" by (simp add: byte_of_def)
  moreover have "svc = [] \<or> last svc \<noteq> CHR 0x00" using svc(2) last_in_set by metis
  ultimately show ?thesis
    by (simp add: service_name_def trim_end_matches_append trim_end_matches_id)
qed

lemma engine_opens:
  assumes "en_streams en = (\<lambda>_. None)" and "en_next en = 100" and "wf_str svc" and "CHR 0x00 \<notin> set svc"
    and "fake_open (en_shared en) svc = Some (h0, sh)" and "handler_on_open h0 = (parts, h)"
  shows "\<exists>en'. en_loop pipe_ops limit (([new_message Open 1 0 (as_bytes svc @ [0])], []), en)
       = Some (Inr (), (([], device_okay # pumps h (chunked parts limit)), en'))
     \<and> en_streams en' 100 = pumped h (chunked parts limit) \<and> fs_config (en_shared en') = fs_config sh"
proof -
  let ?m = "new_message Open 1 0 (as_bytes svc @ [0])"
  let ?sh = "sh\<lparr>fs_received := fs_received sh @ [?m]\<rparr>"
  let ?en = "set_stream 100 (Some (dev_stream h (chunked parts limit) False)) ((en_received ?m en)\<lparr>en_shared := ?sh, en_next := 101\<rparr>)"
  have "en_streams ?en 100 = Some (dev_stream h (chunked parts limit) False)" by (simp add: set_stream_def)
  from pump_entry [OF this, of "[]" "[device_okay]"] obtain en' where
    en': "pump pipe_ops 100 (([], [device_okay]), ?en) = Some (Inr (), (([], device_okay # pumps h (chunked parts limit)), en'))"
      "en_streams en' 100 = pumped h (chunked parts limit)" "en_shared en' = en_shared ?en" by auto
  have "en_message pipe_ops limit ?m (([], []), en_received ?m en) = pump pipe_ops 100 (([], [device_okay]), ?en)"
    using assms service_named [OF assms(3,4), of 1]
    by (simp add: en_message_def en_open_def Let_def and_then_def en_update_def en_send_def on_client_def on_part_def
        pipe_ops_def dev_stream_def set_stream_def)
  with en'(1) have "en_loop pipe_ops limit (([?m], []), en) = Some (Inr (), (([], device_okay # pumps h (chunked parts limit)), en'))"
    by (intro en_loop_message) simp
  with en'(2,3) show ?thesis by (simp add: set_stream_def)
qed

lemma engine_refuses:
  assumes "wf_str svc" and "CHR 0x00 \<notin> set svc" and "fake_open (en_shared en) svc = None"
  shows "\<exists>en'. en_loop pipe_ops limit (([new_message Open 1 0 (as_bytes svc @ [0])], []), en)
       = Some (Inr (), (([], [empty_message Close 0 1]), en'))"
proof -
  let ?m = "new_message Open 1 0 (as_bytes svc @ [0])"
  have "en_message pipe_ops limit ?m (([], []), en_received ?m en) = Some (Inr (), (([], [empty_message Close 0 1]), en_received ?m en))"
    using assms service_named [OF assms(1,2), of 1]
    by (simp add: en_message_def en_open_def en_send_def on_client_def on_part_def pipe_ops_def)
  from en_loop_message [OF this] show ?thesis ..
qed

lemma engine_reads_data:
  assumes "en_streams en 100 = Some (dev_stream h [] False)"
    and "handler_on_data (en_shared (en_received (host_data b) en)) h b = Some (parts, h', sh)"
  shows "\<exists>en'. en_loop pipe_ops limit (([host_data b], []), en)
       = Some (Inr (), (([], device_okay # pumps h' (chunked parts limit)), en'))
     \<and> en_streams en' 100 = pumped h' (chunked parts limit) \<and> en_shared en' = sh"
proof -
  let ?en = "set_stream 100 (Some (dev_stream h' (chunked parts limit) False)) ((en_received (host_data b) en)\<lparr>en_shared := sh\<rparr>)"
  have "en_streams ?en 100 = Some (dev_stream h' (chunked parts limit) False)" by (simp add: set_stream_def)
  from pump_entry [OF this, of "[]" "[device_okay]"] obtain en' where
    en': "pump pipe_ops 100 (([], [device_okay]), ?en) = Some (Inr (), (([], device_okay # pumps h' (chunked parts limit)), en'))"
      "en_streams en' 100 = pumped h' (chunked parts limit)" "en_shared en' = en_shared ?en" by auto
  have "en_message pipe_ops limit (host_data b) (([], []), en_received (host_data b) en) = pump pipe_ops 100 (([], [device_okay]), ?en)"
    using assms
    by (simp add: en_message_def en_write_def Let_def and_then_def en_update_def en_send_def on_client_def on_part_def
        pipe_ops_def dev_stream_def set_stream_def)
  with en'(1) have "en_loop pipe_ops limit (([host_data b], []), en) = Some (Inr (), (([], device_okay # pumps h' (chunked parts limit)), en'))"
    by (intro en_loop_message) simp
  with en'(2,3) show ?thesis by (simp add: set_stream_def)
qed

lemma engine_reads_okay:
  assumes "en_streams en 100 = Some (dev_stream h cs True)"
  shows "\<exists>en'. en_loop pipe_ops limit (([host_okay], []), en) = Some (Inr (), (([], pumps h cs), en'))
     \<and> en_streams en' 100 = pumped h cs"
proof -
  let ?en = "set_stream 100 (Some (dev_stream h cs False)) (en_received host_okay en)"
  have "en_streams ?en 100 = Some (dev_stream h cs False)" by (simp add: set_stream_def)
  from pump_entry [OF this, of "[]" "[]"] obtain en' where
    en': "pump pipe_ops 100 (([], []), ?en) = Some (Inr (), (([], pumps h cs), en'))" "en_streams en' 100 = pumped h cs" by auto
  have "en_message pipe_ops limit host_okay (([], []), en_received host_okay en) = pump pipe_ops 100 (([], []), ?en)"
    using assms by (simp add: en_message_def en_okay_def Let_def and_then_def en_update_def dev_stream_def)
  with en' show ?thesis using en_loop_message by metis
qed

subsection \<open>The host's stream\<close>

text \<open>The only stream of the session, open with \<open>k\<close> acknowledgements and the chunks \<open>q\<close> to take; or closed.\<close>

definition stream_up :: "u32 \<Rightarrow> nat \<Rightarrow> bytes list \<Rightarrow> session \<Rightarrow> bool" where
  "stream_up r k q s \<longleftrightarrow> length (states (reg s)) = 1 \<and> streams (reg s) = [(1, 0)] \<and> reader_alive s \<and> writer_alive s
     \<and> local_id (stream_of s 0) = 1 \<and> remote_id (stream_of s 0) = r \<and> acks (stream_of s 0) = word_of_nat k
     \<and> \<not> closed (stream_of s 0) \<and> data_tx (stream_of s 0) \<and> rx_alive (stream_of s 0) \<and> data_q (stream_of s 0) = q"

definition stream_down :: "session \<Rightarrow> bool" where
  "stream_down s \<longleftrightarrow> length (states (reg s)) = 1 \<and> closed (stream_of s 0) \<and> \<not> data_tx (stream_of s 0) \<and> data_q (stream_of s 0) = []"

lemma post_up:
  assumes "stream_up r k q (sess w)" and "wires [] [] [] w" and "w' = w\<lparr>sess := snd (post m (sess w))\<rparr>"
  shows "stream_up r k q (sess w')" and "wires [m] [] [] w'" and "post_message m w = Some (Inr (), w')"
    and "wake (stream_of (sess w') 0) = wake (stream_of (sess w) 0)" and "engine_of w' = engine_of w"
    and "agreed (sess w') = agreed (sess w)"
  using assms by (simp_all add: stream_up_def wires_def unread_def post_def post_message_def stream_of_def)

lemma receive_okay:
  assumes "stream_up r k q s" and "r = 0 \<or> r = 100" and "s' = happens [Received (Inr device_okay)] s"
  shows "stream_up 100 (Suc k) q s'" and "wake (stream_of s' 0)" and "outbox s' = outbox s" and "on_wire s' = on_wire s"
    and "agreed s' = agreed s"
  using assms by (auto simp: stream_up_def read_step_def dispatch_def get_def state_simps)

lemma receive_data:
  assumes "stream_up r k q s" and "s' = happens [Received (Inr (new_message Write 100 1 c))] s"
  shows "stream_up r k (q @ [c]) s'" and "wake (stream_of s' 0) = wake (stream_of s 0)" and "outbox s' = outbox s"
    and "on_wire s' = on_wire s" and "agreed s' = agreed s"
  using assms by (auto simp: stream_up_def read_step_def dispatch_def get_def deliver_def)

lemma receive_close:
  assumes "stream_up r k [] s" and "s' = happens [Received (Inr (empty_message Close a 1))] s"
  shows "stream_down s'" and "wake (stream_of s' 0)" and "outbox s' = outbox s" and "on_wire s' = on_wire s"
    and "acks (stream_of s' 0) = acks (stream_of s 0)" and "agreed s' = agreed s" and "remote_id (stream_of s' 0) = remote_id (stream_of s 0)"
  using assms
  by (auto simp: stream_up_def stream_down_def read_step_def dispatch_def remove_def state_simps stream_of_def update_stream_def
      on_state_def state_at_def nth_list_update)

text \<open>
  The device's output \<open>cs\<close> is on its way: a chunk is carried to the owner and the \<open>OKAY\<close> for it back,
  one at a time; after the last one the device closes the stream.
\<close>

definition flowing :: "handler \<Rightarrow> nat \<Rightarrow> bytes list \<Rightarrow> 'pk running world \<Rightarrow> bool" where
  "flowing h k cs w \<longleftrightarrow> handler_finished h \<and> 0 < length (states (reg (sess w))) \<and>
     (stream_up 100 k [] (sess w) \<and> en_streams (engine_of w) 100 = Some (dev_stream h cs True)
        \<and> (wires [host_okay] [] [] w \<or> wires [] [host_okay] [] w)
      \<or> stream_up 100 k [] (sess w) \<and> en_streams (engine_of w) 100 = pumped h cs \<and> wires [] [] (pumps h cs) w
      \<or> cs \<noteq> [] \<and> stream_up 100 k [hd cs] (sess w) \<and> en_streams (engine_of w) 100 = Some (dev_stream h (tl cs) True) \<and> wires [] [] [] w
      \<or> cs = [] \<and> stream_down (sess w) \<and> remote_id (stream_of (sess w) 0) = 100 \<and> en_streams (engine_of w) 100 = None \<and> wires [] [] [] w)"

text \<open>The owner has something to take, or the stream has ended.\<close>

definition arrived :: "'pk running world \<Rightarrow> bool" where
  "arrived w \<longleftrightarrow> data_q (stream_of (sess w) 0) \<noteq> [] \<or> \<not> data_tx (stream_of (sess w) 0)"

lemma flowing_pumps:
  assumes "handler_finished h" and "stream_up 100 k [] (sess w)" and "en_streams (engine_of w) 100 = pumped h cs"
    and "wires [] [] (pumps h cs) w"
  shows "flowing h k cs w"
  using assms by (auto simp: flowing_def stream_up_def)

lemma turn_flowing:
  assumes "flowing h k cs w"
  shows "flowing h k cs (turn limit w)
     \<and> (arrived (turn limit w) \<or> (turn limit w, w) \<in> measures [distance, idle])"
proof (cases "idle w = 0")
  case False
  from turn_idle [where limit = limit, OF this] assms show ?thesis by (auto simp: flowing_def)
next
  case idle: True
  let ?w = "turn limit w"
  consider (posted) "stream_up 100 k [] (sess w)" "en_streams (engine_of w) 100 = Some (dev_stream h cs True)" "wires [host_okay] [] [] w"
    | (written) "stream_up 100 k [] (sess w)" "en_streams (engine_of w) 100 = Some (dev_stream h cs True)" "wires [] [host_okay] [] w"
    | (sent) "stream_up 100 k [] (sess w)" "en_streams (engine_of w) 100 = pumped h cs" "wires [] [] (pumps h cs) w"
    | (queued) "cs \<noteq> []" "stream_up 100 k [hd cs] (sess w)" "en_streams (engine_of w) 100 = Some (dev_stream h (tl cs) True)" "wires [] [] [] w"
    | (ended) "cs = []" "stream_down (sess w)" "remote_id (stream_of (sess w) 0) = 100" "en_streams (engine_of w) 100 = None" "wires [] [] [] w"
    using assms unfolding flowing_def by (elim conjE disjE) blast+
  then show ?thesis
  proof cases
    case posted
    then have "writer_alive (sess w)" by (simp add: stream_up_def)
    from turn_write [where limit = limit, OF idle posted(3) this] posted(1,2) assms distance_wires [OF posted(3)] show ?thesis
      by (auto simp: flowing_def stream_up_def stream_of_def dest: distance_wires)
  next
    case written
    obtain en where en: "en_loop pipe_ops limit (([host_okay], []), engine_of w) = Some (Inr (), (([], pumps h cs), en))"
      "en_streams en 100 = pumped h cs" using engine_reads_okay [OF written(2)] by blast
    from turn_read [OF idle written(3) _ en(1)] have w': "sess ?w = sess w" "engine_of ?w = en" "wires [] [] (pumps h cs) ?w"
      by simp_all
    have "flowing h k cs ?w" using assms w' en(2) written(1) by (intro flowing_pumps) (simp_all add: flowing_def)
    moreover have "distance ?w < distance w"
      using distance_wires [OF w'(3)] distance_wires [OF written(3)] length_pumps [of h cs] by simp
    ultimately show ?thesis by simp
  next
    case sent
    show ?thesis
    proof (cases cs)
      case (Cons c cs')
      then have "wires [] [] (new_message Write 100 1 c # []) w" using sent(3) by simp
      from turn_receive [where limit = limit, OF idle this] receive_data [OF sent(1) refl, of c] sent(2,3) Cons assms show ?thesis
        by (auto simp: flowing_def arrived_def wires_def unread_def stream_up_def)
    next
      case Nil
      have "remote_id (stream_of (sess w) 0) = 100" using sent(1) by (simp add: stream_up_def)
      moreover from Nil sent(3) assms have "wires [] [] (empty_message Close 100 1 # []) w" by (simp add: flowing_def)
      ultimately show ?thesis using turn_receive [where limit = limit, OF idle] receive_close [OF sent(1) refl, of 100] sent(2,3) Nil assms
        by (auto simp: flowing_def arrived_def wires_def unread_def stream_down_def)
    qed
  next
    case queued
    from turn_rest [where limit = limit, OF idle queued(4)] queued assms show ?thesis
      by (auto simp: flowing_def arrived_def stream_up_def)
  next
    case ended
    from turn_rest [where limit = limit, OF idle ended(5)] ended assms show ?thesis
      by (auto simp: flowing_def arrived_def stream_down_def)
  qed
qed

subsection \<open>Receiving\<close>

text \<open>The owner holds a chunk it has not acknowledged yet.\<close>

definition acking :: "handler \<Rightarrow> nat \<Rightarrow> bytes list \<Rightarrow> 'pk running world \<Rightarrow> bool" where
  "acking h k cs w \<longleftrightarrow> handler_finished h \<and> stream_up 100 k [] (sess w)
     \<and> en_streams (engine_of w) 100 = Some (dev_stream h cs True) \<and> wires [] [] [] w"

lemma turn_acking: "acking h k cs w \<Longrightarrow> acking h k cs (turn limit w)"
  using turn_idle [where limit = limit and w = w] turn_rest [where limit = limit and w = w]
  by (cases "idle w = 0") (auto simp: acking_def)

lemma take_arrived:
  assumes "flowing h k cs w" and "arrived w"
  shows "\<exists>w'. recv_data (engine_env limit) 0 w = Some (Inr (case cs of [] \<Rightarrow> None | c # _ \<Rightarrow> Some c), w')
     \<and> (case cs of [] \<Rightarrow> flowing h k cs w' | _ # cs' \<Rightarrow> acking h k cs' w')"
proof (cases cs)
  case Nil
  with assms have "stream_down (sess w)" by (auto simp: flowing_def arrived_def stream_up_def)
  with Nil assms(1) show ?thesis
    by (simp add: recv_data.simps [of _ 0 w] take_chunk_def take_data_def stream_down_def)
next
  case (Cons c cs')
  with assms have up: "stream_up 100 k [c] (sess w)" "en_streams (engine_of w) 100 = Some (dev_stream h cs' True)" "wires [] [] [] w"
    and "handler_finished h" by (auto simp: flowing_def arrived_def stream_up_def)
  let ?s = "snd (take_chunk 0 (sess w))"
  have "recv_data (engine_env limit) 0 w = Some (Inr (Some c), w\<lparr>sess := ?s\<rparr>)"
    using up(1) by (simp add: recv_data.simps [of _ 0 w] take_chunk_def take_data_def stream_up_def)
  moreover have "acking h k cs' (w\<lparr>sess := ?s\<rparr>)"
    using up \<open>handler_finished h\<close>
    by (auto simp: acking_def take_chunk_def take_data_def stream_up_def wires_def unread_def)
  ultimately show ?thesis using Cons by simp
qed

lemma recv_flowing:
  "flowing h k cs w \<Longrightarrow> \<exists>w'. recv_data (engine_env limit) 0 w = Some (Inr (case cs of [] \<Rightarrow> None | c # _ \<Rightarrow> Some c), w')
     \<and> (case cs of [] \<Rightarrow> flowing h k cs w' | _ # cs' \<Rightarrow> acking h k cs' w')"
proof (induction w rule: wf_induct_rule [OF wf_measures [of "[distance, idle]"]])
  case (1 w)
  show ?case
  proof (cases "arrived w")
    case True
    with 1(2) show ?thesis by (rule take_arrived)
  next
    case False
    then have wait: "recv_data (engine_env limit) 0 w = recv_data (engine_env limit) 0 (turn limit w)"
      by (intro recv_data_turn) (auto simp: arrived_def)
    from turn_flowing [OF 1(2), of limit] take_arrived [of h k cs "turn limit w" limit] 1(1) [of "turn limit w"]
    show ?thesis unfolding wait by blast
  qed
qed

lemma recv_chunk:
  assumes "flowing h k cs w" and "state_ix st = 0"
  shows "\<exists>w'. stream_recv (engine_env limit) st w = Some (Inr (case cs of [] \<Rightarrow> None | c # _ \<Rightarrow> Some c), w')
     \<and> flowing h k (tl cs) w'"
proof (cases cs)
  case Nil
  with recv_flowing [OF assms(1), of limit] assms(2) show ?thesis
    by (auto simp: stream_recv_def and_then_ok)
next
  case (Cons c cs')
  obtain w1 where w1: "recv_data (engine_env limit) 0 w = Some (Inr (Some c), w1)" "acking h k cs' w1"
    using recv_flowing [OF assms(1), of limit] Cons by auto
  have w2: "acking h k cs' (turn limit (turn limit w1))" using turn_acking [OF turn_acking [OF w1(2)]] .
  have ids: "ids (engine_env limit) 0 (turn limit w1) = Some (Inr (1, 100), turn limit (turn limit w1))"
    using turn_acking [OF w1(2), of limit] w2
    by (simp add: ids_def look_def and_then_def pause_turn acking_def stream_up_def remote_def)
  let ?w = "turn limit (turn limit w1)"
  let ?w' = "?w\<lparr>sess := snd (post host_okay (sess ?w))\<rparr>"
  have up: "stream_up 100 k [] (sess ?w)" "wires [] [] [] ?w" using w2 by (simp_all add: acking_def)
  note posted = post_up [OF up refl, of host_okay]
  have "stream_recv (engine_env limit) st w = Some (Inr (Some c), ?w')"
    using w1(1) assms(2) ids posted(3) by (simp add: stream_recv_def and_then_ok pause_turn handle_def)
  moreover have "flowing h k cs' ?w'"
    using w2 posted(1,2) by (simp add: flowing_def acking_def stream_up_def)
  ultimately show ?thesis using Cons by simp
qed

text \<open>Closing always returns.\<close>

lemma close_returns: "\<exists>w'. stream_close (engine_env limit) st w = Some (Inr (), w')"
  by (cases "closed (stream_of (sess w) (state_ix st))")
    (simp_all add: stream_close_def close_now_def Let_def look_def and_then_def pause_turn modify_def atomic_def handle_def
      post_message_def split: prod.splits)

text \<open>So the stream is a channel that gives the whole output and then ends.\<close>

definition on_the_way :: "'pk running world \<Rightarrow> bytes list" where
  "on_the_way w = data_q (stream_of (sess w) 0)
     @ map payload (filter (\<lambda>m. m_command m = Write) (rn_sent (sched w)))
     @ (case en_streams (engine_of w) 100 of None \<Rightarrow> [] | Some st \<Rightarrow> ds_queue st)"

lemma flowing_output: "flowing h k cs w \<Longrightarrow> on_the_way w = cs"
  by (cases cs) (auto simp: flowing_def on_the_way_def wires_def stream_up_def stream_down_def dev_stream_def)

interpretation spawned: channel "stream_ops (engine_env limit)" "\<lparr>state_ix = 0, max_chunk = m\<rparr>"
  "\<lambda>w. concat (on_the_way w)" "\<lambda>w. length (on_the_way w)" True "\<lambda>_. []" "\<lambda>_ _. False" "\<lambda>w. \<exists>k cs. flowing h k cs w"
  for limit m h
proof
  let ?st = "\<lparr>state_ix = 0, max_chunk = m\<rparr> :: stream"
  fix w :: "'a running world"
  assume "\<exists>k cs. flowing h k cs w"
  then obtain k cs where w: "flowing h k cs w" by blast
  from recv_chunk [OF w, of ?st limit] obtain w' where
    "stream_recv (engine_env limit) ?st w = Some (Inr (case cs of [] \<Rightarrow> None | c # _ \<Rightarrow> Some c), w')" "flowing h k (tl cs) w'"
    by auto
  with flowing_output [OF w] flowing_output [OF this(2)]
  show "\<exists>r w'. ch_recv (stream_ops (engine_env limit)) ?st w = Some (Inr r, w') \<and> (\<exists>k cs. flowing h k cs w') \<and> [] = []
      \<and> (case r of None \<Rightarrow> concat (on_the_way w) = [] \<and> concat (on_the_way w') = []
         | Some c \<Rightarrow> concat (on_the_way w) = c @ concat (on_the_way w') \<and> length (on_the_way w') < length (on_the_way w)
             \<and> (\<lambda>_. False) = (\<lambda>_. False))"
    by (cases cs) (auto simp: stream_ops_def)
next
  fix w :: "'a running world"
  show "\<exists>w'. ch_close (stream_ops (engine_env limit)) \<lparr>state_ix = 0, max_chunk = m\<rparr> w = Some (Inr (), w') \<and> [] = []"
    using close_returns [of limit _ w] by (simp add: stream_ops_def)
qed simp_all

subsection \<open>Sending\<close>

text \<open>The answer of the device has come: the acknowledgement, and what it sends after it.\<close>

definition answered :: "'pk fake_config \<Rightarrow> nat \<Rightarrow> handler \<Rightarrow> bytes list \<Rightarrow> 'pk running world \<Rightarrow> bool" where
  "answered conf k h cs w \<longleftrightarrow> stream_up 100 k [] (sess w) \<and> en_streams (engine_of w) 100 = pumped h cs
     \<and> fs_config (en_shared (engine_of w)) = conf \<and> wires [] [] (pumps h cs) w"

text \<open>A message of the owner is on its way, and the device will answer it so.\<close>

definition asking :: "nat \<Rightarrow> message \<Rightarrow> 'pk fake_config \<Rightarrow> u32 \<Rightarrow> nat \<Rightarrow> handler \<Rightarrow> bytes list \<Rightarrow> 'pk running world \<Rightarrow> bool" where
  "asking limit m conf r k h cs w \<longleftrightarrow> (r = 0 \<or> r = 100) \<and> stream_up r k [] (sess w) \<and>
     ((wires [m] [] [] w \<or> wires [] [m] [] w)
        \<and> (\<exists>en. en_loop pipe_ops limit (([m], []), engine_of w) = Some (Inr (), (([], device_okay # pumps h cs), en))
             \<and> en_streams en 100 = pumped h cs \<and> fs_config (en_shared en) = conf)
      \<or> wires [] [] (device_okay # pumps h cs) w \<and> en_streams (engine_of w) 100 = pumped h cs
        \<and> fs_config (en_shared (engine_of w)) = conf)"

lemma turn_asking:
  assumes "asking limit m conf r k h cs w"
  shows "asking limit m conf r k h cs (turn limit w) \<and> wake (stream_of (sess (turn limit w)) 0) = wake (stream_of (sess w) 0)
       \<and> (turn limit w, w) \<in> measures [distance, idle]
     \<or> answered conf (Suc k) h cs (turn limit w) \<and> wake (stream_of (sess (turn limit w)) 0)"
proof (cases "idle w = 0")
  case False
  from turn_idle [where limit = limit, OF this] assms show ?thesis by (auto simp: asking_def)
next
  case idle: True
  let ?w = "turn limit w"
  consider (posted) "wires [m] [] [] w" | (written) "wires [] [m] [] w"
    | (sent) "wires [] [] (device_okay # pumps h cs) w" "en_streams (engine_of w) 100 = pumped h cs"
        "fs_config (en_shared (engine_of w)) = conf"
    using assms unfolding asking_def by blast
  then show ?thesis
  proof cases
    case posted
    have up: "writer_alive (sess w)" "stream_up r k [] (sess w)" using assms by (simp_all add: asking_def stream_up_def)
    note w' = turn_write [where limit = limit, OF idle posted up(1)]
    have "asking limit m conf r k h cs ?w" "wake (stream_of (sess ?w) 0) = wake (stream_of (sess w) 0)"
      using w' up posted assms by (auto simp: asking_def stream_up_def stream_of_def wires_def)
    then show ?thesis using distance_wires [OF w'(6)] distance_wires [OF posted] by simp
  next
    case written
    then obtain en where en: "en_loop pipe_ops limit (([m], []), engine_of w) = Some (Inr (), (([], device_okay # pumps h cs), en))"
      "en_streams en 100 = pumped h cs" "fs_config (en_shared en) = conf"
      using assms by (auto simp: asking_def wires_def)
    from turn_read [OF idle written _ en(1)] have w': "sess ?w = sess w" "engine_of ?w = en"
      "wires [] [] (device_okay # pumps h cs) ?w" by simp_all
    have "asking limit m conf r k h cs ?w" using assms w' en(2,3) by (simp add: asking_def)
    moreover have "distance ?w < distance w"
      using distance_wires [OF w'(3)] distance_wires [OF written] length_pumps [of h cs] by simp
    ultimately show ?thesis using w'(1) by simp
  next
    case sent
    have up: "stream_up r k [] (sess w)" "r = 0 \<or> r = 100" using assms by (simp_all add: asking_def)
    note w' = turn_receive [where limit = limit, OF idle sent(1)]
    from receive_okay [OF up w'(1)] w'(2-4) sent have "answered conf (Suc k) h cs ?w \<and> wake (stream_of (sess ?w) 0)"
      by (auto simp: answered_def wires_def unread_def)
    then show ?thesis ..
  qed
qed

lemma notified_asking:
  "asking limit m conf r k h cs w \<Longrightarrow> \<not> wake (stream_of (sess w) 0) \<Longrightarrow>
     \<exists>w'. notified (engine_env limit) 0 w = Some (Inr (), w') \<and> answered conf (Suc k) h cs w' \<and> agreed (sess w') = agreed (sess w)"
proof (induction w rule: wf_induct_rule [OF wf_measures [of "[distance, idle]"]])
  case (1 w)
  note step = notified_turn [OF 1(3), of limit]
  have same: "agreed (sess (turn limit w)) = agreed (sess w)"
    using 1(2) by (intro turn_agreed) (simp add: asking_def stream_up_def)
  from turn_asking [OF 1(2)] show ?case
  proof
    assume "asking limit m conf r k h cs (turn limit w) \<and> wake (stream_of (sess (turn limit w)) 0) = wake (stream_of (sess w) 0)
       \<and> (turn limit w, w) \<in> measures [distance, idle]"
    with 1(1) [of "turn limit w"] 1(3) same show ?thesis unfolding step by simp
  next
    assume got: "answered conf (Suc k) h cs (turn limit w) \<and> wake (stream_of (sess (turn limit w)) 0)"
    let ?w' = "(turn limit w)\<lparr>sess := update_stream 0 (\<lambda>st. snd (take_permit st)) (sess (turn limit w))\<rparr>"
    have "notified (engine_env limit) 0 (turn limit w) = Some (Inr (), ?w')"
      using got by (simp add: notified.simps [of _ 0 "turn limit w"])
    moreover have "agreed (sess ?w') = agreed (sess w)" using same by simp
    moreover have "answered conf (Suc k) h cs ?w'"
      using got by (auto simp: answered_def stream_up_def wires_def unread_def state_simps)
    ultimately show ?thesis unfolding step by blast
  qed
qed

lemma wait_answered:
  assumes "answered conf (Suc k) h cs w" and "Suc k < 2 ^ 64"
  shows "wait_ack E 0 (word_of_nat k) w = Some (Inr True, w)"
proof -
  have "(word_of_nat k :: u64) < word_of_nat (Suc k)" using assms(2) by (simp add: word_less_nat_alt unat_of_nat del: of_nat_Suc)
  with assms(1) show ?thesis by (intro wait_ack_ready) (simp add: poll_ack_def answered_def stream_up_def)
qed

lemma wait_asking:
  assumes "asking limit m conf r k h cs w \<or> answered conf (Suc k) h cs w" and "Suc k < 2 ^ 64"
  shows "\<exists>w'. wait_ack (engine_env limit) 0 (word_of_nat k) w = Some (Inr True, w') \<and> answered conf (Suc k) h cs w' \<and> agreed (sess w') = agreed (sess w)"
  using assms(1)
proof
  assume w: "asking limit m conf r k h cs w"
  have poll: "poll_ack (word_of_nat k) (stream_of (sess w) 0) = None" if "asking limit m conf r k h cs w" for w
    using that by (simp add: poll_ack_def asking_def stream_up_def)
  have calm: "\<exists>w'. wait_ack (engine_env limit) 0 (word_of_nat k) w = Some (Inr True, w') \<and> answered conf (Suc k) h cs w' \<and> agreed (sess w') = agreed (sess w)"
    if w: "asking limit m conf r k h cs w" "\<not> wake (stream_of (sess w) 0)" for w
  proof -
    from notified_asking [OF that] obtain w' where
      w': "notified (engine_env limit) 0 w = Some (Inr (), w')" "answered conf (Suc k) h cs w'" "agreed (sess w') = agreed (sess w)" by blast
    with poll [OF w(1)] wait_answered [OF w'(2) assms(2)] show ?thesis by (simp add: wait_ack.simps [of _ 0 _ w])
  qed
  show ?thesis
  proof (cases "wake (stream_of (sess w) 0)")
    case False
    with calm [OF w] show ?thesis .
  next
    case True
    let ?w = "w\<lparr>sess := update_stream 0 (\<lambda>st. snd (take_permit st)) (sess w)\<rparr>"
    have "asking limit m conf r k h cs ?w" "\<not> wake (stream_of (sess ?w) 0)"
      using w by (auto simp: asking_def stream_up_def wires_def unread_def state_simps)
    from calm [OF this] show ?thesis
      using poll [OF w] True by (simp add: wait_ack.simps [of _ 0 _ w] notified.simps [of _ 0 w])
  qed
next
  assume "answered conf (Suc k) h cs w"
  with wait_answered [OF this assms(2)] show ?thesis by blast
qed

text \<open>After an answer the stream is quiet, or its output flows.\<close>

definition granted :: "'pk fake_config \<Rightarrow> nat \<Rightarrow> handler \<Rightarrow> bytes list \<Rightarrow> 'pk running world \<Rightarrow> bool" where
  "granted conf k h cs w \<longleftrightarrow> (if handler_finished h then flowing h k cs w else cs = [] \<and> answered conf k h [] w)"

lemma answered_granted: "answered conf k h cs w \<Longrightarrow> handler_finished h \<or> cs = [] \<Longrightarrow> granted conf k h cs w"
  by (auto simp: granted_def answered_def flowing_pumps)

lemma turn_granted:
  assumes "granted conf k h cs w"
  shows "granted conf k h cs (turn limit w)"
proof (cases "handler_finished h")
  case True
  with assms turn_flowing [THEN conjunct1] show ?thesis by (simp add: granted_def)
next
  case False
  with assms turn_idle [where limit = limit and w = w] turn_rest [where limit = limit and w = w] show ?thesis
    by (cases "idle w = 0") (auto simp: granted_def answered_def)
qed

lemma granted_states: "granted conf k h cs w \<Longrightarrow> 0 < length (states (reg (sess w)))"
  by (auto simp: granted_def flowing_def answered_def stream_up_def split: if_splits)

text \<open>The messages of the device wake the owner who waits for the acknowledgement.\<close>

lemma asked:
  assumes "stream_up r k [] (sess w)" and "r = 0 \<or> r = 100" and "wires [] [] [] w" and "Suc k < 2 ^ 64"
    and "\<exists>en. en_loop pipe_ops limit (([m], []), engine_of w) = Some (Inr (), (([], device_okay # pumps h cs), en))
           \<and> en_streams en 100 = pumped h cs \<and> fs_config (en_shared en) = conf"
    and "handler_finished h \<or> cs = []"
  shows "\<exists>w1 w2. post_message m w = Some (Inr (), w1)
     \<and> wait_ack (engine_env limit) 0 (word_of_nat k) (turn limit w1) = Some (Inr True, w2)
     \<and> granted conf (Suc k) h cs w2 \<and> agreed (sess w2) = agreed (sess w)"
proof -
  let ?w1 = "w\<lparr>sess := snd (post m (sess w))\<rparr>"
  note posted = post_up [OF assms(1,3) refl, of m]
  have "asking limit m conf r k h cs ?w1" using assms(2,5) posted by (simp add: asking_def)
  from turn_asking [OF this] wait_asking [OF _ assms(4), of limit m conf r h cs "turn limit ?w1"] obtain w2 where
    "wait_ack (engine_env limit) 0 (word_of_nat k) (turn limit ?w1) = Some (Inr True, w2)"
    "answered conf (Suc k) h cs w2" "agreed (sess w2) = agreed (sess (turn limit ?w1))" by blast
  moreover have "agreed (sess (turn limit ?w1)) = agreed (sess w)"
  proof -
    have "0 < length (states (reg (sess ?w1)))" using posted(1) by (simp add: stream_up_def)
    from turn_agreed [OF this] posted(6) show ?thesis by simp
  qed
  ultimately show ?thesis using posted(3) answered_granted assms(6) by metis
qed

subsection \<open>Opening\<close>

lemma turn_calm:
  assumes "wires [] [] [] w"
  shows "sess (turn limit w) = sess w" and "engine_of (turn limit w) = engine_of w" and "wires [] [] [] (turn limit w)"
  using assms turn_idle [where limit = limit and w = w] turn_rest [where limit = limit and w = w]
  by (cases "idle w = 0"; simp)+

lemma registered:
  obtains w1 where "atomic register_stream (spawned n sh pace) = Some (Inr 0, w1)"
    and "stream_up 0 0 [] (sess w1)" and "wires [] [] [] w1" and "engine_of w1 = new_engine sh" and "agreed (sess w1) = n"
    and "\<not> wake (stream_of (sess w1) 0)"
proof -
  let ?w1 = "(spawned n sh pace)\<lparr>sess := snd (register_stream (session_start n))\<rparr>"
  have "atomic register_stream (spawned n sh pace) = Some (Inr 0, ?w1)"
    by (simp add: atomic_def spawned_def session_start_def register_stream_def register_def fresh_id_def new_registry_def)
  moreover have "stream_up 0 0 [] (sess ?w1)" "wires [] [] [] ?w1" "engine_of ?w1 = new_engine sh" "agreed (sess ?w1) = n"
    "\<not> wake (stream_of (sess ?w1) 0)"
    by (simp_all add: spawned_def session_start_def register_stream_def register_def fresh_id_def new_registry_def
        stream_up_def stream_of_def state_at_def new_state_def wires_def unread_def)
  ultimately show ?thesis by (rule that)
qed

lemma open_spawned:
  assumes "wf_str svc" and "CHR 0x00 \<notin> set svc" and "fake_open sh svc = Some (h0, sh')"
    and "handler_on_open h0 = (parts, h)" and "handler_finished h \<or> chunked parts limit = []"
  shows "\<exists>w'. open_stream (engine_env limit) svc (spawned n sh pace) = Some (Inr \<lparr>state_ix = 0, max_chunk = unat (n_max_payload n)\<rparr>, w')
     \<and> granted (fs_config sh') 1 h (chunked parts limit) w'"
proof -
  let ?m = "new_message Open 1 0 (as_bytes svc @ [0])"
  obtain w1 where w1: "atomic register_stream (spawned n sh pace) = Some (Inr 0, w1)" "stream_up 0 0 [] (sess w1)"
    "wires [] [] [] w1" "engine_of w1 = new_engine sh" "agreed (sess w1) = n" by (rule registered)
  let ?w2 = "turn limit w1"
  note w2 = turn_calm [OF w1(3), of limit]
  have up: "stream_up 0 0 [] (sess ?w2)" using w1(2) w2(1) by simp
  have eng: "\<exists>en. en_loop pipe_ops limit (([?m], []), engine_of ?w2) = Some (Inr (), (([], device_okay # pumps h (chunked parts limit)), en))
      \<and> en_streams en 100 = pumped h (chunked parts limit) \<and> fs_config (en_shared en) = fs_config sh'"
    unfolding w2(2) w1(4) by (rule engine_opens [OF _ _ assms(1,2) _ assms(4)]) (simp_all add: new_engine_def assms(3))
  from asked [OF up _ w2(3) _ eng assms(5)] obtain w3 w4 where
    w3: "post_message ?m ?w2 = Some (Inr (), w3)"
    and w4: "wait_ack (engine_env limit) 0 0 (turn limit w3) = Some (Inr True, w4)"
      "granted (fs_config sh') 1 h (chunked parts limit) w4" "agreed (sess w4) = n"
    using w2(1) w1(5) by auto
  have granted: "granted (fs_config sh') 1 h (chunked parts limit) (turn limit w4)" by (rule turn_granted [OF w4(2)])
  have "remote (stream_of (sess (turn limit w4)) 0) = Some 100"
    using granted by (auto simp: granted_def flowing_def answered_def stream_up_def remote_def split: if_splits)
  moreover have "agreed (sess (turn limit w4)) = n" using turn_agreed [OF granted_states [OF w4(2)]] w4(3) by simp
  moreover have "look 0 local_id ?w2 = Some (Inr 1, ?w2)" using up by (simp add: look_def stream_up_def)
  moreover have "look 0 remote (turn limit w4) = Some (Inr (remote (stream_of (sess (turn limit w4)) 0)), turn limit w4)"
    by (simp add: look_def)
  ultimately have "open_stream (engine_env limit) svc (spawned n sh pace)
      = Some (Inr \<lparr>state_ix = 0, max_chunk = unat (n_max_payload n)\<rparr>, turn limit w4)"
    using assms(2) w1(1) w3 w4(1) by (simp add: open_stream_def and_then_ok pause_turn handle_def) (simp add: atomic_def)
  with granted show ?thesis by blast
qed

lemma concat_chunked: "concat (chunked parts limit) = concat parts"
proof -
  have "concat (filter (\<lambda>b. b \<noteq> []) bs) = concat bs" for bs :: "bytes list" by (induction bs) auto
  moreover have "concat (cut_reply limit b) = b" for b
    by (induction limit b rule: cut_reply.induct) (subst cut_reply.simps, auto)
  moreover have "concat (concat (map (cut_reply limit) parts)) = concat (map (concat \<circ> cut_reply limit) parts)"
    by (induction parts) simp_all
  ultimately show ?thesis by (simp add: chunked_def comp_def)
qed

text \<open>A service that only sends is read to its end.\<close>

lemma drain_granted:
  assumes "granted conf k h cs w" and "handler_finished h"
  shows "\<exists>w'. drain (stream_ops (engine_env limit)) \<lparr>state_ix = 0, max_chunk = m\<rparr> w = Some (Inr (concat cs), w')"
proof -
  have w: "flowing h k cs w" using assms by (simp add: granted_def)
  then have "\<exists>k cs. flowing h k cs w" by blast
  from spawned.drain_all [OF TrueI this] flowing_output [OF w] show ?thesis by auto
qed

lemma oneshot_on_device:
  assumes "wf_str svc" and "CHR 0x00 \<notin> set svc" and "fake_open sh svc = Some (Oneshot parts, sh')"
  shows "\<exists>w'. open_and_drain (session_connection (engine_env limit)) svc (spawned n sh pace) = Some (Inr (concat parts), w')"
proof -
  obtain w1 where w1: "open_stream (engine_env limit) svc (spawned n sh pace)
      = Some (Inr \<lparr>state_ix = 0, max_chunk = unat (n_max_payload n)\<rparr>, w1)"
      "granted (fs_config sh') 1 (Oneshot []) (chunked parts limit) w1"
    using open_spawned [OF assms, of parts "Oneshot []" limit n pace] by auto
  from drain_granted [OF w1(2), of limit "unat (n_max_payload n)"] w1(1) show ?thesis
    by (simp add: open_and_drain_def session_connection_def and_then_ok concat_chunked)
qed

lemma service_wf:
  assumes "wf_str cmd" and "CHR 0x00 \<notin> set cmd" and "\<forall>c \<in> set pre. of_char c < (128 :: nat)" and "CHR 0x00 \<notin> set pre"
  shows "wf_str (pre @ cmd)" and "CHR 0x00 \<notin> set (pre @ cmd)"
  using assms wf_str_append [OF wf_str_ascii [OF assms(3)] assms(1)] by simp_all

lemma exec_on_device:
  assumes "wf_str cmd" and "CHR 0x00 \<notin> set cmd" and "''exec:'' @ cmd \<notin> set (fc_refuse_services (fs_config sh))"
  shows "\<exists>w'. exec (session_connection (engine_env limit)) cmd (spawned n sh pace) = Some (Inr (ex_stdout (fake_run (fs_config sh) cmd)), w')"
proof -
  have svc: "wf_str (''exec:'' @ cmd)" "CHR 0x00 \<notin> set (''exec:'' @ cmd)" using service_wf [OF assms(1,2), of "''exec:''"] by auto
  have "fake_open sh (''exec:'' @ cmd) = Some (Oneshot [ex_stdout (fake_run (fs_config sh) cmd)], sh)"
    using assms(3) by (simp add: fake_open_def Let_def)
  from oneshot_on_device [OF svc this, of limit n pace] assms(2) show ?thesis
    by (simp add: exec_def check_command_def and_then_ok)
qed

lemma shell_v1_on_device:
  assumes "wf_str cmd" and "CHR 0x00 \<notin> set cmd" and "''shell:'' @ cmd \<notin> set (fc_refuse_services (fs_config sh))"
  shows "\<exists>w'. shell_v1 (session_connection (engine_env limit)) cmd (spawned n sh pace)
     = Some (Inr (ex_stdout (fake_run (fs_config sh) cmd) @ ex_stderr (fake_run (fs_config sh) cmd)), w')"
proof -
  let ?ex = "fake_run (fs_config sh) cmd"
  have svc: "wf_str (''shell:'' @ cmd)" "CHR 0x00 \<notin> set (''shell:'' @ cmd)" using service_wf [OF assms(1,2), of "''shell:''"] by auto
  have "fake_open sh (''shell:'' @ cmd) = Some (Oneshot [ex_stdout ?ex @ ex_stderr ?ex], sh)"
    using assms(3) by (simp add: fake_open_def Let_def)
  from oneshot_on_device [OF svc this, of limit n pace] assms(2) show ?thesis
    by (simp add: shell_v1_def check_command_def and_then_ok)
qed

lemma reboot_on_device:
  assumes "''reboot:'' @ reboot_arg target \<notin> set (fc_refuse_services (fs_config sh))"
  shows "\<exists>w'. reboot (session_connection (engine_env limit)) target (spawned n sh pace) = Some (Inr (), w')"
proof -
  have ascii: "\<forall>c \<in> set (''reboot:'' @ reboot_arg target). of_char c < (128 :: nat)" by (cases target) simp_all
  have nul: "CHR 0x00 \<notin> set (''reboot:'' @ reboot_arg target)" by (cases target) simp_all
  have "fake_open sh (''reboot:'' @ reboot_arg target)
      = Some (Oneshot [], sh\<lparr>fs_rebooted := fs_rebooted sh @ [reboot_arg target]\<rparr>)"
    using assms by (simp add: fake_open_def Let_def)
  from oneshot_on_device [OF wf_str_ascii [OF ascii] nul this, of limit n pace] show ?thesis
    by (auto simp: reboot_def and_then_ok)
qed

subsection \<open>A refused service\<close>

definition refusing :: "nat \<Rightarrow> message \<Rightarrow> 'pk running world \<Rightarrow> bool" where
  "refusing limit m w \<longleftrightarrow> stream_up 0 0 [] (sess w) \<and>
     ((wires [m] [] [] w \<or> wires [] [m] [] w)
        \<and> (\<exists>en. en_loop pipe_ops limit (([m], []), engine_of w) = Some (Inr (), (([], [empty_message Close 0 1]), en)))
      \<or> wires [] [] [empty_message Close 0 1] w)"

definition refused :: "'pk running world \<Rightarrow> bool" where
  "refused w \<longleftrightarrow> stream_down (sess w) \<and> acks (stream_of (sess w) 0) = 0 \<and> wires [] [] [] w"

lemma turn_refusing:
  assumes "refusing limit m w"
  shows "refusing limit m (turn limit w) \<and> wake (stream_of (sess (turn limit w)) 0) = wake (stream_of (sess w) 0)
       \<and> (turn limit w, w) \<in> measures [distance, idle]
     \<or> refused (turn limit w) \<and> wake (stream_of (sess (turn limit w)) 0)"
proof (cases "idle w = 0")
  case False
  from turn_idle [where limit = limit, OF this] assms show ?thesis by (auto simp: refusing_def)
next
  case idle: True
  let ?w = "turn limit w"
  have up: "writer_alive (sess w)" "stream_up 0 0 [] (sess w)" using assms by (simp_all add: refusing_def stream_up_def)
  consider (posted) "wires [m] [] [] w" | (written) "wires [] [m] [] w" | (sent) "wires [] [] [empty_message Close 0 1] w"
    using assms unfolding refusing_def by blast
  then show ?thesis
  proof cases
    case posted
    note w' = turn_write [where limit = limit, OF idle posted up(1)]
    have "refusing limit m ?w" "wake (stream_of (sess ?w) 0) = wake (stream_of (sess w) 0)"
      using w' up posted assms by (auto simp: refusing_def stream_up_def stream_of_def wires_def)
    then show ?thesis using distance_wires [OF w'(6)] distance_wires [OF posted] by simp
  next
    case written
    then obtain en where "en_loop pipe_ops limit (([m], []), engine_of w) = Some (Inr (), (([], [empty_message Close 0 1]), en))"
      using assms by (auto simp: refusing_def wires_def)
    from turn_read [OF idle written _ this] have w': "sess ?w = sess w" "wires [] [] [empty_message Close 0 1] ?w" by simp_all
    then have "refusing limit m ?w" using up(2) by (simp add: refusing_def)
    then show ?thesis using w'(1) distance_wires [OF w'(2)] distance_wires [OF written] by simp
  next
    case sent
    note w' = turn_receive [where limit = limit, OF idle sent]
    from receive_close [OF up(2) w'(1)] w'(2-4) sent up(2) have "refused ?w \<and> wake (stream_of (sess ?w) 0)"
      by (auto simp: refused_def stream_up_def wires_def unread_def)
    then show ?thesis ..
  qed
qed

lemma notified_refusing:
  "refusing limit m w \<Longrightarrow> \<not> wake (stream_of (sess w) 0) \<Longrightarrow>
     \<exists>w'. notified (engine_env limit) 0 w = Some (Inr (), w') \<and> refused w'"
proof (induction w rule: wf_induct_rule [OF wf_measures [of "[distance, idle]"]])
  case (1 w)
  note step = notified_turn [OF 1(3), of limit]
  from turn_refusing [OF 1(2)] show ?case
  proof
    assume "refusing limit m (turn limit w) \<and> wake (stream_of (sess (turn limit w)) 0) = wake (stream_of (sess w) 0)
       \<and> (turn limit w, w) \<in> measures [distance, idle]"
    with 1(1) [of "turn limit w"] 1(3) show ?thesis unfolding step by simp
  next
    assume "refused (turn limit w) \<and> wake (stream_of (sess (turn limit w)) 0)"
    then show ?thesis unfolding step
      by (auto simp: notified.simps [of _ 0 "turn limit w"] refused_def stream_down_def wires_def unread_def state_simps)
  qed
qed

lemma refused_on_device:
  assumes "wf_str svc" and "CHR 0x00 \<notin> set svc" and "fake_open sh svc = None"
  shows "\<exists>w'. open_stream (engine_env limit) svc (spawned n sh pace) = Some (Inl (ServiceRefused svc), w')"
proof -
  let ?m = "new_message Open 1 0 (as_bytes svc @ [0])" and ?E = "engine_env limit"
  obtain w1 where w1: "atomic register_stream (spawned n sh pace) = Some (Inr 0, w1)" "stream_up 0 0 [] (sess w1)"
    "wires [] [] [] w1" "engine_of w1 = new_engine sh" "\<not> wake (stream_of (sess w1) 0)" by (rule registered)
  let ?w2 = "turn limit w1"
  note w2 = turn_calm [OF w1(3), of limit]
  have up: "stream_up 0 0 [] (sess ?w2)" using w1(2) w2(1) by simp
  let ?w3 = "?w2\<lparr>sess := snd (post ?m (sess ?w2))\<rparr>"
  note posted = post_up [OF up w2(3) refl, of ?m]
  have "\<exists>en. en_loop pipe_ops limit (([?m], []), engine_of ?w3) = Some (Inr (), (([], [empty_message Close 0 1]), en))"
    using engine_refuses [OF assms(1,2), of "new_engine sh" limit] assms(3) w2(2) w1(4) by (simp add: new_engine_def)
  then have "refusing limit ?m ?w3" using posted(1,2) by (simp add: refusing_def)
  from turn_refusing [OF this] have turned: "refusing limit ?m (turn limit ?w3) \<and> \<not> wake (stream_of (sess (turn limit ?w3)) 0) \<or> refused (turn limit ?w3)"
    using posted(4) w1(5) w2(1) by auto
  have over: "wait_ack ?E 0 0 w = Some (Inr False, w)" if "refused w" for w
    using that by (intro wait_ack_ready) (simp add: poll_ack_def refused_def stream_down_def)
  obtain w4 where w4: "wait_ack ?E 0 0 (turn limit ?w3) = Some (Inr False, w4)" "refused w4"
  proof (cases "refused (turn limit ?w3)")
    case True
    then show ?thesis using over that by blast
  next
    case False
    with turned have asking: "refusing limit ?m (turn limit ?w3)" "\<not> wake (stream_of (sess (turn limit ?w3)) 0)" by simp_all
    from notified_refusing [OF this] obtain w4 where
      w4: "notified ?E 0 (turn limit ?w3) = Some (Inr (), w4)" "refused w4" by blast
    have "poll_ack 0 (stream_of (sess (turn limit ?w3)) 0) = None"
      using asking(1) by (simp add: poll_ack_def refusing_def stream_up_def)
    with w4 over [OF w4(2)] show ?thesis by (intro that [of w4]) (simp_all add: wait_ack.simps [of _ 0 _ "turn limit ?w3"])
  qed
  have "look 0 local_id ?w2 = Some (Inr 1, ?w2)" using up by (simp add: look_def stream_up_def)
  with assms(2) w1(1) posted(3) w4(1) show ?thesis
    by (simp add: open_stream_def and_then_ok pause_turn handle_def)
      (simp add: and_then_def look_def atomic_def modify_def)
qed

subsection \<open>Writing\<close>

lemma write_granted:
  assumes "granted conf k (Shell_stream v) [] w" and "\<not> sv_done v" and "shell_on_data conf v b = Some (answers, v')"
    and "sv_done v' \<or> chunked answers limit = []" and "Suc k < 2 ^ 64"
  shows "\<exists>w'. write_chunk (engine_env limit) 0 b w = Some (Inr (), w')
     \<and> granted conf (Suc k) (Shell_stream v') (chunked answers limit) w'"
proof -
  have w: "stream_up 100 k [] (sess w)" "wires [] [] [] w" "en_streams (engine_of w) 100 = Some (dev_stream (Shell_stream v) [] False)"
    "fs_config (en_shared (engine_of w)) = conf"
    using assms(1,2) by (simp_all add: granted_def answered_def)
  let ?w1 = "turn limit w" let ?w2 = "turn limit ?w1" let ?w3 = "turn limit ?w2"
  note t1 = turn_calm [OF w(2), of limit] note t2 = turn_calm [OF t1(3), of limit] note t3 = turn_calm [OF t2(3), of limit]
  have up: "stream_up 100 k [] (sess ?w3)" using w(1) t1(1) t2(1) t3(1) by simp
  have data: "handler_on_data (en_shared (en_received (host_data b) (engine_of ?w3))) (Shell_stream v) b
      = Some (answers, Shell_stream v', en_shared (en_received (host_data b) (engine_of ?w3)))"
    using assms(3) w(4) t1(2) t2(2) t3(2) by (simp add: en_received_def)
  have "en_streams (engine_of ?w3) 100 = Some (dev_stream (Shell_stream v) [] False)" using w(3) t1(2) t2(2) t3(2) by simp
  from engine_reads_data [OF this data, of limit]
  have eng: "\<exists>en. en_loop pipe_ops limit (([host_data b], []), engine_of ?w3)
        = Some (Inr (), (([], device_okay # pumps (Shell_stream v') (chunked answers limit)), en))
      \<and> en_streams en 100 = pumped (Shell_stream v') (chunked answers limit) \<and> fs_config (en_shared en) = conf"
    using w(4) t1(2) t2(2) t3(2) by (auto simp: en_received_def)
  from asked [OF up _ t3(3) assms(5) eng] assms(4) obtain w4 w5 where
    w4: "post_message (host_data b) ?w3 = Some (Inr (), w4)"
    and w5: "wait_ack (engine_env limit) 0 (word_of_nat k) (turn limit w4) = Some (Inr True, w5)"
      "granted conf (Suc k) (Shell_stream v') (chunked answers limit) w5" by auto
  have "ids (engine_env limit) 0 w = Some (Inr (1, 100), ?w1)"
    using w(1) t1(1) by (simp add: ids_def look_def and_then_def pause_turn stream_up_def remote_def)
  moreover have "look 0 acks ?w2 = Some (Inr (word_of_nat k), ?w2)" using up t3(1) by (simp add: look_def stream_up_def)
  ultimately have "write_chunk (engine_env limit) 0 b w = Some (Inr (), w5)"
    using w4 w5(1) by (simp add: write_chunk_def and_then_ok pause_turn)
  with w5(2) show ?thesis by blast
qed

text \<open>
  Bytes whose frames are all input are taken in whatever pieces they come; the piece that completes the
  closing frame runs the command.
\<close>

lemma shell_frames_input:
  "\<forall>fr \<in> set frs. fr_id fr = Stdin \<Longrightarrow>
     shell_frames conf v frs = Some ([], v\<lparr>sv_stdin := sv_stdin v @ concat (map fr_data frs)\<rparr>)"
  by (induction frs arbitrary: v) simp_all

lemma parse_frames_split:
  assumes "parse_frames (buf @ a @ b) = (Inr frs, rest)"
  obtains fs gs r where "parse_frames (buf @ a) = (Inr fs, r)" and "parse_frames (r @ b) = (Inr gs, rest)" and "frs = fs @ gs"
  using assms parse_frames_more [of "buf @ a" b] by (auto split: prod.splits sum.splits)

lemma send_input:
  "granted conf k (Shell_stream v) [] w \<Longrightarrow> \<not> sv_done v \<Longrightarrow> parse_frames (sv_parser v @ bs) = (Inr frs, rest) \<Longrightarrow>
     \<forall>fr \<in> set frs. fr_id fr = Stdin \<Longrightarrow> Suc k + length bs < 2 ^ 64 \<Longrightarrow> 0 < m \<Longrightarrow> bs \<noteq> [] \<Longrightarrow>
     \<exists>w' k'. send_rest (engine_env limit) 0 m bs w = Some (Inr (), w') \<and> k' \<le> k + length bs
       \<and> granted conf k' (Shell_stream (v\<lparr>sv_parser := rest, sv_stdin := sv_stdin v @ concat (map fr_data frs)\<rparr>)) [] w'"
proof (induction "length bs" arbitrary: bs k v w frs rule: less_induct)
  case less
  let ?a = "take m bs" and ?b = "drop m bs"
  have "parse_frames (sv_parser v @ ?a @ ?b) = (Inr frs, rest)" using less.prems(3) by simp
  then obtain fs gs r where cut: "parse_frames (sv_parser v @ ?a) = (Inr fs, r)" "parse_frames (r @ ?b) = (Inr gs, rest)" "frs = fs @ gs"
    by (rule parse_frames_split)
  let ?v = "v\<lparr>sv_parser := r, sv_stdin := sv_stdin v @ concat (map fr_data fs)\<rparr>"
  have fed: "shell_on_data conf v ?a = Some ([], ?v)"
    using cut(1,3) less.prems(4) by (simp add: shell_on_data_def push_def shell_frames_input)
  have none: "chunked [] limit = []" by (simp add: chunked_def)
  have "Suc k < 2 ^ 64" using less.prems(5) by simp
  from write_granted [where limit = limit, OF less.prems(1,2) fed _ this] none obtain w1 where
    w1: "write_chunk (engine_env limit) 0 ?a w = Some (Inr (), w1)" "granted conf (Suc k) (Shell_stream ?v) [] w1" by auto
  show ?case
  proof (cases "?b = []")
    case True
    then have "send_rest (engine_env limit) 0 m bs w = Some (Inr (), w1)"
      using w1(1) less.prems(7) by (simp add: send_rest.simps [of _ 0 m bs] send_rest.simps [of _ 0 m "[]"] and_then_ok)
    moreover have "rest = r" "gs = []" using True cut(2) parse_frames_rest [OF cut(1)] by simp_all
    moreover have "Suc k \<le> k + length bs" using less.prems(7) by (cases bs) simp_all
    ultimately show ?thesis using w1(2) cut(3) by (intro exI [of _ w1] exI [of _ "Suc k"]) simp
  next
    case False
    have shorter: "length ?b < length bs" using less.prems(6,7) by simp
    have "Suc (Suc k) + length ?b < 2 ^ 64" using shorter less.prems(5) by simp
    from less.hyps [OF shorter w1(2) _ _ _ this less.prems(6) False] cut less.prems(2,4) obtain w2 k' where
      w2: "send_rest (engine_env limit) 0 m ?b w1 = Some (Inr (), w2)" "k' \<le> Suc k + length ?b"
        "granted conf k' (Shell_stream (?v\<lparr>sv_parser := rest, sv_stdin := sv_stdin ?v @ concat (map fr_data gs)\<rparr>)) [] w2"
      by auto
    have "send_rest (engine_env limit) 0 m bs w = Some (Inr (), w2)"
      using w1(1) w2(1) less.prems(7) by (simp add: send_rest.simps [of _ 0 m bs] and_then_ok)
    moreover have "k' \<le> k + length bs" using w2(2) shorter by simp
    ultimately show ?thesis using w2(3) cut(3) by auto
  qed
qed

lemma send_closing:
  "granted conf k (Shell_stream v) [] w \<Longrightarrow> \<not> sv_done v \<Longrightarrow> parse_frames (sv_parser v) = (Inr [], sv_parser v) \<Longrightarrow>
     parse_frames (sv_parser v @ bs) = (Inr [fr], []) \<Longrightarrow> fr_id fr = CloseStdin \<Longrightarrow>
     small_exit (command_exit conf (sv_command v) (sv_stdin v)) \<Longrightarrow> Suc k + length bs < 2 ^ 64 \<Longrightarrow> 0 < m \<Longrightarrow>
     \<exists>w' k' h frames. send_rest (engine_env limit) 0 m bs w = Some (Inr (), w') \<and> handler_finished h
       \<and> granted conf k' h (chunked frames limit) w'
       \<and> concat frames = encode_all (out_frames (command_exit conf (sv_command v) (sv_stdin v)))"
proof (induction "length bs" arbitrary: bs k v w rule: less_induct)
  case less
  let ?a = "take m bs" and ?b = "drop m bs"
  have bs: "bs \<noteq> []" using less.prems(3,4) by auto
  have "parse_frames (sv_parser v @ ?a @ ?b) = (Inr [fr], [])" using less.prems(4) by simp
  then obtain fs gs r where cut: "parse_frames (sv_parser v @ ?a) = (Inr fs, r)" "parse_frames (r @ ?b) = (Inr gs, [])" "[fr] = fs @ gs"
    by (rule parse_frames_split)
  show ?case
  proof (cases "fs = []")
    case False
    then have fs: "fs = [fr]" "gs = []" using cut(3) by (auto simp: Cons_eq_append_conv)
    have "?b = []" using cut(2) fs(2) parse_frames_none [of "r @ ?b" "[]"] by simp
    let ?v = "v\<lparr>sv_parser := r\<rparr>"
    obtain frames h where h: "shell_finish conf ?v = Some (frames, h)" "sv_done h"
      "concat frames = encode_all (out_frames (command_exit conf (sv_command v) (sv_stdin v)))"
      using shell_finish_frames [of conf ?v] less.prems(6) by auto
    have fed: "shell_on_data conf v ?a = Some (frames, h)"
      using cut(1) fs(1) less.prems(5) h(1) by (simp add: shell_on_data_def push_def)
    have "Suc k < 2 ^ 64" using less.prems(7) by simp
    from write_granted [where limit = limit, OF less.prems(1,2) fed _ this] h(2) obtain w1 where
      w1: "write_chunk (engine_env limit) 0 ?a w = Some (Inr (), w1)" "granted conf (Suc k) (Shell_stream h) (chunked frames limit) w1"
      by auto
    have "send_rest (engine_env limit) 0 m bs w = Some (Inr (), w1)"
      using w1(1) bs \<open>?b = []\<close> by (simp add: send_rest.simps [of _ 0 m bs] send_rest.simps [of _ 0 m "[]"] and_then_ok)
    with w1(2) h(2,3) show ?thesis by (intro exI [of _ w1] exI [of _ "Suc k"] exI [of _ "Shell_stream h"] exI [of _ frames]) simp
  next
    case True
    let ?v = "v\<lparr>sv_parser := r\<rparr>"
    have fed: "shell_on_data conf v ?a = Some ([], ?v)" using cut(1) True by (simp add: shell_on_data_def push_def)
    have none: "chunked [] limit = []" by (simp add: chunked_def)
    have "Suc k < 2 ^ 64" using less.prems(7) by simp
    from write_granted [where limit = limit, OF less.prems(1,2) fed _ this] none obtain w1 where
      w1: "write_chunk (engine_env limit) 0 ?a w = Some (Inr (), w1)" "granted conf (Suc k) (Shell_stream ?v) [] w1" by auto
    have r: "parse_frames r = (Inr [], r)" by (rule parse_frames_rest [OF cut(1)])
    have last: "parse_frames (r @ ?b) = (Inr [fr], [])" using cut(2,3) True by simp
    with r have "?b \<noteq> []" by auto
    have shorter: "length ?b < length bs" using less.prems(8) bs by simp
    have "Suc (Suc k) + length ?b < 2 ^ 64" using shorter less.prems(7) by simp
    from less.hyps [OF shorter w1(2) _ _ _ less.prems(5) _ this less.prems(8)] r last less.prems(2,6) obtain w2 k' h frames where
      w2: "send_rest (engine_env limit) 0 m ?b w1 = Some (Inr (), w2)" "handler_finished h" "granted conf k' h (chunked frames limit) w2"
        "concat frames = encode_all (out_frames (command_exit conf (sv_command v) (sv_stdin v)))" by auto
    have "send_rest (engine_env limit) 0 m bs w = Some (Inr (), w2)"
      using w1(1) w2(1) bs by (simp add: send_rest.simps [of _ 0 m bs] and_then_ok)
    with w2(2-4) show ?thesis by blast
  qed
qed

subsection \<open>A whole call\<close>

lemma collect_granted:
  assumes "granted conf k h cs w" and "handler_finished h"
  shows "\<exists>w'. collect_v2 (stream_ops (engine_env limit)) \<lparr>state_ix = 0, max_chunk = m\<rparr> w = Some (collected (concat cs), w')"
proof -
  have w: "flowing h k cs w" using assms by (simp add: granted_def)
  then have "\<exists>k cs. flowing h k cs w" by blast
  from spawned.collect_v2_all [OF TrueI this] flowing_output [OF w] show ?thesis by auto
qed

lemma collected_frames: "small_exit ex \<Longrightarrow> collected (encode_all (out_frames ex)) = Inr (exit_output ex)"
  using parse_encode_all [OF small_out_frames, of ex] out_frames_output [of ex]
  by (simp add: collected_def apply_frames)

lemma shell_v2_on_device:
  assumes "wf_str cmd" and "CHR 0x00 \<notin> set cmd" and "''shell,v2:'' @ cmd \<notin> set (fc_refuse_services (fs_config sh))"
    and "0 < n_max_payload n" and "length stdin < 2 ^ 32" and "small_exit (command_exit (fs_config sh) cmd stdin)"
  shows "\<exists>w'. shell_v2 (session_connection (engine_env limit)) cmd stdin (spawned n sh pace)
     = Some (Inr (exit_output (command_exit (fs_config sh) cmd stdin)), w')"
proof -
  let ?E = "engine_env limit" and ?conf = "fs_config sh" and ?m = "unat (n_max_payload n)"
  let ?st = "\<lparr>state_ix = 0, max_chunk = ?m\<rparr> :: stream" and ?v = "new_shell_handler cmd"
  have svc: "wf_str (''shell,v2:'' @ cmd)" "CHR 0x00 \<notin> set (''shell,v2:'' @ cmd)"
    using service_wf [OF assms(1,2), of "''shell,v2:''"] by auto
  have m: "0 < ?m" using assms(4) by (simp add: unat_gt_0)
  have "fake_open sh (''shell,v2:'' @ cmd) = Some (Shell_stream ?v, sh)"
    using assms(3) by (simp add: fake_open_def Let_def)
  from open_spawned [OF svc this, of "[]" "Shell_stream ?v" limit n pace] obtain w1 where
    w1: "open_stream ?E (''shell,v2:'' @ cmd) (spawned n sh pace) = Some (Inr ?st, w1)" "granted ?conf 1 (Shell_stream ?v) [] w1"
    by (auto simp: chunked_def)
  have frame: "frame_encode fid d = Inr (encode_all [\<lparr>fr_id = fid, fr_data = d\<rparr>])" if "length d < 2 ^ 32" for fid d
    using that by (simp add: encode_all_def frame_encode_def)
  obtain w2 k2 where w2: "(if stdin \<noteq> [] then and_then (of_result (frame_encode Stdin stdin)) (stream_send ?E ?st) else ret ()) w1
        = Some (Inr (), w2)" "granted ?conf k2 (Shell_stream (?v\<lparr>sv_stdin := stdin\<rparr>)) [] w2" "k2 \<le> 1 + (2 ^ 32 + 5)"
  proof (cases "stdin = []")
    case True
    with w1(2) show ?thesis by (intro that [of w1 1]) (simp_all add: new_shell_handler_def)
  next
    case False
    let ?bs = "encode_all [\<lparr>fr_id = Stdin, fr_data = stdin\<rparr>]"
    have parsed: "parse_frames (sv_parser ?v @ ?bs) = (Inr [\<lparr>fr_id = Stdin, fr_data = stdin\<rparr>], [])"
      using parse_encode_all [of "[\<lparr>fr_id = Stdin, fr_data = stdin\<rparr>]"] assms(5) by (simp add: new_shell_handler_def)
    have len: "length ?bs = length stdin + 5" using assms(5) by (simp add: encode_all_def frame_encode_def)
    then have "?bs \<noteq> []" "Suc 1 + length ?bs < 2 ^ 64" using assms(5) by auto
    from send_input [where limit = limit, OF w1(2) _ parsed _ this(2) m this(1)] obtain w2 k2 where
      "send_rest ?E 0 ?m ?bs w1 = Some (Inr (), w2)" "k2 \<le> 1 + length ?bs" "granted ?conf k2 (Shell_stream (?v\<lparr>sv_stdin := stdin\<rparr>)) [] w2"
      by (auto simp: new_shell_handler_def)
    with False frame [OF assms(5), of Stdin] len assms(5) show ?thesis
      by (intro that [of w2 k2]) (simp_all add: stream_send_def and_then_def)
  qed
  let ?bs = "encode_all [\<lparr>fr_id = CloseStdin, fr_data = []\<rparr>]"
  have "length ?bs = 5" by (simp add: encode_all_def frame_encode_def)
  then have room: "Suc k2 + length ?bs < 2 ^ 64" using w2(3) by simp
  have parsed: "parse_frames (sv_parser (?v\<lparr>sv_stdin := stdin\<rparr>) @ ?bs) = (Inr [\<lparr>fr_id = CloseStdin, fr_data = []\<rparr>], [])"
    using parse_encode_all [of "[\<lparr>fr_id = CloseStdin, fr_data = []\<rparr>]"] by (simp add: new_shell_handler_def)
  obtain w3 k3 h frames where w3: "send_rest ?E 0 ?m ?bs w2 = Some (Inr (), w3)" "handler_finished h"
    "granted ?conf k3 h (chunked frames limit) w3" "concat frames = encode_all (out_frames (command_exit ?conf cmd stdin))"
    using send_closing [where limit = limit, OF w2(2) _ _ parsed _ _ room m] assms(6)
    by (auto simp: new_shell_handler_def parse_frames_short)
  obtain w4 where "collect_v2 (stream_ops ?E) ?st w3 = Some (Inr (exit_output (command_exit ?conf cmd stdin)), w4)"
    using collect_granted [OF w3(3,2), of limit ?m] w3(4) collected_frames [OF assms(6)] by (auto simp: concat_chunked)
  with w1(1) w2(1) w3(1) assms(2,5) frame [of "[]" CloseStdin] frame [of stdin Stdin] show ?thesis
    by (cases "stdin = []")
      (auto simp: shell_v2_def check_command_def session_connection_def stream_ops_def stream_send_def and_then_def)
qed

text \<open>
  \<open>Device::shell\<close> on a fresh session: the features come from the device's banner, and choose between the
  service with an exit code and the one that merges both outputs.
\<close>

lemma device_shell_on_device:
  assumes "wf_str cmd" and "CHR 0x00 \<notin> set cmd" and "0 < n_max_payload n" and "fc_refuse_services (fs_config sh) = []"
    and "small_exit (command_exit (fs_config sh) cmd [])" and "ex = fake_run (fs_config sh) cmd"
  shows "\<exists>s'. device_shell (session_connection (engine_env limit)) cmd \<lparr>dv_world = spawned n sh pace, dv_features = None\<rparr>
     = Some (Inr (if SHELL_V2_FEATURE \<in> set (features (n_banner n))
                  then exit_output (command_exit (fs_config sh) cmd [])
                  else \<lparr>stdout = ex_stdout ex @ ex_stderr ex, stderr = [], exit_code = None\<rparr>), s')"
proof -
  let ?N = "session_connection (engine_env limit) :: (_ running world, stream) connection"
  have fts: "cn_features ?N (spawned n sh pace) = Some (Inr (features (n_banner n)), spawned n sh pace)"
    by (simp add: session_connection_def session_features_def spawned_def session_start_def)
  obtain w2 where "shell_v2 ?N cmd [] (spawned n sh pace) = Some (Inr (exit_output (command_exit (fs_config sh) cmd [])), w2)"
    using shell_v2_on_device [OF assms(1,2) _ assms(3) _ assms(5), of limit pace] assms(4) by auto
  moreover obtain w1 where "shell_v1 ?N cmd (spawned n sh pace) = Some (Inr (ex_stdout ex @ ex_stderr ex), w1)"
    using shell_v1_on_device [OF assms(1,2), of sh limit n pace] assms(4,6) by auto
  ultimately show ?thesis using fts
    by (simp add: device_shell_def device_features_def shell_def and_then_def on_conn_def on_part_def)
qed

text \<open>
  C13: host and device together, from the call to its result: \<open>shell,v2:\<close> over a session whose other side
  is the crate's device returns the output and the exit code of the device's interpreter, and \<open>cat\<close>
  returns the input, for any input and output below 4 GiB, any payload limits of the two sides and
  however slow each task is: open, acknowledgements, cut input, cut output and the end all fit.
\<close>

theorem shell_on_device:
  assumes "wf_str cmd" and "CHR 0x00 \<notin> set cmd" and "''shell,v2:'' @ cmd \<notin> set (fc_refuse_services (fs_config sh))"
    and "0 < n_max_payload n" and "length stdin < 2 ^ 32" and "small_exit (command_exit (fs_config sh) cmd stdin)"
    and "limit = unat (peer_limit (fs_config sh))"
  shows "\<exists>w'. shell_v2 (session_connection (engine_env limit)) cmd stdin (spawned n sh pace)
     = Some (Inr (exit_output (command_exit (fs_config sh) cmd stdin)), w')"
  by (rule shell_v2_on_device [OF assms(1-6)])

theorem shell_on_device_witness:
  "\<exists>w'. shell_v2 (session_connection (engine_env (unat (peer_limit sample_fake)))) ''warn'' [7]
       (spawned sample_agreed (new_shared sample_fake) (\<lambda>k. k))
     = Some (Inr \<lparr>stdout = as_bytes ''out'' @ [10], stderr = as_bytes ''err'' @ [10], exit_code = Some 3\<rparr>, w')"
proof -
  have conf: "fs_config (new_shared sample_fake) = sample_fake" by (simp add: new_shared_def Let_def)
  have run: "command_exit sample_fake ''warn'' [7] = \<lparr>ex_stdout = as_bytes ''out'' @ [10], ex_stderr = as_bytes ''err'' @ [10], ex_code = 3\<rparr>"
    unfolding command_exit_def fake_run_def by code_simp
  have wf: "wf_str ''warn''" by (rule wf_str_ascii) simp
  have open_to_all: "fc_refuse_services sample_fake = []" by (simp add: sample_fake_def fake_default_def Let_def)
  have "small_exit (command_exit sample_fake ''warn'' [7])" by (simp add: run small_exit_def)
  from shell_on_device [where sh = "new_shared sample_fake" and n = sample_agreed and pace = "\<lambda>k. k", OF wf _ _ _ _ _ refl, of "[7]"] this
  show ?thesis by (simp add: conf run open_to_all exit_output_def sample_agreed_def)
qed

end
