(* ===== verification/Cli_Device.thy ===== *)
theory Cli_Device
  imports Cli Fake_Session
begin

text \<open>
  The program against the crate's own device, from the parsed options to the exit code. The machine of
  \<open>Cli\<close> dials an address where the device of \<open>tests/common/fake\<close> listens: the bytes the socket yields
  in the handshake are those the device sends, and the tasks of the session run against the device's
  engine as in \<open>Fake_Session\<close>.
\<close>

subsection \<open>The machine's side of the connection\<close>

text \<open>After the handshake the other tasks of the process are those of \<open>Fake_Session\<close>, with the device \<open>sh\<close> at the far end.\<close>

definition listens ::
  "('o, 'r, 'w, 'i, 'd, 'f, 'a, 'b, 'pk running, 'sk, 'pk) host_machine \<Rightarrow> 'pk fake_shared \<Rightarrow> (nat \<Rightarrow> nat) \<Rightarrow> bool" where
  "listens M sh pace \<longleftrightarrow>
     mc_env M = engine_env (unat (peer_limit (fs_config sh)))
     \<and> (\<forall>t. ln_tasks (mc_tcp_link M) t = sched (spawned (device_terms (fs_config sh)) sh pace))"

lemma peer_limit_pos: "0 < peer_limit conf"
  by (simp add: peer_limit_def LEGACY_MAX_PAYLOAD_def word_gt_0)

lemma spawned_split: "spawned n sh pace = \<lparr>sess = session_start n, sched = sched (spawned n sh pace)\<rparr>"
  by (simp add: spawned_def)

text \<open>The options lead to a fresh session with the device, on the terms it announces.\<close>

lemma cli_connect_to_device:
  assumes "\<not> tg_server (cl_target c)" and "tg_tcp (cl_target c) = Some spec" and "parse_endpoint spec = Inr addr"
    and "load_key M c os = Some (Inr key, os1)"
    and "mc_dial M addr os1 = Some (Inr (r, w), os2)" and "mc_nodelay M (r, w) os2 = Some (Inr (), os3)"
    and "over_stream (mc_crypto M) key (ln_timeout (mc_tcp_link M)) (nw_read (mc_server M)) avail (nw_write (mc_server M)) out w"
    and "sign_token (mc_crypto M) key (rng 0) = Inr sg" and "public_key_payload (mc_crypto M) key = Inr p"
    and "supported (fs_config sh)" and "lets_in (fs_config sh) known"
    and "deframe_all INITIAL (avail r) = device_says (fs_config sh) rng known" and "listens M sh pace"
  shows "cli_connect M c (n, os) = Some (Inr (Direct_device (new_device (spawned (device_terms (fs_config sh)) sh pace))), (n, os3))"
proof -
  have run: "hs_run (mc_crypto M) key hs_init (deframe_all INITIAL (avail r))
      = Some (Inr (device_terms (fs_config sh)), host_says (fs_config sh) sg p known, [])"
    using host_run [where rng = rng, OF assms(8,9,11)] negotiate_supported [OF assms(10)] assms(12) by simp
  from tcp_session_run [OF assms(7,5,6) this, of c] assms(13)
  have "cli_tcp_session M c key addr os1 = Some (Inr (spawned (device_terms (fs_config sh)) sh pace), os3)"
    by (auto simp: listens_def simp flip: spawned_split)
  then show ?thesis by (rule cli_connect_over_tcp [OF assms(1,2,4,3)])
qed

subsection \<open>Properties\<close>

text \<open>
  C12: a whole run of \<open>rsadb -t HOST shell \<dots>\<close> against the crate's device, through every layer of both sides:
  when the device lets the host in, the run returns whatever the pace of the tasks, standard output
  and standard error receive exactly what the device's interpreter wrote, and the process exits with
  0 when the command did, and with 7 and one line on standard error otherwise; a device without
  \<open>shell_v2\<close> gives both outputs on standard output and no status.
\<close>

theorem cli_shell_on_device:
  assumes "takes_output (mc_terminal M) shown complained" and "cl_command c = Shell ws"
    and "\<not> tg_server (cl_target c)" and "tg_tcp (cl_target c) = Some spec" and "parse_endpoint spec = Inr addr"
    and "load_key M c os = Some (Inr key, os1)"
    and "mc_dial M addr os1 = Some (Inr (r, w), os2)" and "mc_nodelay M (r, w) os2 = Some (Inr (), os3)"
    and "over_stream (mc_crypto M) key (ln_timeout (mc_tcp_link M)) (nw_read (mc_server M)) avail (nw_write (mc_server M)) out w"
    and "sign_token (mc_crypto M) key (rng 0) = Inr sg" and "public_key_payload (mc_crypto M) key = Inr p"
    and "supported (fs_config sh)" and "lets_in (fs_config sh) (knows (mc_crypto M) (fs_config sh) (rng 0) sg)" and "fc_refuse_services (fs_config sh) = []"
    and "deframe_all INITIAL (avail r) = device_says (fs_config sh) rng (knows (mc_crypto M) (fs_config sh) (rng 0) sg)" and "listens M sh pace"
    and "wf_str (join '' '' ws)" and "CHR 0x00 \<notin> set (join '' '' ws)"
    and "ex = command_exit (fs_config sh) (join '' '' ws) []" and "small_exit ex"
    and "modern \<longleftrightarrow> SHELL_V2_FEATURE \<in> set (features (fc_banner (fs_config sh)))"
    and "plain = fake_run (fs_config sh) (join '' '' ws)"
  shows "\<exists>os'. cli_main M c (n, os) = Some (if modern \<and> ex_code ex \<noteq> 0 then 7 else 0, (n, os'))
     \<and> shown os' = shown os3 @ (if modern then ex_stdout ex else ex_stdout plain @ ex_stderr plain)
     \<and> complained os' = complained os3 @ (if modern then ex_stderr ex else [])
          @ (if modern \<and> ex_code ex \<noteq> 0 then error_line (mc_terminal M) (exit_status (ex_code ex)) else [])"
proof -
  let ?N = "session_connection (mc_env M)" and ?d = "new_device (spawned (device_terms (fs_config sh)) sh pace)"
  define res where "res = (if modern then exit_output ex else \<lparr>stdout = ex_stdout plain @ ex_stderr plain, stderr = [], exit_code = None\<rparr>)"
  have env: "mc_env M = engine_env (unat (peer_limit (fs_config sh)))" using assms(16) by (simp add: listens_def)
  obtain d' where d': "device_shell ?N (join '' '' ws) ?d = Some (Inr res, d')"
    using device_shell_on_device [OF assms(17,18) _ assms(14) _ assms(22), of "device_terms (fs_config sh)"
        "unat (peer_limit (fs_config sh))" pace] assms(19-21) peer_limit_pos [of "fs_config sh"]
    by (auto simp: env new_device_def res_def device_terms_def)
  obtain os4 where os4: "cli_shell (mc_terminal M) ?N (join '' '' ws) (?d, os3) = Some (shell_status (exit_code res), (d', os4))"
    "shown os4 = shown os3 @ stdout res" "complained os4 = complained os3 @ stderr res"
    using cli_shell_run [OF assms(1) d'] by blast
  have "cli_run M c (n, os) = Some (shell_status (exit_code res), (n, os4))"
    using os4(1) assms(2) cli_connect_to_device [OF assms(3-13,15,16)]
    by (simp add: cli_run_def Let_def and_then_ok on_direct_def)
  from cli_main_run [OF assms(1) this] os4(2,3) show ?thesis
    by (auto simp: shell_status_def res_def exit_output_def split: if_splits)
qed

text \<open>
  Its witness: the device of the test support with its own configuration, on its first meeting with
  this host, whose key it asks for and accepts; \<open>warn\<close> writes to both outputs and fails.
\<close>

definition device_machine ::
  "(nat \<times> nat) fake_shared \<Rightarrow> (nat \<Rightarrow> nat)
     \<Rightarrow> (sample_os, bytes list, bytes, nat, unit, unit, unit, unit, (nat \<times> nat) running, nat \<times> nat, nat \<times> nat) host_machine" where
  "device_machine sh pace =
     \<lparr>mc_terminal = sample_terminal, mc_local = sample_local,
      mc_var = [''USER'' \<mapsto> ''me'', ''HOSTNAME'' \<mapsto> ''laptop''], mc_var_os = [''HOME'' \<mapsto> [''home'']],
      mc_path_text = concat, mc_files = sample_files, mc_crypto = pem_crypto, mc_new_key = (\<lambda>n. Inr sample_key),
      mc_dial = (\<lambda>addr s. Some (Inr (sample_input (device_says (fs_config sh) sample_tokens False), []), s)),
      mc_nodelay = (\<lambda>t s. Some (Inr (), s)),
      mc_tcp_link = \<lparr>ln_timeout = sample_timeout, ln_tasks = (\<lambda>t. sched (spawned (device_terms (fs_config sh)) sh pace))\<rparr>,
      mc_usb = sample_usb,
      mc_bulk_in = \<lparr>bi_transfer = (\<lambda>n e. None), bi_packet = 512\<rparr>,
      mc_bulk_out = \<lparr>bo_transfer = (\<lambda>bs e. None), bo_packet = 512\<rparr>,
      mc_usb_link = \<lparr>ln_timeout = sample_timeout, ln_tasks = (\<lambda>t. sched (spawned (device_terms (fs_config sh)) sh pace))\<rparr>,
      mc_env = engine_env (unat (peer_limit (fs_config sh))), mc_server = scripted_server, mc_shutdown = no_shutdown\<rparr>"

lemma device_machine_sel [simp]:
  "mc_terminal (device_machine sh pace) = sample_terminal" "mc_crypto (device_machine sh pace) = pem_crypto"
  "mc_server (device_machine sh pace) = scripted_server" "mc_nodelay (device_machine sh pace) t s = Some (Inr (), s)"
  "mc_dial (device_machine sh pace) addr s = Some (Inr (sample_input (device_says (fs_config sh) sample_tokens False), []), s)"
  "ln_timeout (mc_tcp_link (device_machine sh pace)) = sample_timeout" "listens (device_machine sh pace) sh pace"
  by (simp_all add: device_machine_def listens_def)

lemma device_machine_key:
  "cl_key c = None \<Longrightarrow> load_key (device_machine sh pace) c (a, b, stored_key) = Some (Inr sample_host_key, (a, b, stored_key))"
  using sample_key_loaded [of c "[]" "[]" a b]
  by (simp add: load_key_def cli_paths_def device_machine_def sample_machine_def)

theorem cli_shell_on_device_witness:
  "\<exists>os'. cli_main (device_machine (new_shared sample_conf) (\<lambda>k. k))
       \<lparr>cl_target = \<lparr>tg_serial = None, tg_tcp = Some ''h'', tg_server = False\<rparr>, cl_auth_wait = 60, cl_key = None,
         cl_command = Shell [''warn'']\<rparr> (new_host_channel [] [], ([], [], stored_key))
     = Some (7, (new_host_channel [] [], os')) \<and> fst os' = as_bytes ''out'' @ [10]
     \<and> fst (snd os') = as_bytes ''err'' @ [10] @ error_line sample_terminal (exit_status 3)"
proof -
  let ?M = "device_machine (new_shared sample_conf) (\<lambda>k. k)"
  let ?c = "\<lparr>cl_target = \<lparr>tg_serial = None, tg_tcp = Some ''h'', tg_server = False\<rparr>, cl_auth_wait = 60, cl_key = None,
         cl_command = Shell [''warn'']\<rparr> :: cli"
  let ?ds = "device_says sample_conf sample_tokens False"
  have conf: "fs_config (new_shared sample_conf) = sample_conf" by (simp add: new_shared_def Let_def)
  have addr: "parse_endpoint ''h'' = Inr (''h'', DEFAULT_PORT)"
    by (simp add: parse_endpoint_def trim_graphic graphic_def rsplit_once_def split_once_single_None)
  have key: "load_key ?M ?c ([], [], stored_key) = Some (Inr sample_host_key, ([], [], stored_key))"
    by (rule device_machine_key) simp
  have over: "over_stream (mc_crypto ?M) sample_host_key (ln_timeout (mc_tcp_link ?M)) (nw_read (mc_server ?M)) concat
      (nw_write (mc_server ?M)) id []"
    using pem_over_stream by (simp add: scripted_server_def)
  have sign: "sign_token (mc_crypto ?M) sample_host_key (sample_tokens 0) = Inr (sample_tokens 0)"
    by (simp add: sign_token_def TOKEN_LEN_def pem_crypto_def sample_crypto_def key_err_def sample_tokens_def)
  obtain p where p: "public_key_payload (mc_crypto ?M) sample_host_key = Inr p"
    using pem_crypto_generates(3) by (auto simp: public_key_payload_def)
  have unknown: "\<not> knows (mc_crypto ?M) sample_conf (sample_tokens 0) (sample_tokens 0)"
    by (simp add: knows_def sample_conf_simps)
  have "length (sample_tokens i) \<le> 2000" for i by (simp add: sample_tokens_def)
  then have says: "deframe_all INITIAL (concat (sample_input ?ds)) = ?ds"
    using sample_supported(2)
    by (intro deframe_sample) (auto simp: device_says_def sample_conf_simps token_message_def peer_cnxn_def)
  have ex: "command_exit sample_conf ''warn'' [] = \<lparr>ex_stdout = as_bytes ''out'' @ [10], ex_stderr = as_bytes ''err'' @ [10], ex_code = 3\<rparr>"
    unfolding command_exit_def fake_run_def by code_simp
  have "features (fc_banner sample_conf) = [''shell_v2'', ''cmd'', ''stat_v2'', ''ls_v2'', ''sendrecv_v2'']"
    "fc_refuse_services sample_conf = []"
    by (simp_all add: sample_conf_def fake_default_def Let_def)
  moreover have "wf_str ''warn''" by (rule wf_str_ascii) simp
  moreover have "small_exit (command_exit sample_conf ''warn'' [])" by (simp add: ex small_exit_def)
  moreover note cli_shell_on_device [where M = ?M and c = ?c and sh = "new_shared sample_conf" and pace = "\<lambda>k. k" and modern = True
        and rng = sample_tokens and sg = "sample_tokens 0" and r = "sample_input ?ds" and w = "[]"
        and ?os2.0 = "([], [], stored_key)" and ?os3.0 = "([], [], stored_key)" and n = "new_host_channel [] []"
        and shown = fst and complained = "\<lambda>s. fst (snd s)" and spec = "''h''" and ws = "[''warn'']"
        and ex = "command_exit sample_conf ''warn'' []" and plain = "fake_run sample_conf ''warn''",
        OF _ _ _ _ addr key _ _ over sign p]
  ultimately show ?thesis
    using unknown says sample_supported(1)
    by (auto simp: conf ex sample_terminal_ok lets_in_def sample_conf_simps SHELL_V2_FEATURE_def)
qed

end
