(* ===== verification/Spec2Isabelle.thy ===== *)
theory Spec2Isabelle
  imports Track Examples Cli_Device
begin

text \<open>
  This library models \<open>rsadb\<close>, an implementation of the host side of the Android Debug Bridge in
  Rust: a wire protocol of 24-byte headers and payloads over TCP or USB, a handshake with RSA
  authentication, streams multiplexed over one connection by two background tasks, and the device
  services (shell, properties, content queries, file sync) on top of such streams or of an adb
  server. File names below are under \<open>src/\<close> of the repository.

  \<^bold>\<open>How the code is modelled.\<close> A fallible pure function returns \<open>error + 'a\<close> (\<open>result\<close>); each variant
  of \<open>Error\<close> is a constructor, and its message is the code's format string with its arguments. An
  operation with effects is a \<open>comp\<close>: from a state to the outcome and the new state, or to \<open>None\<close>
  when it never returns; a panic is \<open>None\<close> too. Loops whose end depends on the peer are
  \<open>partial_function (option)\<close>, so that \<open>None\<close> is also the value of a loop that runs for ever; every
  property that gives an outcome says \<open>Some\<close>. Integers have the width of the code (\<open>u8\<close>, \<open>u32\<close>,
  \<open>u64\<close>); a \<open>usize\<close> is a natural number, and text is the list of its UTF-8 bytes as characters.

  \<^bold>\<open>Foundations.\<close>
  \<^item> \<open>Prelude\<close>, \<open>Rust_Text\<close>: little-endian words, results and computations; the methods of \<open>str\<close> that
    the code calls (\<open>split_once\<close>, \<open>trim\<close>, \<open>lines\<close>, \<open>from_str_radix\<close>, \<open>from_utf8_lossy\<close>).
  \<^item> \<open>Errors\<close>: \<open>error.rs\<close>. \<open>BTree\<close>: \<open>BTreeMap\<close> as a sorted association list.
  \<^item> \<open>Wire\<close>: \<open>wire/\<close>, the commands, headers, checksum and header codec.

  \<^bold>\<open>Transports.\<close>
  \<^item> \<open>Transport\<close>: \<open>transport/mod.rs\<close>, \<open>transport/framed.rs\<close>. An asynchronous byte stream is a parameter
    with the contract \<open>reads_bytes\<close> / \<open>writes_bytes\<close>: it delivers its bytes in order, in pieces of any
    size. \<open>deframe\<close> is the abstract specification of \<open>recv\<close>.
  \<^item> \<open>Usb\<close>: \<open>transport/usb/\<close>, with the contract \<open>reads_packets\<close> / \<open>writes_packets\<close> of bulk transfers.
  \<^item> \<open>Endpoint\<close>: \<open>transport/tcp.rs\<close>. \<open>Track\<close>: \<open>track.rs\<close>.

  \<^bold>\<open>Connecting.\<close>
  \<^item> \<open>Pubkey\<close>: \<open>auth/pubkey.rs\<close>, \<open>auth/mod.rs\<close>; the \<open>rsa\<close> and \<open>base64\<close> crates are the record \<open>crypto\<close>.
    \<open>Keyfile\<close>: \<open>auth/keyfile.rs\<close> and the key options of \<open>bin/rsadb\<close>; the file system is the record
    \<open>files\<close> with the contract \<open>holds_files\<close>.
  \<^item> \<open>Banner\<close>, \<open>Handshake\<close>: \<open>session/banner.rs\<close>, \<open>session/handshake.rs\<close>. The locale \<open>message_transport\<close> is
    the interface the handshake relies on, interpreted on the framed transport; \<open>hs_run\<close> is the
    abstract protocol it refines.

  \<^bold>\<open>Sessions.\<close>
  \<^item> \<open>Registry\<close>, \<open>Session\<close>: \<open>session/registry.rs\<close>, \<open>session/reader.rs\<close>, \<open>session/mod.rs\<close>. A session is a
    record of the shared state; \<open>reachable\<close> is the inductive relation of every interleaving of the
    reader, the writer and the owners of streams, and its invariants are proved by rule induction.
  \<^item> \<open>Stream\<close>: \<open>session/stream.rs\<close>. An operation of a stream's owner runs in small atomic accesses;
    between two of them (\<open>pause\<close>) and whenever it waits, an environment \<open>E\<close> chooses any list of
    events of the other tasks. \<open>Stream_Env\<close>, \<open>Stream_Flow\<close> and \<open>Stream_Life\<close> prove what holds for
    every environment: flow control, order, acknowledgement, opening and closing.
  \<^item> \<open>Wakeup\<close>: \<open>wait_ack\<close> against \<open>ack\<close> and \<open>mark_closed\<close> one memory access at a time.

  \<^bold>\<open>Services.\<close>
  \<^item> \<open>Channel\<close>: \<open>channel.rs\<close>, \<open>host/channel.rs\<close>. The locale \<open>channel\<close> states what the services need of
    an open channel, with the laws of \<open>recv\<close>, \<open>send\<close> and \<open>close\<close>; the buffered reader and \<open>drain\<close> are
    proved in it, and it is interpreted on \<open>HostChannel\<close> over any byte stream.
  \<^item> \<open>Shell_V2\<close>, \<open>Shell\<close>: \<open>services/shell_v2.rs\<close>, \<open>services/shell.rs\<close>, \<open>services/mod.rs\<close>. \<open>sh_split\<close> is how a
    shell splits a line without expansions into words, the reference for \<open>quote\<close>.
  \<^item> \<open>Props\<close>, \<open>Content\<close>: \<open>services/props.rs\<close>, \<open>services/content.rs\<close>, against printers of what the device
    writes.
  \<^item> \<open>Sync_Codec\<close>, \<open>Sync\<close>: \<open>services/sync/\<close>. \<open>Device\<close>: \<open>device/mod.rs\<close>, \<open>device/files.rs\<close>; its properties
    follow an operation from the device API down to the bytes on the channel.
  \<^item> \<open>Host\<close>: \<open>host/mod.rs\<close>, \<open>host/proto.rs\<close>, the requests of the adb server.
  \<^item> \<open>Direct\<close>: a session as a \<open>Connection\<close>. The locale \<open>served_stream\<close> is what ADB asks of the device for
    one stream (every \<open>WRTE\<close> acknowledged once, chunks in order, an end or none), and a \<open>sublocale\<close> of
    \<open>channel\<close>: under it the operations of a stream return, so the services hold of a direct session.
    The locale \<open>opened_stream\<close> extends it with the opening, the \<open>OPEN\<close> accepted after a delay.
  \<^item> \<open>Query\<close>: a content query from the device API to the rows, with the check of its row count.
  \<^item> \<open>Local_Files\<close>: the copies of \<open>device/files.rs\<close> between the device and local files, over a disk with
    the contract \<open>writes_files\<close>.

  \<^bold>\<open>The program.\<close>
  \<^item> \<open>Console\<close>: \<open>bin/rsadb/commands.rs\<close>, the commands on a device and the lines they print, over a terminal
    and local files that are parameters.
  \<^item> \<open>Cli\<close>: \<open>bin/rsadb/main.rs\<close>, \<open>cli.rs\<close>, \<open>connect.rs\<close> and the rest of \<open>commands.rs\<close>. The record
    \<open>host_machine\<close> is what a process runs on (environment, files, keys, sockets, USB); the properties follow
    whole runs through every layer, from the parsed options to the output and the exit code.
  \<^item> \<open>Examples\<close>: \<open>examples/\<close>, the mains of the example programs on the same machine.

  \<^bold>\<open>The other side.\<close> The repository's tests run the library against a device of its own,
  \<open>tests/common/fake\<close>. It is modelled too, so that properties can put both sides together: what one
  side sends is what the other receives, and both sides' code gives the result.
  \<^item> \<open>Sync_Peer\<close>: \<open>fake/fs.rs\<close>, \<open>fake/sync.rs\<close>, an in-memory file system and the sync handler over it;
    \<open>on_data_append\<close> says that its answers do not depend on how the requests are cut.
  \<^item> \<open>Fake_Shell\<close>: \<open>fake/shell.rs\<close>, \<open>fake/services.rs\<close>, \<open>fake/mod.rs\<close>, the interpreter of command lines, the
    handlers of the services and the device's configuration.
  \<^item> \<open>Fake_Engine\<close>: \<open>fake/engine.rs\<close>, the device's handshake and its loop over the open streams.
  \<^item> \<open>Fake_Session\<close>: a session and that device on one pipe, each as slow as it likes. It follows a call
    from \<open>open_stream\<close> through the registry, both tasks, the device's loop and its services back to the
    caller; waits end because the messages come closer with every action.
  \<^item> \<open>Cli_Device\<close>: the program against that device, from the parsed options through the key, the
    handshake and the session to the output and the exit code.

  \<^bold>\<open>Bounds and fuel.\<close> There is no fuel. The handshake is bounded by its own counters (64 stale frames,
  two answers): \<open>handshake_bounded\<close> proves, over any transport (\<open>answering\<close>), that it receives at most
  67 messages, sends at most three and returns, even to a device that falls silent once it has the
  public key, for then the timer expires. Before the key is sent no timer runs, in the code either:
  a device silent there is waited for. The other loops end with the peer's data: the properties
  say for which data they return.

  \<^bold>\<open>Findings.\<close> \<open>open_after_reader_stopped\<close> (a stream opened after the reader stopped waits for ever),
  \<open>list_failure_lost\<close> (a short refusal of a listing is reported as a closed stream),
  \<open>content_blank_line_lost\<close>, \<open>hotplug_reports_twice\<close>, \<open>pub_key_option_loses_key\<close>,
  \<open>pull_to_file_stores\<close> (a pull that fails has already emptied the local file) and
  \<open>cli_pull_into_directory\<close> (the README's example of a pull into a directory fails).

  \<^bold>\<open>Simplifications.\<close>
  \<^item> In \<open>Registry\<close> and \<open>Stream\<close>, \<open>ack\<close> and \<open>mark_closed\<close> are one step each. \<open>Wakeup\<close> splits the accesses
    that waiting depends on; its counter of acknowledgements does not wrap at 64 bits.
  \<^item> Closing a session stops its reader at once; tokio stops a task where it next waits.
  \<^item> A channel dropped on an error path of \<open>shell_v2\<close>, \<open>collect_v2\<close> or \<open>drain\<close> sends its \<open>CLSE\<close> in the code
    and not in the model; the properties of these paths are about the outcome.
  \<^item> The properties of the handshake but \<open>handshake_bounded\<close> are about transports that answer before a
    timer expires (\<open>prompt\<close>). A receive that runs out makes the handshake fail, never succeed.
  \<^item> The contracts \<open>writes_files\<close> and \<open>holds_files\<close> are those of a disk that has room and lets the process
    write; a flush has nothing left to do there.
  \<^item> In \<open>Fake_Session\<close> the other tasks do at most one action between two accesses of the owner, in a fixed
    order and after any delay. The properties over every environment are those of \<open>Stream_Flow\<close>,
    \<open>Stream_Life\<close> and \<open>Session\<close>.
  \<^item> In \<open>Cli_Device\<close> the device's part of the handshake is the list \<open>device_says\<close>; \<open>handshake_agrees\<close> proves
    that the device's own code sends it.

  \<^bold>\<open>Not modelled.\<close> The parsing of the command line, which is the \<open>clap\<close> crate's (a run starts from the
  parsed options), the re-exports of \<open>lib.rs\<close>, \<open>Debug\<close> output, the Windows variants of file
  permissions, the test suites. An error message is its template and arguments; rendering it to
  text is a parameter of the terminal. Time is a parameter: a timed receive is told whether it expires.
\<close>

end
